(* ===== verification/Prelude.thy ===== *)
theory Prelude imports Main "HOL-Library.Word" begin

unbundle bit_operations_syntax

text \<open>
  What every component shares.

  \<^item> The machine types of the Rust code (\<open>u8\<close> to \<open>u64\<close> as words, byte strings as lists of
    bytes) and the constants of \<open>src/src/constants.rs\<close>.
  \<^item> The outcome of a Rust computation, \<open>outcome\<close>: it returns (\<open>Ok\<close>), fails with a value
    of its error type (\<open>Err\<close>, the \<open>?\<close> operator and the \<open>Err!\<close> macro of
    \<open>src/src/core.rs\<close>), panics (\<open>Panic\<close>: an index out of range, an \<open>unwrap\<close>, a failed
    \<open>assert!\<close>) or, for an \<open>async\<close> function, stays suspended because its peer has sent
    nothing (\<open>Pending\<close>).
  \<^item> The standard library's text functions that names go through: \<open>str::trim\<close> and the
    ASCII character classes on the byte view of a string, and the decimal rendering of an
    integer by \<open>format!\<close>.

  A Rust \<open>String\<close> is its UTF-8 byte sequence; in the model that is a list of \<open>char\<close>
  (an Isabelle \<open>char\<close> is one byte).  \<open>as_bytes\<close> is the conversion of \<open>str::as_bytes\<close>.
\<close>

section \<open>Machine types and constants\<close>

type_synonym u8 = "8 word"
type_synonym u16 = "16 word"
type_synonym u32 = "32 word"
type_synonym u64 = "64 word"
type_synonym bytes = "u8 list"

definition MTU :: nat where "MTU = 1500"
definition IPV4_HEADER_SIZE :: nat where "IPV4_HEADER_SIZE = 20"
definition IPV6_HEADER_SIZE :: nat where "IPV6_HEADER_SIZE = 40"
definition UDP_HEADER_SIZE :: nat where "UDP_HEADER_SIZE = 8"

text \<open>The collections the component theories declare into and simplify with.\<close>

named_theorems const_simps "the program's numeric constants"
named_theorems outcome_simps "unfolding of outcome combinators"
named_theorems codec_simps "lengths and inverses of encoders"

declare MTU_def [const_simps] IPV4_HEADER_SIZE_def [const_simps]
  IPV6_HEADER_SIZE_def [const_simps] UDP_HEADER_SIZE_def [const_simps]

section \<open>Outcomes\<close>

datatype ('e, 'a) outcome = Ok 'a | Err 'e | Panic | Pending

text \<open>\<open>and_then\<close> is the \<open>?\<close> operator followed by the rest of the function.\<close>

fun and_then :: "('e, 'a) outcome \<Rightarrow> ('a \<Rightarrow> ('e, 'b) outcome) \<Rightarrow> ('e, 'b) outcome" where
  "and_then (Ok a) k = k a"
| "and_then (Err e) k = Err e"
| "and_then Panic k = Panic"
| "and_then Pending k = Pending"

text \<open>\<open>map_err\<close> is \<open>Result::map_err\<close>; \<open>ok_or_handle_error\<close> of \<open>src/src/core.rs\<close> only logs
  the error it drops.\<close>

fun map_err :: "('e \<Rightarrow> 'f) \<Rightarrow> ('e, 'a) outcome \<Rightarrow> ('f, 'a) outcome" where
  "map_err f (Ok a) = Ok a"
| "map_err f (Err e) = Err (f e)"
| "map_err f Panic = Panic"
| "map_err f Pending = Pending"

fun ok_or_handle_error :: "'e + 'a \<Rightarrow> 'a option" where
  "ok_or_handle_error (Inr v) = Some v"
| "ok_or_handle_error (Inl e) = None"

fun is_ok :: "('e, 'a) outcome \<Rightarrow> bool" where
  "is_ok (Ok a) = True"
| "is_ok _ = False"

lemma and_then_eq_Ok [outcome_simps]:
  "and_then r k = Ok b \<longleftrightarrow> (\<exists>a. r = Ok a \<and> k a = Ok b)"
  by (cases r) auto

lemma and_then_eq_Panic [outcome_simps]:
  "and_then r k = Panic \<longleftrightarrow> r = Panic \<or> (\<exists>a. r = Ok a \<and> k a = Panic)"
  by (cases r) auto

lemma and_then_eq_Pending [outcome_simps]:
  "and_then r k = Pending \<longleftrightarrow> r = Pending \<or> (\<exists>a. r = Ok a \<and> k a = Pending)"
  by (cases r) simp_all

lemma map_err_eq_Ok [outcome_simps]: "map_err f r = Ok a \<longleftrightarrow> r = Ok a"
  by (cases r) auto

lemma map_err_eq_Panic [outcome_simps]: "map_err f r = Panic \<longleftrightarrow> r = Panic"
  by (cases r) auto

text \<open>An outcome that is returned, as a value or an error.\<close>

definition settled :: "('e, 'a) outcome \<Rightarrow> bool" where
  "settled r \<longleftrightarrow> r \<noteq> Panic \<and> r \<noteq> Pending"

lemma settled_simps [simp]:
  "settled (Ok a)" "settled (Err e)" "\<not> settled Panic" "\<not> settled Pending"
  "settled (map_err f r) \<longleftrightarrow> settled r"
  "settled (and_then r k) \<longleftrightarrow> settled r \<and> (\<forall>a. r = Ok a \<longrightarrow> settled (k a))"
  by (cases r; simp add: settled_def)+

lemma settled_cases: "settled r \<longleftrightarrow> (\<exists>a. r = Ok a) \<or> (\<exists>e. r = Err e)"
  by (cases r) simp_all

section \<open>Lists\<close>

text \<open>Replacing a slice of a fixed buffer: \<open>copy_from_slice\<close> into \<open>buf[i..i + n]\<close>, after the
  range check the caller makes.\<close>

definition overwrite :: "nat \<Rightarrow> 'a list \<Rightarrow> 'a list \<Rightarrow> 'a list" where
  "overwrite i new xs = take i xs @ new @ drop (i + length new) xs"

lemma length_overwrite [simp]:
  "i + length new \<le> length xs \<Longrightarrow> length (overwrite i new xs) = length xs"
  by (simp add: overwrite_def)

lemma take_overwrite:
  "i + length new \<le> length xs \<Longrightarrow> take (i + length new) (overwrite i new xs) = take i xs @ new"
  by (simp add: overwrite_def)

lemma drop_overwrite:
  "i + length new \<le> length xs \<Longrightarrow> drop (i + length new) (overwrite i new xs) = drop (i + length new) xs"
  by (simp add: overwrite_def)

lemma overwrite_Nil [simp]: "overwrite i [] xs = xs"
  by (simp add: overwrite_def)

lemma nth_take_drop_append: "i < length xs \<Longrightarrow> take i xs @ xs ! i # drop (Suc i) xs = xs"
  by (metis id_take_nth_drop)

text \<open>The slice \<open>&xs[i..j]\<close>, in range.\<close>

definition subslice :: "nat \<Rightarrow> nat \<Rightarrow> 'a list \<Rightarrow> 'a list" where
  "subslice i j xs = take (j - i) (drop i xs)"

lemma length_subslice [simp]: "j \<le> length xs \<Longrightarrow> length (subslice i j xs) = j - i"
  by (simp add: subslice_def)

lemma subslice_append_middle:
  "length a = i \<Longrightarrow> i + length b = j \<Longrightarrow> subslice i j (a @ b @ c) = b"
  by (auto simp: subslice_def)

text \<open>\<open>xs[i]\<close> and \<open>&xs[i..j]\<close> with their range checks.\<close>

definition index_at :: "nat \<Rightarrow> 'a list \<Rightarrow> ('e, 'a) outcome" where
  "index_at i xs = (if i < length xs then Ok (xs ! i) else Panic)"

definition slice_at :: "nat \<Rightarrow> nat \<Rightarrow> 'a list \<Rightarrow> ('e, 'a list) outcome" where
  "slice_at i j xs = (if i \<le> j \<and> j \<le> length xs then Ok (subslice i j xs) else Panic)"

lemma index_at_Ok [simp]: "i < length xs \<Longrightarrow> index_at i xs = Ok (xs ! i)"
  and slice_at_Ok [simp]: "i \<le> j \<Longrightarrow> j \<le> length xs \<Longrightarrow> slice_at i j xs = Ok (subslice i j xs)"
  by (simp_all add: index_at_def slice_at_def)

section \<open>Text\<close>

text \<open>\<open>as_bytes\<close> and the byte view's inverse.\<close>

definition byte_of_char :: "char \<Rightarrow> u8" where
  "byte_of_char c = word_of_nat (of_char c)"

definition char_of_byte :: "u8 \<Rightarrow> char" where
  "char_of_byte b = char_of (unat b)"

definition as_bytes :: "string \<Rightarrow> bytes" where
  "as_bytes = map byte_of_char"

definition of_bytes :: "bytes \<Rightarrow> string" where
  "of_bytes = map char_of_byte"

lemma unat_byte_of_char [simp]: "unat (byte_of_char c) = of_char c"
proof -
  have "(of_char c :: nat) < 256" by (rule nat_of_char_less_256)
  then show ?thesis by (simp add: byte_of_char_def unat_of_nat take_bit_eq_mod)
qed

lemma char_of_byte_of_char [simp]: "char_of_byte (byte_of_char c) = c"
  by (simp add: char_of_byte_def)

lemma byte_of_char_of_byte [simp]: "byte_of_char (char_of_byte b) = b"
proof -
  have "unat b < 256" using unsigned_less [of b, where ?'a = nat] by simp
  then show ?thesis by (simp add: char_of_byte_def byte_of_char_def)
qed

lemma byte_of_char_eq_iff [simp]: "byte_of_char c = byte_of_char d \<longleftrightarrow> c = d"
  by (metis char_of_byte_of_char)

lemma of_bytes_as_bytes [simp]: "of_bytes (as_bytes s) = s"
  by (simp add: of_bytes_def as_bytes_def comp_def)

lemma as_bytes_of_bytes [simp]: "as_bytes (of_bytes bs) = bs"
  by (simp add: of_bytes_def as_bytes_def comp_def)

lemma length_as_bytes [simp]: "length (as_bytes s) = length s"
  by (simp add: as_bytes_def)

lemma as_bytes_append [simp]: "as_bytes (s @ t) = as_bytes s @ as_bytes t"
  by (simp add: as_bytes_def)

lemma as_bytes_eq_iff [simp]: "as_bytes s = as_bytes t \<longleftrightarrow> s = t"
  by (metis of_bytes_as_bytes)

lemma as_bytes_Nil [simp]: "as_bytes s = [] \<longleftrightarrow> s = []"
  by (simp add: as_bytes_def)

text \<open>\<open>u8\<close>'s character classes and \<open>str::trim\<close>, on the bytes of a string.  The white space of
  \<open>trim\<close> outside ASCII is not needed: the code rejects every byte of such characters.\<close>

definition is_ascii_alphanumeric :: "char \<Rightarrow> bool" where
  "is_ascii_alphanumeric c \<longleftrightarrow>
     (let n = of_char c :: nat in
      48 \<le> n \<and> n \<le> 57 \<or> 65 \<le> n \<and> n \<le> 90 \<or> 97 \<le> n \<and> n \<le> 122)"

definition is_ascii_punctuation :: "char \<Rightarrow> bool" where
  "is_ascii_punctuation c \<longleftrightarrow>
     (let n = of_char c :: nat in
      33 \<le> n \<and> n \<le> 47 \<or> 58 \<le> n \<and> n \<le> 64 \<or> 91 \<le> n \<and> n \<le> 96 \<or> 123 \<le> n \<and> n \<le> 126)"

definition is_whitespace :: "char \<Rightarrow> bool" where
  "is_whitespace c \<longleftrightarrow> (let n = of_char c :: nat in 9 \<le> n \<and> n \<le> 13 \<or> n = 32)"

definition str_trim :: "string \<Rightarrow> string" where
  "str_trim s = rev (dropWhile is_whitespace (rev (dropWhile is_whitespace s)))"

lemma dropWhile_self: "dropWhile P xs = xs \<longleftrightarrow> xs = [] \<or> \<not> P (hd xs)"
proof (cases xs)
  case (Cons x ys)
  have "length (dropWhile P ys) \<le> length ys" by (rule length_dropWhile_le)
  then have "dropWhile P ys \<noteq> x # ys" by auto
  with Cons show ?thesis by simp
qed simp

lemma str_trim_self:
  "str_trim s = s \<longleftrightarrow> s = [] \<or> \<not> is_whitespace (hd s) \<and> \<not> is_whitespace (last s)"
proof
  assume trim: "str_trim s = s"
  show "s = [] \<or> \<not> is_whitespace (hd s) \<and> \<not> is_whitespace (last s)"
  proof (cases "s = []")
    case False
    have "length (str_trim s) \<le> length (dropWhile is_whitespace s)"
      unfolding str_trim_def by (metis length_dropWhile_le length_rev)
    with trim have "length s \<le> length (dropWhile is_whitespace s)" by simp
    then have d: "dropWhile is_whitespace s = s"
      by (metis append_self_conv2 le_add2 length_append length_0_conv add_le_same_cancel2 le_zero_eq
          takeWhile_dropWhile_id)
    with trim have "dropWhile is_whitespace (rev s) = rev s" by (simp add: str_trim_def rev_swap)
    with d False show ?thesis by (simp add: dropWhile_self hd_rev)
  qed simp
next
  assume "s = [] \<or> \<not> is_whitespace (hd s) \<and> \<not> is_whitespace (last s)"
  then show "str_trim s = s"
  proof
    assume "\<not> is_whitespace (hd s) \<and> \<not> is_whitespace (last s)"
    then have "dropWhile is_whitespace s = s" "dropWhile is_whitespace (rev s) = rev s"
      by (cases "s = []"; simp add: dropWhile_self hd_rev)+
    then show ?thesis by (simp add: str_trim_def)
  qed (simp add: str_trim_def)
qed

text \<open>The decimal rendering of an integer by \<open>format!\<close>.\<close>

definition digit :: "nat \<Rightarrow> char" where
  "digit d = char_of (48 + d)"

fun show_nat :: "nat \<Rightarrow> string" where
  "show_nat n = (if n < 10 then [digit n] else show_nat (n div 10) @ [digit (n mod 10)])"

declare show_nat.simps [simp del]

lemma digit_inj: "d < 10 \<Longrightarrow> e < 10 \<Longrightarrow> digit d = digit e \<Longrightarrow> d = e"
  by (auto simp: digit_def dest!: arg_cong [where f = "of_char :: char \<Rightarrow> nat"])

lemma show_nat_not_Nil [simp]: "show_nat n \<noteq> []" "[] \<noteq> show_nat n"
  by (simp_all add: show_nat.simps [of n])

lemma show_nat_inj: "show_nat m = show_nat n \<Longrightarrow> m = n"
proof (induction m arbitrary: n rule: show_nat.induct)
  case (1 m)
  note m = show_nat.simps [of m] and n = show_nat.simps [of n]
  show ?case
  proof (cases "m < 10")
    case True
    with "1.prems" m n show ?thesis by (auto split: if_splits dest: digit_inj)
  next
    case False
    with "1.prems" m n have "\<not> n < 10" by (auto split: if_splits)
    with False "1.prems" m n have "show_nat (m div 10) = show_nat (n div 10)"
      "digit (m mod 10) = digit (n mod 10)" by simp_all
    then have "m div 10 = n div 10" "m mod 10 = n mod 10"
      using "1.IH" [OF False] digit_inj [of "m mod 10" "n mod 10"] by simp_all
    then show ?thesis by (metis div_mult_mod_eq)
  qed
qed

lemma show_nat_digits: "c \<in> set (show_nat n) \<Longrightarrow> is_ascii_alphanumeric c \<and> \<not> is_whitespace c"
proof (induction n rule: show_nat.induct)
  case (1 n)
  have "is_ascii_alphanumeric (digit d) \<and> \<not> is_whitespace (digit d)" if "d < 10" for d
    using that by (simp add: digit_def is_ascii_alphanumeric_def is_whitespace_def Let_def)
  with 1 show ?case by (auto simp: show_nat.simps [of n] split: if_splits)
qed

end
