(* ===== verification/Wire.thy ===== *)
theory Wire imports Prelude begin

unbundle bit_operations_syntax

text \<open>
  Bytes on the wire.

  \<^item> Big-endian integers: \<open>u16::from_be_bytes\<close>, \<open>to_be_bytes\<close> and \<open>BufMut::put_u16\<close>,
    \<open>put_u32\<close>, \<open>put_u64\<close> (a \<open>BytesMut\<close> being written is a byte list that grows at the end).
  \<^item> The reading half of a socket: a list of what the peer and the network will deliver, in
    order.  How the bytes are cut into chunks is free, so a theorem about every such list is a
    theorem about every segmentation the network can choose.
  \<^item> The interface of a byte source (the locale \<open>byte_source\<close>) that the framing and the
    handshake code rely on, and its two implementations: the socket, and the socket behind
    bytes that an earlier stage has already read.
\<close>

section \<open>Big-endian integers\<close>

text \<open>\<open>to_be_bytes\<close> and \<open>from_be_bytes\<close> of the unsigned types: the first byte is the most
  significant one.\<close>

fun be_bytes :: "nat \<Rightarrow> 'a::len word \<Rightarrow> bytes" where
  "be_bytes 0 w = []"
| "be_bytes (Suc n) w = be_bytes n (drop_bit 8 w) @ [ucast w]"

definition u16_to_be_bytes :: "u16 \<Rightarrow> bytes" where "u16_to_be_bytes = be_bytes 2"
definition u32_to_be_bytes :: "u32 \<Rightarrow> bytes" where "u32_to_be_bytes = be_bytes 4"
definition u64_to_be_bytes :: "u64 \<Rightarrow> bytes" where "u64_to_be_bytes = be_bytes 8"

definition from_be_bytes :: "bytes \<Rightarrow> 'a::len word" where
  "from_be_bytes bs = foldl (\<lambda>w b. push_bit 8 w OR ucast b) 0 bs"

lemma length_be_bytes [codec_simps, simp]: "length (be_bytes n w) = n"
  by (induction n arbitrary: w) auto

lemma length_u_to_be_bytes [codec_simps, simp]:
  "length (u16_to_be_bytes a) = 2" "length (u32_to_be_bytes b) = 4" "length (u64_to_be_bytes c) = 8"
  by (simp_all add: u16_to_be_bytes_def u32_to_be_bytes_def u64_to_be_bytes_def)

lemma from_be_bytes_snoc: "from_be_bytes (bs @ [b]) = push_bit 8 (from_be_bytes bs) OR ucast b"
  by (simp add: from_be_bytes_def)

lemma take_bit_split_byte:
  fixes w :: "'a::len word"
  shows "push_bit 8 (take_bit n (drop_bit 8 w)) OR ucast (ucast w :: u8) = take_bit (8 + n) w"
  by (rule bit_word_eqI) (auto simp: bit_simps)

lemma from_be_bytes_be_bytes: "from_be_bytes (be_bytes n w) = take_bit (8 * n) w"
proof (induction n arbitrary: w)
  case 0
  show ?case by (simp add: from_be_bytes_def)
next
  case (Suc n)
  then show ?case by (simp add: from_be_bytes_snoc take_bit_split_byte)
qed

lemma from_to_be_bytes [codec_simps, simp]:
  "from_be_bytes (u16_to_be_bytes a) = a" "from_be_bytes (u32_to_be_bytes b) = b"
  "from_be_bytes (u64_to_be_bytes c) = c"
  by (simp_all add: u16_to_be_bytes_def u32_to_be_bytes_def u64_to_be_bytes_def
      from_be_bytes_be_bytes take_bit_word_eq_self)

lemma unat_from_be_bytes_u16: "unat (from_be_bytes [a, b] :: u16) = 256 * unat a + unat b"
proof -
  have a: "unat a < 256" and b: "unat b < 256"
    using unsigned_less [of a, where ?'a = nat] unsigned_less [of b, where ?'a = nat] by simp_all
  have "unat (from_be_bytes [a, b] :: u16) = push_bit 8 (unat a) OR unat b"
    using a b by (simp add: from_be_bytes_def unsigned_or_eq unsigned_push_bit_eq unsigned_ucast_eq
        take_bit_nat_eq_self take_bit_push_bit)
  also have "\<dots> = push_bit 8 (unat a) OR take_bit 8 (unat b)"
    using b by (simp add: take_bit_nat_eq_self)
  also have "\<dots> = push_bit 8 (unat a) + take_bit 8 (unat b)"
    by (intro disjunctive_add [symmetric]) (auto simp: bit_push_bit_iff bit_take_bit_iff)
  also have "take_bit 8 (unat b) = unat b"
    using b by (simp add: take_bit_nat_eq_self)
  finally show ?thesis by (simp add: push_bit_eq_mult)
qed

lemma u16_to_be_bytes_Cons: "u16_to_be_bytes w = [ucast (drop_bit 8 w), ucast w]"
  by (simp add: u16_to_be_bytes_def numeral_2_eq_2)

lemma from_be_bytes_u16_pair [codec_simps, simp]:
  "from_be_bytes [ucast (drop_bit 8 w), ucast w] = (w :: u16)"
  using from_to_be_bytes(1) [of w] by (simp add: u16_to_be_bytes_Cons)


section \<open>Reading from a socket\<close>

text \<open>
  The reading half of a connection is the list of what will arrive on it: chunks, then
  possibly the peer's shutdown or a failure, both of which stay.  A list that ends without
  either is a connection on which nothing more arrives: the read is suspended.  Empty chunks
  are skipped, since a read never completes with no data except at the end of the stream.
\<close>

datatype read_event = Recv bytes | Eof | Broken string

type_synonym socket = "read_event list"

text \<open>\<open>AsyncReadExt::read\<close> into a slice of \<open>n\<close> bytes, and \<open>AsyncReadExt::read_buf\<close>, which
  takes what one read returns.  \<open>Ok []\<close> is the end of the stream.\<close>

fun socket_read :: "nat \<Rightarrow> socket \<Rightarrow> (string, bytes) outcome \<times> socket" where
  "socket_read n [] = (Pending, [])"
| "socket_read n (Recv bs # es) =
     (if bs = [] then socket_read n es
      else if length bs \<le> n then (Ok bs, es)
      else (Ok (take n bs), Recv (drop n bs) # es))"
| "socket_read n (Eof # es) = (Ok [], Eof # es)"
| "socket_read n (Broken e # es) = (Err e, Broken e # es)"

fun socket_read_buf :: "socket \<Rightarrow> (string, bytes) outcome \<times> socket" where
  "socket_read_buf [] = (Pending, [])"
| "socket_read_buf (Recv bs # es) = (if bs = [] then socket_read_buf es else (Ok bs, es))"
| "socket_read_buf (Eof # es) = (Ok [], Eof # es)"
| "socket_read_buf (Broken e # es) = (Err e, Broken e # es)"

text \<open>The bytes that will arrive before the stream ends, and what a read at that point gives.\<close>

fun arriving :: "socket \<Rightarrow> bytes" where
  "arriving (Recv bs # es) = bs @ arriving es"
| "arriving es = []"

fun ending :: "socket \<Rightarrow> (string, bytes) outcome" where
  "ending [] = Pending"
| "ending (Recv bs # es) = ending es"
| "ending (Eof # es) = Ok []"
| "ending (Broken e # es) = Err e"

lemma ending_not_panic [simp]: "ending s \<noteq> Panic"
  by (induction s rule: ending.induct) auto

lemma arriving_chunks [simp]: "arriving (map Recv cs @ es) = concat cs @ arriving es"
  by (induction cs) auto

lemma ending_chunks [simp]: "ending (map Recv cs @ es) = ending es"
  by (induction cs) auto

section \<open>The interface of a byte source\<close>

text \<open>
  \<open>read_until rd n buf s\<close> is the loop \<open>while buf.len() < n\<close> around a read: it stops with
  the filled buffer, or with \<open>None\<close> at the end of the stream.  Every round adds at least one
  byte, so it terminates.
\<close>

function read_until ::
  "(nat \<Rightarrow> 's \<Rightarrow> ('e, bytes) outcome \<times> 's) \<Rightarrow> nat \<Rightarrow> bytes \<Rightarrow> 's
    \<Rightarrow> ('e, bytes option) outcome \<times> 's" where
  "read_until rd n buf s =
     (if n \<le> length buf then (Ok (Some buf), s)
      else case rd (n - length buf) s of
        (Ok bs, s') \<Rightarrow> if bs = [] then (Ok None, s') else read_until rd n (buf @ bs) s'
      | (Err e, s') \<Rightarrow> (Err e, s')
      | (Panic, s') \<Rightarrow> (Panic, s')
      | (Pending, s') \<Rightarrow> (Pending, s'))"
  by pat_completeness auto
termination
  by (relation "measure (\<lambda>(rd, n, buf, s). n - length buf)") (auto simp: neq_Nil_conv)

declare read_until.simps [simp del]

fun exhausted :: "('e, bytes) outcome \<Rightarrow> ('e, bytes option) outcome" where
  "exhausted (Ok bs) = Ok None"
| "exhausted (Err e) = Err e"
| "exhausted Panic = Panic"
| "exhausted Pending = Pending"

locale byte_source =
  fixes rd :: "nat \<Rightarrow> 's \<Rightarrow> ('e, bytes) outcome \<times> 's"
    and left :: "'s \<Rightarrow> bytes"
    and fin :: "'s \<Rightarrow> ('e, bytes) outcome"
    and ok :: "'s \<Rightarrow> bool"
  assumes rd_some: "0 < n \<Longrightarrow> ok s \<Longrightarrow> left s \<noteq> [] \<Longrightarrow>
      \<exists>bs s'. rd n s = (Ok bs, s') \<and> bs \<noteq> [] \<and> left s = bs @ left s' \<and> fin s' = fin s \<and> ok s'"
    and rd_none: "0 < n \<Longrightarrow> ok s \<Longrightarrow> left s = [] \<Longrightarrow>
      \<exists>s'. rd n s = (fin s, s') \<and> left s' = [] \<and> ok s'"
    and fin_empty: "fin s = Ok bs \<Longrightarrow> bs = []"
begin

lemma read_until_done: "n \<le> length buf \<Longrightarrow> read_until rd n buf s = (Ok (Some buf), s)"
  by (simp add: read_until.simps)

lemma read_until_step:
  assumes "length buf < n" "ok s" "left s \<noteq> []"
  obtains bs s' where "bs \<noteq> []" "left s = bs @ left s'" "fin s' = fin s" "ok s'"
    "rd (n - length buf) s = (Ok bs, s')"
    "read_until rd n buf s = read_until rd n (buf @ bs) s'"
proof -
  have "0 < n - length buf" using assms(1) by simp
  from rd_some [OF this assms(2,3)] obtain bs s' where
    rd: "rd (n - length buf) s = (Ok bs, s')" "bs \<noteq> []" "left s = bs @ left s'" "fin s' = fin s"
      "ok s'"
    by blast
  then have "read_until rd n buf s = read_until rd n (buf @ bs) s'"
    using assms(1) by (simp add: read_until.simps [of rd n buf s])
  with rd that show ?thesis by blast
qed

text \<open>With enough bytes on the way the loop fills the buffer with them, in order, and leaves
  the rest; otherwise it ends the way the stream does.\<close>

lemma read_until_enough:
  assumes "ok s" "n \<le> length buf + length (left s)"
  shows "\<exists>k s'. read_until rd n buf s = (Ok (Some (buf @ take k (left s))), s') \<and>
    left s' = drop k (left s) \<and> fin s' = fin s \<and> ok s' \<and> n \<le> length buf + k \<and>
    k \<le> length (left s)"
  using assms
proof (induction "n - length buf" arbitrary: buf s rule: less_induct)
  case less
  show ?case
  proof (cases "n \<le> length buf")
    case True
    then show ?thesis by (intro exI [of _ 0] exI [of _ s]) (simp add: read_until_done less.prems(1))
  next
    case False
    with less.prems have "length buf < n" "ok s" "left s \<noteq> []" by auto
    then obtain bs s' where step: "bs \<noteq> []" "left s = bs @ left s'" "fin s' = fin s" "ok s'"
      "read_until rd n buf s = read_until rd n (buf @ bs) s'"
      using read_until_step [of buf n s] by blast
    have "n - length (buf @ bs) < n - length buf" "n \<le> length (buf @ bs) + length (left s')"
      using step(1,2) False less.prems by (cases bs; simp)+
    from less.hyps [OF this(1) step(4) this(2)] obtain k s'' where
      "read_until rd n (buf @ bs) s' = (Ok (Some ((buf @ bs) @ take k (left s'))), s'')"
      "left s'' = drop k (left s')" "fin s'' = fin s'" "ok s''" "n \<le> length (buf @ bs) + k"
      "k \<le> length (left s')" by blast
    with step show ?thesis
      by (intro exI [of _ "length bs + k"] exI [of _ s'']) simp
  qed
qed

lemma read_until_short:
  assumes "ok s" "length buf + length (left s) < n"
  shows "\<exists>s'. read_until rd n buf s = (exhausted (fin s), s') \<and> left s' = []"
  using assms
proof (induction "n - length buf" arbitrary: buf s rule: less_induct)
  case less
  show ?case
  proof (cases "left s = []")
    case True
    with less.prems rd_none [of "n - length buf" s] obtain s' where
      "rd (n - length buf) s = (fin s, s')" "left s' = []" by auto
    with less.prems True show ?thesis
      by (cases "fin s") (auto simp: read_until.simps [of rd n buf s] dest: fin_empty)
  next
    case False
    moreover have "length buf < n" "ok s" using less.prems by simp_all
    ultimately obtain bs s' where step: "bs \<noteq> []" "left s = bs @ left s'" "fin s' = fin s" "ok s'"
      "read_until rd n buf s = read_until rd n (buf @ bs) s'"
      using read_until_step [of buf n s] by blast
    have "n - length (buf @ bs) < n - length buf" "length (buf @ bs) + length (left s') < n"
      using step(1,2) less.prems by (cases bs; simp)+
    from less.hyps [OF this(1) step(4) this(2)] step show ?thesis by simp
  qed
qed

end

text \<open>A read into a slice returns at most the slice: the filled buffer then has exactly the
  length that was asked for.\<close>

locale bounded_source = byte_source +
  assumes rd_bound: "0 < n \<Longrightarrow> rd n s = (Ok bs, s') \<Longrightarrow> length bs \<le> n"
begin

lemma read_until_length:
  assumes "length buf \<le> n" "read_until rd n buf s = (Ok (Some b), s')"
  shows "length b = n"
  using assms
proof (induction "n - length buf" arbitrary: buf s rule: less_induct)
  case less
  show ?case
  proof (cases "n \<le> length buf")
    case True
    with less.prems show ?thesis by (simp add: read_until_done)
  next
    case False
    then have pos: "0 < n - length buf" by simp
    from less.prems(2) False obtain bs s1 where
      rd: "rd (n - length buf) s = (Ok bs, s1)" "bs \<noteq> []"
      and rec: "read_until rd n (buf @ bs) s1 = (Ok (Some b), s')"
      by (auto simp: read_until.simps [of rd n buf s] split: prod.splits outcome.splits if_splits)
    have "length (buf @ bs) \<le> n" "n - length (buf @ bs) < n - length buf"
      using rd_bound [OF pos rd(1)] rd(2) pos by (cases bs; simp)+
    from less.hyps [OF this(2,1) rec] show ?thesis .
  qed
qed

lemma read_until_exact:
  assumes "length buf \<le> n" "ok s" "n \<le> length buf + length (left s)"
  shows "\<exists>s'. read_until rd n buf s = (Ok (Some (buf @ take (n - length buf) (left s))), s') \<and>
    left s' = drop (n - length buf) (left s) \<and> fin s' = fin s \<and> ok s'"
proof -
  from read_until_enough [OF assms(2,3)] obtain k s' where
    r: "read_until rd n buf s = (Ok (Some (buf @ take k (left s))), s')" "left s' = drop k (left s)"
      "fin s' = fin s" "ok s'" "k \<le> length (left s)" by blast
  from read_until_length [OF assms(1) r(1)] r(5) have "k = n - length buf" by simp
  with r show ?thesis by blast
qed

end

section \<open>The socket is a byte source\<close>

lemma socket_read_some:
  "0 < n \<Longrightarrow> arriving s \<noteq> [] \<Longrightarrow> \<exists>bs s'. socket_read n s = (Ok bs, s') \<and> bs \<noteq> [] \<and>
     arriving s = bs @ arriving s' \<and> ending s' = ending s"
  by (induction n s rule: socket_read.induct) auto

lemma socket_read_none:
  "0 < n \<Longrightarrow> arriving s = [] \<Longrightarrow> \<exists>s'. socket_read n s = (ending s, s') \<and> arriving s' = []"
  by (induction n s rule: socket_read.induct) auto

lemma ending_empty: "ending s = Ok bs \<Longrightarrow> bs = []"
  by (induction s rule: ending.induct) auto

lemma socket_read_bound: "socket_read n s = (Ok bs, s') \<Longrightarrow> length bs \<le> n"
  by (induction n s rule: socket_read.induct) (auto split: if_splits)

interpretation sock: bounded_source socket_read arriving ending "\<lambda>_. True"
  by unfold_locales (simp_all add: socket_read_some socket_read_none ending_empty socket_read_bound)

lemma socket_read_buf_some:
  "arriving s \<noteq> [] \<Longrightarrow> \<exists>bs s'. socket_read_buf s = (Ok bs, s') \<and> bs \<noteq> [] \<and>
     arriving s = bs @ arriving s' \<and> ending s' = ending s"
  by (induction s rule: socket_read_buf.induct) auto

lemma socket_read_buf_none:
  "arriving s = [] \<Longrightarrow> \<exists>s'. socket_read_buf s = (ending s, s') \<and> arriving s' = []"
  by (induction s rule: socket_read_buf.induct) auto

text \<open>\<open>read_buf\<close> has no bound: it is a source, and not a bounded one.\<close>

interpretation sock_buf: byte_source "\<lambda>_. socket_read_buf" arriving ending "\<lambda>_. True"
  by unfold_locales (simp_all add: socket_read_buf_some socket_read_buf_none ending_empty)

text \<open>\<open>AsyncReadExt::read_exact\<close>: the end of the stream is an error of its own.\<close>

definition read_exact :: "nat \<Rightarrow> socket \<Rightarrow> (string, bytes) outcome \<times> socket" where
  "read_exact n s =
     (case read_until socket_read n [] s of
        (Ok (Some buf), s') \<Rightarrow> (Ok buf, s')
      | (Ok None, s') \<Rightarrow> (Err ''early eof'', s')
      | (Err e, s') \<Rightarrow> (Err e, s')
      | (Panic, s') \<Rightarrow> (Panic, s')
      | (Pending, s') \<Rightarrow> (Pending, s'))"

lemma read_exact_enough:
  assumes "n \<le> length (arriving s)"
  shows "\<exists>s'. read_exact n s = (Ok (take n (arriving s)), s') \<and>
    arriving s' = drop n (arriving s) \<and> ending s' = ending s"
  using sock.read_until_exact [of "[]" n s] assms by (auto simp: read_exact_def)

end
