(* ===== verification/Transport.thy ===== *)
theory Transport imports Prelude begin

unbundle bit_operations_syntax

text \<open>
  \<open>src/src/transport/mod.rs\<close>: the direction flags and the \<open>Transport\<close> trait.

  The trait's contract, which the connection pool and the controller rely on, is the pair of
  locales below: a transport that says it is ready for sending carries traffic out of this host
  (\<open>egress_transport\<close>), and a single connection that says so is also connected
  (\<open>connection_transport\<close>).  Each implementation interprets them on its own definitions.
\<close>

section \<open>Flag sets\<close>

text \<open>\<open>contains\<close> of a \<open>bitflags!\<close> type: every bit of the second set is in the first.\<close>

definition contains :: "'a::len word \<Rightarrow> 'a word \<Rightarrow> bool" where
  "contains s f \<longleftrightarrow> s AND f = f"

lemma contains_iff_bits: "contains s f \<longleftrightarrow> (\<forall>n. bit f n \<longrightarrow> bit s n)"
  by (auto simp: contains_def bit_eq_iff bit_and_iff dest: bit_imp_le_length)

lemma contains_or [simp]: "contains (s OR f) f" "contains (f OR s) f"
  by (simp_all add: contains_iff_bits bit_or_iff)

lemma contains_or_left: "contains s f \<Longrightarrow> contains (s OR g) f"
  by (simp add: contains_iff_bits bit_or_iff)

lemma contains_or_iff: "contains s (f OR g) \<longleftrightarrow> contains s f \<and> contains s g"
  by (auto simp: contains_iff_bits bit_or_iff)

section \<open>Directions\<close>

type_synonym transport_direction = u64

definition DIR_INGRESS :: transport_direction where "DIR_INGRESS = push_bit 0 1"
definition DIR_EGRESS :: transport_direction where "DIR_EGRESS = push_bit 1 1"

definition dir_empty :: transport_direction where "dir_empty = 0"
definition dir_all :: transport_direction where "dir_all = DIR_INGRESS OR DIR_EGRESS"

lemmas dir_defs = DIR_INGRESS_def DIR_EGRESS_def dir_empty_def dir_all_def

lemma dir_all_contains [simp]: "contains dir_all DIR_EGRESS" "contains dir_all DIR_INGRESS"
  by (simp_all add: dir_all_def)

section \<open>The transport contract\<close>

locale egress_transport =
  fixes direction :: "'t \<Rightarrow> transport_direction"
    and ready_for_sending :: "'t \<Rightarrow> bool"
  assumes ready_egress: "ready_for_sending t \<Longrightarrow> contains (direction t) DIR_EGRESS"
begin

text \<open>A list of transports that has a ready one carries traffic out.\<close>

lemma ready_list_egress:
  "t \<in> set (filter ready_for_sending ts) \<Longrightarrow> contains (direction t) DIR_EGRESS"
  by (auto intro: ready_egress)

lemma first_ready_egress:
  "find ready_for_sending ts = Some t \<Longrightarrow> contains (direction t) DIR_EGRESS"
  by (auto simp: find_Some_iff intro: ready_egress)

end

locale connection_transport = egress_transport +
  fixes connected :: "'t \<Rightarrow> bool"
  assumes ready_connected: "ready_for_sending t \<Longrightarrow> connected t"
begin

lemma not_connected_not_ready: "\<not> connected t \<Longrightarrow> \<not> ready_for_sending t"
  using ready_connected by blast

lemma ready_list_connected: "t \<in> set (filter ready_for_sending ts) \<Longrightarrow> connected t"
  by (auto intro: ready_connected)

end

end
