(* ===== verification/Hiddenlink.thy ===== *)
theory Hiddenlink imports Wire Transport begin

unbundle bit_operations_syntax

text \<open>
  The hiddenlink handshake: \<open>src/src/protocols/hiddenlink.rs\<close>, the client's \<open>process_handshake\<close>
  (\<open>src/src/transport/http/client/connection.rs\<close>), the server's \<open>process_hiddenlink_handshake\<close>
  (\<open>src/src/transport/http/server/server_connection.rs\<close>) and the flags and the random payload of
  \<open>src/src/transport/http/common.rs\<close>.

  The URL encoding is a crate's: the argument \<open>urlencode\<close>.  A random payload is an argument too,
  of a length in the code's range (\<open>random_payload\<close>).  What the sockets answer to writes and
  to socket options is an argument: an error or nothing.
\<close>

section \<open>Constants\<close>

definition MIN_SECRET_LEN :: nat where "MIN_SECRET_LEN = 10"
definition STATIC_HEADER_SIZE :: nat where "STATIC_HEADER_SIZE = 1 + 1 + 2"
definition HEADER_SUFFIX :: bytes where "HEADER_SUFFIX = as_bytes ''hiddenlink!''"

lemma STATIC_HEADER_SIZE_eq [const_simps]: "STATIC_HEADER_SIZE = 4"
  by (simp add: STATIC_HEADER_SIZE_def)

definition encode_secret_for_http1 :: "(string \<Rightarrow> string) \<Rightarrow> string \<Rightarrow> bytes" where
  "encode_secret_for_http1 urlencode secret =
     as_bytes (''POST /hiddenlink/v1/connect?secret='' @ urlencode secret)"

type_synonym connection_flags = u8

definition FLAG_INGRESS :: connection_flags where "FLAG_INGRESS = push_bit 0 1"
definition FLAG_EGRESS :: connection_flags where "FLAG_EGRESS = push_bit 1 1"

definition flags_from_bits :: "u8 \<Rightarrow> connection_flags option" where
  "flags_from_bits raw = (if raw AND NOT (FLAG_INGRESS OR FLAG_EGRESS) = 0 then Some raw else None)"

definition flags_set :: "connection_flags \<Rightarrow> bool \<Rightarrow> connection_flags \<Rightarrow> connection_flags" where
  "flags_set flag v flags = (if v then flags OR flag else flags AND NOT flag)"

text \<open>\<open>generate_random_payload(lo..=hi)\<close> gives alphanumeric bytes and their number.\<close>

definition random_payload :: "nat \<Rightarrow> nat \<Rightarrow> bytes \<Rightarrow> bool" where
  "random_payload lo hi payload \<longleftrightarrow> lo \<le> length payload \<and> length payload \<le> hi \<and>
     (\<forall>b \<in> set payload. is_ascii_alphanumeric (char_of_byte b))"

datatype handshake_error =
    NameTooLong
  | HandshakeIo string
  | UnexpectedEof
  | ProtocolViolation
  | InvalidFlags u8
  | InvalidName bytes
  | SocketOption string

section \<open>The client\<close>

definition client_request ::
  "bytes \<Rightarrow> connection_flags \<Rightarrow> string \<Rightarrow> bytes \<Rightarrow> (handshake_error, bytes) outcome" where
  "client_request secret flags name fake_http_request =
     (if 255 < length name then Err NameTooLong
      else Ok (secret @ [flags] @ [word_of_nat (length name)] @
               u16_to_be_bytes (word_of_nat (length fake_http_request)) @
               as_bytes name @ fake_http_request @ HEADER_SUFFIX))"

definition client_response :: "socket \<Rightarrow> (handshake_error, unit) outcome \<times> socket" where
  "client_response s =
     (case read_exact 2 s of
        (Ok raw, s1) \<Rightarrow>
          (case read_exact (unat (from_be_bytes raw :: u16) + length HEADER_SUFFIX) s1 of
             (Ok response, s2) \<Rightarrow>
               (if drop (length response - length HEADER_SUFFIX) response = HEADER_SUFFIX
                then Ok () else Err ProtocolViolation, s2)
           | (r, s2) \<Rightarrow> (and_then (map_err HandshakeIo r) (\<lambda>_. Ok ()), s2))
      | (r, s1) \<Rightarrow> (and_then (map_err HandshakeIo r) (\<lambda>_. Ok ()), s1))"

text \<open>The request is written (\<open>io\<close>), the response read, and the socket configured (\<open>opt\<close>).\<close>

definition client_handshake ::
  "bytes \<Rightarrow> connection_flags \<Rightarrow> string \<Rightarrow> bytes \<Rightarrow> string option \<Rightarrow> string option \<Rightarrow> socket
    \<Rightarrow> (handshake_error, unit) outcome \<times> socket" where
  "client_handshake secret flags name fake_http_request io opt s =
     (case client_request secret flags name fake_http_request of
        Ok request \<Rightarrow>
          (case io of
             Some e \<Rightarrow> (Err (HandshakeIo e), s)
           | None \<Rightarrow>
               (case client_response s of
                  (Ok u, s') \<Rightarrow>
                    (case opt of Some e \<Rightarrow> Err (SocketOption e) | None \<Rightarrow> Ok (), s')
                | (r, s') \<Rightarrow> (r, s')))
      | r \<Rightarrow> (and_then r (\<lambda>_. Ok ()), s))"

section \<open>The server\<close>

text \<open>A name is printable ASCII with no blank at either end.  The code checks the characters of a
  UTF-8 string; a byte above 127 is rejected by either check.\<close>

definition connection_name :: "bytes \<Rightarrow> string option" where
  "connection_name raw_name =
     (let name = of_bytes raw_name in
      if name = [] \<or> str_trim name \<noteq> name \<or>
        \<not> list_all (\<lambda>c. is_ascii_alphanumeric c \<or> is_ascii_punctuation c \<or> c = CHR '' '') name
      then None else Some name)"

text \<open>\<open>while buf.len() < n\<close> around \<open>read_buf\<close>.\<close>

definition fill_buffer :: "nat \<Rightarrow> bytes \<Rightarrow> socket \<Rightarrow> (handshake_error, bytes) outcome \<times> socket" where
  "fill_buffer n buf s =
     (case read_until (\<lambda>_. socket_read_buf) n buf s of
        (Ok (Some buf'), s') \<Rightarrow> (Ok buf', s')
      | (Ok None, s') \<Rightarrow> (Err UnexpectedEof, s')
      | (Err e, s') \<Rightarrow> (Err (HandshakeIo e), s')
      | (Panic, s') \<Rightarrow> (Panic, s')
      | (Pending, s') \<Rightarrow> (Pending, s'))"

text \<open>The fixed fields of the request that starts at \<open>index\<close>, and then its checks on the filled buffer, in
  their order: the name, the flags and the bytes read ahead.  Every index and slice is checked.\<close>

definition request_header :: "nat \<Rightarrow> bytes \<Rightarrow> (handshake_error, u8 \<times> nat \<times> nat) outcome" where
  "request_header index buf =
     and_then (index_at index buf) (\<lambda>raw_flags.
     and_then (index_at (index + 1) buf) (\<lambda>name_len.
     and_then (slice_at (index + 2) (index + 4) buf) (\<lambda>fake_http_request_size.
       Ok (raw_flags, unat name_len, unat (from_be_bytes fake_http_request_size :: u16)))))"

definition check_request ::
  "nat \<Rightarrow> u8 \<times> nat \<times> nat \<Rightarrow> bytes \<Rightarrow> (handshake_error, string \<times> connection_flags \<times> bytes) outcome" where
  "check_request index header buf =
     (case header of
        (raw_flags, name_len, fake_http_request_size) \<Rightarrow>
          let name_at = index + 4;
              suffix_at = name_at + name_len + fake_http_request_size;
              end_at = suffix_at + length HEADER_SUFFIX
          in and_then (slice_at name_at (name_at + name_len) buf) (\<lambda>raw_name.
             and_then (slice_at suffix_at end_at buf) (\<lambda>suffix.
               if suffix \<noteq> HEADER_SUFFIX then Err ProtocolViolation
               else case flags_from_bits raw_flags of
                   None \<Rightarrow> Err (InvalidFlags raw_flags)
                 | Some flags \<Rightarrow>
                     (case connection_name raw_name of
                        None \<Rightarrow> Err (InvalidName raw_name)
                      | Some name \<Rightarrow> Ok (name, flags, drop end_at buf)))))"

definition server_request ::
  "nat \<Rightarrow> bytes \<Rightarrow> socket
    \<Rightarrow> (handshake_error, string \<times> connection_flags \<times> bytes) outcome \<times> socket" where
  "server_request index buf s =
     (case fill_buffer (index + STATIC_HEADER_SIZE) buf s of
        (Ok buf1, s1) \<Rightarrow>
          (case request_header index buf1 of
             Ok (raw_flags, name_len, fake_http_request_size) \<Rightarrow>
               let handshake_size = index + 4 + name_len + fake_http_request_size + length HEADER_SUFFIX
               in (case fill_buffer handshake_size buf1 s1 of
                     (Ok buf2, s2) \<Rightarrow> (check_request index (raw_flags, name_len, fake_http_request_size) buf2, s2)
                   | (r, s2) \<Rightarrow> (and_then r (\<lambda>_. Err UnexpectedEof), s2))
           | r \<Rightarrow> (and_then r (\<lambda>_. Err UnexpectedEof), s1))
      | (r, s1) \<Rightarrow> (and_then r (\<lambda>_. Err UnexpectedEof), s1))"

definition server_response :: "bytes \<Rightarrow> bytes" where
  "server_response fake_http_response =
     u16_to_be_bytes (word_of_nat (length fake_http_response)) @ fake_http_response @ HEADER_SUFFIX"

text \<open>The whole of \<open>process_hiddenlink_handshake\<close>; the result also holds the response.\<close>

definition server_handshake ::
  "nat \<Rightarrow> bytes \<Rightarrow> bytes \<Rightarrow> string option \<Rightarrow> string option \<Rightarrow> socket
    \<Rightarrow> (handshake_error, string \<times> connection_flags \<times> bytes \<times> bytes) outcome \<times> socket" where
  "server_handshake index buf fake_http_response io opt s =
     (case server_request index buf s of
        (Ok (name, flags, preread), s') \<Rightarrow>
          (case io of
             Some e \<Rightarrow> (Err (HandshakeIo e), s')
           | None \<Rightarrow>
               (case opt of
                  Some e \<Rightarrow> (Err (SocketOption e), s')
                | None \<Rightarrow> (Ok (name, flags, preread, server_response fake_http_response), s')))
      | (Err e, s') \<Rightarrow> (Err e, s')
      | (Panic, s') \<Rightarrow> (Panic, s')
      | (Pending, s') \<Rightarrow> (Pending, s'))"

section \<open>Filling the buffer\<close>

lemma fill_buffer_enough:
  assumes "n \<le> length (buf @ arriving s)"
  obtains buf' s' where "fill_buffer n buf s = (Ok buf', s')" "buf' @ arriving s' = buf @ arriving s"
    "n \<le> length buf'" "length buf \<le> length buf'" "ending s' = ending s"
proof -
  have "n \<le> length buf + length (arriving s)" using assms by simp
  from sock_buf.read_until_enough [OF TrueI this] obtain k s' where
    "read_until (\<lambda>_. socket_read_buf) n buf s = (Ok (Some (buf @ take k (arriving s))), s')"
    "arriving s' = drop k (arriving s)" "ending s' = ending s" "n \<le> length buf + k"
    "k \<le> length (arriving s)" by blast
  then show ?thesis by (intro that [of "buf @ take k (arriving s)" s']) (simp_all add: fill_buffer_def)
qed

fun starved :: "(string, bytes) outcome \<Rightarrow> (handshake_error, 'a) outcome" where
  "starved (Ok bs) = Err UnexpectedEof"
| "starved (Err e) = Err (HandshakeIo e)"
| "starved Panic = Panic"
| "starved Pending = Pending"

lemma starved_not_ok [simp]: "starved r \<noteq> Ok x" by (cases r) simp_all

lemma starved_not_panic [simp]: "starved (ending s) \<noteq> Panic"
  using ending_not_panic [of s] by (cases "ending s") simp_all

lemma fill_buffer_short:
  assumes "length (buf @ arriving s) < n"
  obtains s' where "fill_buffer n buf s = (starved (ending s), s')"
proof -
  have "length buf + length (arriving s) < n" using assms by simp
  from sock_buf.read_until_short [OF TrueI this] obtain s' where
    "read_until (\<lambda>_. socket_read_buf) n buf s = (exhausted (ending s), s')" by blast
  then show ?thesis by (intro that [of s'], cases "ending s") (simp_all add: fill_buffer_def)
qed

section \<open>The request as a function of the stream\<close>

definition handshake_size :: "nat \<Rightarrow> bytes \<Rightarrow> nat" where
  "handshake_size index S = index + 4 + unat (S ! (index + 1)) +
     unat (from_be_bytes (subslice (index + 2) (index + 4) S) :: u16) + length HEADER_SUFFIX"

lemma subslice_append_left: "j \<le> length a \<Longrightarrow> subslice i j (a @ b) = subslice i j a"
  by (cases "i \<le> length a") (simp_all add: subslice_def)

lemma handshake_size_append:
  "index + 4 \<le> length a \<Longrightarrow> handshake_size index (a @ b) = handshake_size index a"
  by (simp add: handshake_size_def nth_append subslice_append_left)

fun with_rest :: "bytes \<Rightarrow> (handshake_error, string \<times> connection_flags \<times> bytes) outcome
    \<Rightarrow> (handshake_error, string \<times> connection_flags \<times> bytes) outcome" where
  "with_rest t (Ok (name, flags, preread)) = Ok (name, flags, preread @ t)"
| "with_rest t r = r"

text \<open>The checks as a function of a stream that holds the whole request: nothing is out of range.\<close>

definition parsed_request ::
  "nat \<Rightarrow> bytes \<Rightarrow> (handshake_error, string \<times> connection_flags \<times> bytes) outcome" where
  "parsed_request index S =
     (let name_len = unat (S ! (index + 1));
          name_at = index + 4;
          end_at = handshake_size index S;
          raw_name = subslice name_at (name_at + name_len) S
      in if subslice (end_at - length HEADER_SUFFIX) end_at S \<noteq> HEADER_SUFFIX then Err ProtocolViolation
         else case flags_from_bits (S ! index) of
             None \<Rightarrow> Err (InvalidFlags (S ! index))
           | Some flags \<Rightarrow>
               (case connection_name raw_name of
                  None \<Rightarrow> Err (InvalidName raw_name)
                | Some name \<Rightarrow> Ok (name, flags, drop end_at S)))"

lemma request_header_Ok:
  "index + 4 \<le> length buf \<Longrightarrow> request_header index buf =
     Ok (buf ! index, unat (buf ! (index + 1)), unat (from_be_bytes (subslice (index + 2) (index + 4) buf) :: u16))"
  by (simp add: request_header_def)

lemma request_header_append:
  "index + 4 \<le> length a \<Longrightarrow> request_header index (a @ t) = request_header index a"
  by (simp add: request_header_Ok nth_append subslice_append_left)

lemma check_request_parsed:
  assumes "index + 4 \<le> length S" "handshake_size index S \<le> length S" "request_header index S = Ok header"
  shows "check_request index header S = parsed_request index S"
proof -
  have "header = (S ! index, unat (S ! (index + 1)), unat (from_be_bytes (subslice (index + 2) (index + 4) S) :: u16))"
    using assms(3) request_header_Ok [OF assms(1)] by simp
  then show ?thesis
    using assms(2) by (simp add: check_request_def parsed_request_def handshake_size_def Let_def cong: option.case_cong)
qed

lemma parsed_request_append:
  assumes "index + 4 \<le> length a" "handshake_size index a \<le> length a"
  shows "parsed_request index (a @ t) = with_rest t (parsed_request index a)"
proof -
  have "(a @ t) ! index = a ! index" "(a @ t) ! (index + 1) = a ! (index + 1)"
    using assms(1) by (simp_all add: nth_append)
  moreover have "index + 4 + unat (a ! (index + 1)) \<le> length a"
    using assms(2) by (simp add: handshake_size_def)
  ultimately show ?thesis using assms
    by (simp add: parsed_request_def handshake_size_append Let_def subslice_append_left split: option.splits)
qed

definition request_view ::
  "nat \<Rightarrow> bytes \<Rightarrow> (string, bytes) outcome
    \<Rightarrow> (handshake_error, string \<times> connection_flags \<times> bytes) outcome" where
  "request_view index S fin =
     (if length S < index + 4 \<or> length S < handshake_size index S then starved fin
      else parsed_request index S)"

lemma server_request_stream:
  fixes buf :: bytes
  shows "\<exists>r s'. server_request index buf s = (r, s') \<and>
    with_rest (arriving s') r = request_view index (buf @ arriving s) (ending s) \<and>
    (is_ok r \<longrightarrow> ending s' = ending s)"
proof (cases "length (buf @ arriving s) < index + 4")
  case True
  then obtain s' where "fill_buffer (index + STATIC_HEADER_SIZE) buf s = (starved (ending s), s')"
    using fill_buffer_short [of buf s "index + STATIC_HEADER_SIZE"] by (auto simp: const_simps)
  with True show ?thesis
    by (cases "ending s") (simp_all add: server_request_def request_view_def)
next
  case False
  then have "index + STATIC_HEADER_SIZE \<le> length (buf @ arriving s)" by (simp add: const_simps)
  then obtain b1 s1 where 1: "fill_buffer (index + STATIC_HEADER_SIZE) buf s = (Ok b1, s1)"
    "b1 @ arriving s1 = buf @ arriving s" "index + 4 \<le> length b1" "ending s1 = ending s"
    by (rule fill_buffer_enough) (simp add: const_simps)
  let ?n = "handshake_size index b1"
  have n: "handshake_size index (buf @ arriving s) = ?n"
    using handshake_size_append [OF 1(3), of "arriving s1"] 1(2) by simp
  let ?size = "unat (from_be_bytes (subslice (index + 2) (index + 4) b1) :: u16)"
  let ?h = "(b1 ! index, unat (b1 ! (index + 1)), ?size)"
  have h: "request_header index b1 = Ok ?h" by (rule request_header_Ok [OF 1(3)])
  have eq: "server_request index buf s = (case fill_buffer ?n b1 s1 of
      (Ok buf2, s2) \<Rightarrow> (check_request index ?h buf2, s2)
    | (r, s2) \<Rightarrow> (and_then r (\<lambda>_. Err UnexpectedEof), s2))"
    by (simp only: server_request_def 1(1) h handshake_size_def Let_def prod.case outcome.case)
  show ?thesis
  proof (cases "length (b1 @ arriving s1) < ?n")
    case True
    then obtain s2 where "fill_buffer ?n b1 s1 = (starved (ending s1), s2)"
      by (rule fill_buffer_short)
    with eq True n 1 show ?thesis
      by (cases "ending s") (simp_all add: request_view_def)
  next
    case enough: False
    then obtain b2 s2 where 2: "fill_buffer ?n b1 s1 = (Ok b2, s2)"
      "b2 @ arriving s2 = b1 @ arriving s1" "?n \<le> length b2" "length b1 \<le> length b2"
      "ending s2 = ending s1"
      using fill_buffer_enough [of ?n b1 s1] enough unfolding not_less by blast
    from 2(2,4) obtain t where t: "b2 = b1 @ t" by (auto simp: append_eq_append_conv2)
    have "handshake_size index b2 = ?n" by (simp only: t handshake_size_append [OF 1(3)])
    then have "parsed_request index (b2 @ arriving s2) = with_rest (arriving s2) (parsed_request index b2)"
      using 2(3,4) 1(3) by (intro parsed_request_append) simp_all
    moreover have "check_request index ?h b2 = parsed_request index b2"
      using check_request_parsed [of index b2 ?h] 2(3) 1(3) h
      by (simp only: t handshake_size_append [OF 1(3)] request_header_append [OF 1(3)] length_append)
    then have "server_request index buf s = (parsed_request index b2, s2)" by (simp add: eq 2(1))
    ultimately show ?thesis
      using enough False n 1 2 by (simp add: request_view_def)
  qed
qed

lemma with_rest_Ok: "with_rest t r = Ok (name, flags, p) \<Longrightarrow> \<exists>q. r = Ok (name, flags, q) \<and> p = q @ t"
  by (cases r) auto

lemma request_view_not_panic: "request_view index S (ending s) \<noteq> Panic"
  by (simp add: request_view_def parsed_request_def Let_def split: option.splits)

lemma with_rest_Panic: "with_rest t r = Panic \<longleftrightarrow> r = Panic"
  by (cases r) auto

section \<open>A client's request\<close>

lemma flags_from_bits_union: "flags_from_bits (FLAG_INGRESS OR FLAG_EGRESS) = Some (FLAG_INGRESS OR FLAG_EGRESS)"
  "flags_from_bits FLAG_INGRESS = Some FLAG_INGRESS" "flags_from_bits FLAG_EGRESS = Some FLAG_EGRESS"
  "flags_from_bits 0 = Some 0"
  by (simp_all add: flags_from_bits_def FLAG_INGRESS_def FLAG_EGRESS_def)

lemma parsed_request_client:
  assumes "client_request secret flags name payload = Ok request" "flags_from_bits flags = Some flags"
    "connection_name (as_bytes name) = Some name" "length payload < 2 ^ 16"
  shows "parsed_request (length secret) (request @ rest) = Ok (name, flags, rest)"
    "handshake_size (length secret) (request @ rest) = length request"
    "length secret + 4 \<le> length request"
proof -
  let ?n = "word_of_nat (length payload) :: u16"
  have len: "length name < 2 ^ 8" and req: "request = secret @ [flags, word_of_nat (length name)] @
      u16_to_be_bytes ?n @ as_bytes name @ payload @ HEADER_SUFFIX"
    using assms(1) by (auto simp: client_request_def split: if_splits)
  have n: "unat ?n = length payload" using assms(4) by (simp add: unat_of_nat take_bit_nat_eq_self)
  have l: "unat (word_of_nat (length name) :: u8) = length name"
    using len by (simp add: unat_of_nat take_bit_nat_eq_self)
  have sz: "subslice (length secret + 2) (length secret + 4) (request @ rest) = u16_to_be_bytes ?n"
    using subslice_append_middle [of "secret @ [flags, word_of_nat (length name)]" "length secret + 2"
        "u16_to_be_bytes ?n" "length secret + 4"] by (simp add: req codec_simps)
  have nm: "subslice (length secret + 4) (length secret + 4 + length name) (request @ rest) = as_bytes name"
    using subslice_append_middle [of "secret @ [flags, word_of_nat (length name)] @ u16_to_be_bytes ?n"
        "length secret + 4" "as_bytes name" "length secret + 4 + length name"]
    by (simp add: req codec_simps)
  have sf: "subslice (length secret + 4 + length name + length payload)
      (length secret + 4 + length name + length payload + length HEADER_SUFFIX) (request @ rest) = HEADER_SUFFIX"
    using subslice_append_middle [of "secret @ [flags, word_of_nat (length name)] @ u16_to_be_bytes ?n @
          as_bytes name @ payload" "length secret + 4 + length name + length payload" HEADER_SUFFIX]
    by (simp add: req codec_simps)
  have hd: "(request @ rest) ! length secret = flags"
    "(request @ rest) ! (length secret + 1) = word_of_nat (length name)"
    by (simp_all add: req nth_append)
  have total: "length request = length secret + 4 + length name + length payload + length HEADER_SUFFIX"
    by (simp add: req codec_simps)
  show "handshake_size (length secret) (request @ rest) = length request"
    by (simp only: handshake_size_def sz hd l n from_to_be_bytes total)
  show "length secret + 4 \<le> length request" by (simp add: total)
  have e: "handshake_size (length secret) (request @ rest) =
      length secret + 4 + length name + length payload + length HEADER_SUFFIX"
    by (simp only: handshake_size_def sz hd l n from_to_be_bytes)
  have rest: "drop (length secret + 4 + length name + length payload + length HEADER_SUFFIX) (request @ rest) = rest"
    by (simp add: total [symmetric])
  show "parsed_request (length secret) (request @ rest) = Ok (name, flags, rest)"
    by (simp only: parsed_request_def Let_def e add_diff_cancel_right' hd l nm sf rest assms(2,3) option.case) simp
qed

lemma client_response_ok:
  assumes "length payload < 2 ^ 16" "arriving c = server_response payload @ down"
  shows "\<exists>c'. client_response c = (Ok (), c') \<and> arriving c' = down \<and> ending c' = ending c"
proof -
  let ?n = "word_of_nat (length payload) :: u16"
  have n: "unat ?n = length payload" using assms(1) by (simp add: unat_of_nat take_bit_nat_eq_self)
  have S: "arriving c = u16_to_be_bytes ?n @ payload @ HEADER_SUFFIX @ down"
    by (simp add: assms(2) server_response_def)
  have "2 \<le> length (arriving c)" by (simp add: S codec_simps)
  from read_exact_enough [OF this] obtain c1 where
    1: "read_exact 2 c = (Ok (u16_to_be_bytes ?n), c1)" "arriving c1 = payload @ HEADER_SUFFIX @ down"
    "ending c1 = ending c" using S by (auto simp: codec_simps)
  have "length payload + length HEADER_SUFFIX \<le> length (arriving c1)" by (simp add: 1(2))
  from read_exact_enough [OF this] obtain c2 where
    2: "read_exact (length payload + length HEADER_SUFFIX) c1 = (Ok (payload @ HEADER_SUFFIX), c2)"
    "arriving c2 = down" "ending c2 = ending c1" using 1(2) by auto
  have "client_response c = (Ok (), c2)"
    by (simp add: client_response_def 1(1) 2(1) n)
  with 1 2 show ?thesis by auto
qed

text \<open>The other direction: what the server accepts is a client's request.\<close>

lemma u16_to_from_be_bytes: "length bs = 2 \<Longrightarrow> u16_to_be_bytes (from_be_bytes bs) = bs"
proof -
  assume "length bs = 2"
  then obtain a b where bs: "bs = [a, b]" by (auto simp: numeral_2_eq_2 length_Suc_conv)
  have w: "(from_be_bytes [a, b] :: u16) = push_bit 8 (ucast a) OR ucast b"
    by (simp add: from_be_bytes_def)
  have "(ucast (push_bit 8 (ucast a :: u16) OR ucast b) :: u8) = b"
    by (rule bit_word_eqI) (auto simp: bit_simps)
  moreover have "(ucast (drop_bit 8 (push_bit 8 (ucast a :: u16) OR ucast b)) :: u8) = a"
    by (rule bit_word_eqI) (auto simp: bit_simps dest: bit_imp_le_length)
  ultimately show ?thesis by (simp add: bs w u16_to_be_bytes_Cons)
qed

lemma drop_subslice: "i \<le> j \<Longrightarrow> drop i S = subslice i j S @ drop j S"
  by (simp add: subslice_def) (metis append_take_drop_id drop_drop le_add_diff_inverse2)

lemma connection_name_bytes: "connection_name raw = Some name \<Longrightarrow> raw = as_bytes name"
  by (auto simp: connection_name_def Let_def split: if_splits)

lemma parsed_request_sound:
  assumes "parsed_request index S = Ok (name, flags, rest)" "index + 4 \<le> length S"
    "handshake_size index S \<le> length S"
  shows "\<exists>payload. S = take index S @ [flags, word_of_nat (length name)] @
      u16_to_be_bytes (word_of_nat (length payload)) @ as_bytes name @ payload @ HEADER_SUFFIX @ rest \<and>
    length name < 256 \<and> length payload < 65536 \<and> flags_from_bits flags = Some flags \<and>
    connection_name (as_bytes name) = Some name"
proof -
  let ?l = "unat (S ! (index + 1))" and ?sz = "subslice (index + 2) (index + 4) S"
  let ?k = "unat (from_be_bytes ?sz :: u16)"
  let ?n = "index + 4" let ?p = "?n + ?l" let ?q = "?p + ?k" let ?e = "?q + length HEADER_SUFFIX"
  from assms(1) have c: "subslice ?q ?e S = HEADER_SUFFIX" "flags_from_bits (S ! index) = Some flags"
    "connection_name (subslice ?n ?p S) = Some name" "rest = drop ?e S"
    by (auto simp: parsed_request_def handshake_size_def Let_def split: if_splits option.splits)
  have e: "?e \<le> length S" using assms(3) by (simp add: handshake_size_def)
  have nm: "subslice ?n ?p S = as_bytes name" using connection_name_bytes [OF c(3)] .
  have "length (subslice ?n ?p S) = ?l" using e by simp
  then have l: "length name = ?l" unfolding nm length_as_bytes .
  have fl: "flags = S ! index" "flags_from_bits flags = Some flags"
    using c(2) by (auto simp: flags_from_bits_def split: if_splits)
  let ?payload = "subslice ?p ?q S"
  have k: "length ?payload = ?k" using e by simp
  have sz: "u16_to_be_bytes (word_of_nat ?k) = ?sz"
    using assms(2) by (simp add: u16_to_from_be_bytes)
  have "drop index S = [S ! index, S ! (index + 1)] @ drop (index + 2) S"
    using assms(2) by (simp add: Cons_nth_drop_Suc)
  also have "drop (index + 2) S = ?sz @ drop ?n S" by (rule drop_subslice) simp
  also have "drop ?n S = as_bytes name @ drop ?p S" using drop_subslice [of ?n ?p S] nm by simp
  also have "drop ?p S = ?payload @ drop ?q S" by (rule drop_subslice) simp
  also have "drop ?q S = HEADER_SUFFIX @ rest" using drop_subslice [of ?q ?e S] c(1,4) by simp
  finally have "drop index S = [flags, word_of_nat (length name)] @
      u16_to_be_bytes (word_of_nat (length ?payload)) @ as_bytes name @ ?payload @ HEADER_SUFFIX @ rest"
    by (simp only: k sz) (simp add: l fl(1))
  then have "S = take index S @ [flags, word_of_nat (length name)] @
      u16_to_be_bytes (word_of_nat (length ?payload)) @ as_bytes name @ ?payload @ HEADER_SUFFIX @ rest"
    by (metis append_take_drop_id)
  moreover have "length name < 256" "length ?payload < 65536"
    using unsigned_less [of "S ! (index + 1)", where ?'a = nat]
      unsigned_less [of "from_be_bytes ?sz :: u16", where ?'a = nat] l k by simp_all
  ultimately show ?thesis using fl(2) c(3) nm by metis
qed

section \<open>Properties\<close>

text \<open>C3: the handshake.  However the two streams are cut into chunks and however many bytes the
  router has read ahead, the server reads from a client's request the client's name and flags, the
  client accepts the server's response, and neither loses or takes a byte of the packets behind.\<close>
theorem hiddenlink_handshake:
  assumes "client_request secret flags name req = Ok request"
    "flags_from_bits flags = Some flags" "connection_name (as_bytes name) = Some name"
    "random_payload 100 2000 req" "random_payload 70 350 resp"
    "buf @ arriving s = request @ up" "arriving c = server_response resp @ down"
  shows "\<exists>preread s' c'. server_handshake (length secret) buf resp None None s =
      (Ok (name, flags, preread, server_response resp), s') \<and>
    preread @ arriving s' = up \<and> ending s' = ending s \<and>
    client_handshake secret flags name req None None c = (Ok (), c') \<and>
    arriving c' = down \<and> ending c' = ending c"
proof -
  have len: "length req < 2 ^ 16" "length resp < 2 ^ 16"
    using assms(4,5) by (auto simp: random_payload_def)
  note chk = parsed_request_client(1,2) [OF assms(1-3) len(1), of up]
    parsed_request_client(3) [OF assms(1-3) len(1)]
  obtain r s' where r: "server_request (length secret) buf s = (r, s')"
    "with_rest (arriving s') r = request_view (length secret) (request @ up) (ending s)"
    "is_ok r \<longrightarrow> ending s' = ending s"
    using server_request_stream [of "length secret" buf s] assms(6) by auto
  have "with_rest (arriving s') r = Ok (name, flags, up)"
    using r(2) chk by (simp add: request_view_def)
  then obtain preread where "r = Ok (name, flags, preread)" "up = preread @ arriving s'"
    using with_rest_Ok by blast
  moreover obtain c' where "client_response c = (Ok (), c')" "arriving c' = down" "ending c' = ending c"
    using client_response_ok [OF len(2) assms(7)] by blast
  ultimately show ?thesis
    using r(1,3) assms(1) by (simp add: server_handshake_def client_handshake_def)
qed

definition demo_request :: bytes where
  "demo_request = [7] @ [3, 4] @ u16_to_be_bytes 100 @ as_bytes ''home'' @ replicate 100 97 @ HEADER_SUFFIX"

lemma demo_client_request: "client_request [7] 3 ''home'' (replicate 100 97) = Ok demo_request"
  by (simp add: client_request_def demo_request_def)

lemma demo_flags: "flags_from_bits 3 = Some 3"
  by (simp add: flags_from_bits_def FLAG_INGRESS_def FLAG_EGRESS_def)

lemma demo_name: "connection_name (as_bytes ''home'') = Some ''home''"
  by (simp add: connection_name_def Let_def str_trim_self is_ascii_alphanumeric_def is_whitespace_def)

lemma random_payload_replicate: "lo \<le> n \<Longrightarrow> n \<le> hi \<Longrightarrow> random_payload lo hi (replicate n 97)"
  by (simp add: random_payload_def char_of_byte_def is_ascii_alphanumeric_def)

lemma hiddenlink_handshake_witness:
  "\<exists>preread s' c'. server_handshake 1 [7, 3] (replicate 70 97) None None
      [Recv (drop 2 demo_request @ [69]), Recv [1]] =
      (Ok (''home'', 3, preread, server_response (replicate 70 97)), s') \<and> preread @ arriving s' = [69, 1] \<and>
    client_handshake [7] 3 ''home'' (replicate 100 97) None None
      [Recv (server_response (replicate 70 97) @ [70])] = (Ok (), c') \<and> arriving c' = [70]"
proof -
  note demo_flags demo_name
  moreover have "[7, 3] @ arriving [Recv (drop 2 demo_request @ [69]), Recv [1]] = demo_request @ [69, 1]"
    by (simp add: demo_request_def)
  moreover have "random_payload 100 2000 (replicate 100 97)" "random_payload 70 350 (replicate 70 97)"
    by (simp_all add: random_payload_replicate)
  ultimately show ?thesis
    using hiddenlink_handshake [OF demo_client_request, of "replicate 70 97" "[7, 3]"
        "[Recv (drop 2 demo_request @ [69]), Recv [1]]" "[69, 1]"
        "[Recv (server_response (replicate 70 97) @ [70])]" "[70]"] by auto
qed

text \<open>C30: what the server accepts.  No index or slice that the server takes of a request is ever out of
  range, whatever arrives and in whatever pieces, so it never panics on a request; if it
  accepts one, the stream holds, behind the secret, exactly the encoding of the flags and the name
  it accepts, of some payload and the closing suffix, and the bytes of the packets behind it are
  all still there; the name is printable, not empty, and at most 255 bytes long.\<close>
theorem hiddenlink_request_sound:
  "fst (server_request index buf s) \<noteq> Panic \<and>
   (\<forall>name flags preread s'. server_request index buf s = (Ok (name, flags, preread), s') \<longrightarrow>
     (\<exists>payload. buf @ arriving s = take index (buf @ arriving s) @ [flags, word_of_nat (length name)] @
        u16_to_be_bytes (word_of_nat (length payload)) @ as_bytes name @ payload @ HEADER_SUFFIX @
        preread @ arriving s' \<and> length name < 256 \<and> length payload < 65536 \<and>
        flags_from_bits flags = Some flags \<and> connection_name (as_bytes name) = Some name))"
proof -
  obtain r s' where r: "server_request index buf s = (r, s')"
    "with_rest (arriving s') r = request_view index (buf @ arriving s) (ending s)"
    using server_request_stream [of index buf s] by blast
  have "r \<noteq> Panic" using request_view_not_panic [of index "buf @ arriving s" s] r(2) by auto
  moreover have "\<exists>payload. buf @ arriving s = take index (buf @ arriving s) @ [flags, word_of_nat (length name)] @
        u16_to_be_bytes (word_of_nat (length payload)) @ as_bytes name @ payload @ HEADER_SUFFIX @
        preread @ arriving s' \<and> length name < 256 \<and> length payload < 65536 \<and>
        flags_from_bits flags = Some flags \<and> connection_name (as_bytes name) = Some name"
    if "r = Ok (name, flags, preread)" for name flags preread
  proof -
    have "request_view index (buf @ arriving s) (ending s) = Ok (name, flags, preread @ arriving s')"
      using r(2) that by simp
    then have "parsed_request index (buf @ arriving s) = Ok (name, flags, preread @ arriving s')"
      "index + 4 \<le> length (buf @ arriving s)" "handshake_size index (buf @ arriving s) \<le> length (buf @ arriving s)"
      by (auto simp: request_view_def split: if_splits)
    from parsed_request_sound [OF this] show ?thesis .
  qed
  ultimately show ?thesis using r(1) by auto
qed

lemma hiddenlink_request_sound_witness:
  "\<exists>preread s' payload. server_request 1 [7, 3] [Recv (drop 2 demo_request @ [69])] =
      (Ok (''home'', 3, preread), s') \<and>
    demo_request @ [69] = [7] @ [3, 4] @ u16_to_be_bytes (word_of_nat (length payload)) @ as_bytes ''home'' @
      payload @ HEADER_SUFFIX @ preread @ arriving s'"
proof -
  let ?s = "[Recv (drop 2 demo_request @ [69])]"
  have b: "[7, 3] @ arriving ?s = demo_request @ [69]" by (simp add: demo_request_def)
  obtain r s' where r: "server_request 1 [7, 3] ?s = (r, s')"
    "with_rest (arriving s') r = request_view 1 (demo_request @ [69]) (ending ?s)"
    using server_request_stream [of 1 "[7, 3]" ?s] unfolding b by blast
  have p: "parsed_request 1 (demo_request @ [69]) = Ok (''home'', 3, [69])"
    "handshake_size 1 (demo_request @ [69]) = length demo_request" "1 + 4 \<le> length demo_request"
    using parsed_request_client(1,2) [OF demo_client_request demo_flags demo_name, of "[69]"]
      parsed_request_client(3) [OF demo_client_request demo_flags demo_name] by simp_all
  have "with_rest (arriving s') r = Ok (''home'', 3, [69])"
    using r(2) p by (simp add: request_view_def)
  then obtain preread where "r = Ok (''home'', 3, preread)" using with_rest_Ok by blast
  moreover from this r(1) hiddenlink_request_sound [of 1 "[7, 3]" ?s] obtain payload where
    "[7, 3] @ arriving ?s = take 1 ([7, 3] @ arriving ?s) @ [3, word_of_nat (length ''home'')] @
      u16_to_be_bytes (word_of_nat (length payload)) @ as_bytes ''home'' @ payload @ HEADER_SUFFIX @
      preread @ arriving s'" by blast
  ultimately show ?thesis using r(1) unfolding b
    by (intro exI [of _ preread] exI [of _ s'] exI [of _ payload]) (simp add: demo_request_def)
qed

end
