(* ===== verification/Net.thy ===== *)
theory Net imports Wire begin

text \<open>
  Socket addresses of the standard library (\<open>std::net::SocketAddr\<close>) and the durations of
  \<open>std::time\<close>, as the transports use them.  An instant is the number of nanoseconds since some
  origin; \<open>duration_since\<close> saturates at zero, as subtraction on \<open>nat\<close> does.
\<close>

section \<open>Addresses\<close>

text \<open>The fields are the address, the port and, for IPv6, the flow information and the scope.\<close>

datatype socket_addr =
    V4 (v4_ip: u32) (v4_port: u16)
  | V6 (v6_ip: "128 word") (v6_port: u16) (v6_flowinfo: u32) (v6_scope: u32)

fun addr_port :: "socket_addr \<Rightarrow> u16" where
  "addr_port (V4 ip port) = port"
| "addr_port (V6 ip port flow scope) = port"

section \<open>Time\<close>

type_synonym instant = nat
type_synonym duration = nat

definition from_secs :: "nat \<Rightarrow> duration" where
  "from_secs n = n * 10 ^ 9"

definition duration_since :: "instant \<Rightarrow> instant \<Rightarrow> duration" where
  "duration_since now earlier = now - earlier"

lemma from_secs_less [simp]: "from_secs m < from_secs n \<longleftrightarrow> m < n"
  by (simp add: from_secs_def)

lemma from_secs_le [simp]: "from_secs m \<le> from_secs n \<longleftrightarrow> m \<le> n"
  by (simp add: from_secs_def)

lemma from_secs_pos [simp]: "0 < from_secs n \<longleftrightarrow> 0 < n"
  by (simp add: from_secs_def)

end
