(* ===== verification/Router.thy ===== *)
theory Router imports Hiddenlink Net "HOL-Library.Sublist" begin

text \<open>
  \<open>src/src/transport/http/server/router.rs\<close>: the first bytes of a connection decide whether it is
  a tunnel (hiddenlink or Trojan) or an ordinary HTTP connection; and the configuration the rules
  come from, with \<open>src/src/protocols/trojan.rs\<close> and \<open>src/src/protocols/http.rs\<close>.

  The hex encoded SHA-224 hash (crates \<open>sha2\<close> and \<open>hex\<close>) is the argument \<open>sha224_hex\<close>; that it
  gives 56 hexadecimal digits is the hypothesis \<open>hex_digest\<close>.
\<close>

section \<open>Configuration\<close>

record trojan_config =
  trojan_address :: socket_addr
  trojan_passwords :: "string list"

record http_upstream_config =
  http_address :: socket_addr
  http_proxy_protocol :: bool

record upstreams_config =
  http_upstream :: http_upstream_config
  trojan_upstream :: "trojan_config option"
  hiddenlink_secret :: string

definition ALPN_HTTP1 :: bytes where "ALPN_HTTP1 = as_bytes ''http/1.1''"
definition ALPN_HTTP2 :: bytes where "ALPN_HTTP2 = as_bytes ''h2''"
definition CONNECTION_TIMEOUT :: duration where "CONNECTION_TIMEOUT = from_secs 60"

definition get_header :: "(string \<Rightarrow> string) \<Rightarrow> string \<Rightarrow> string" where
  "get_header sha224_hex password = sha224_hex password"

datatype tunnel_protocol = ProtoHiddenlink | ProtoTrojan

record protocol_spec =
  spec_protocol :: tunnel_protocol
  spec_header :: bytes
  extra_capacity :: "nat option"

definition trojan_spec :: "(string \<Rightarrow> string) \<Rightarrow> string \<Rightarrow> protocol_spec" where
  "trojan_spec sha224_hex password =
     \<lparr>spec_protocol = ProtoTrojan, spec_header = as_bytes (get_header sha224_hex password),
      extra_capacity = None\<rparr>"

definition hiddenlink_spec :: "(string \<Rightarrow> string) \<Rightarrow> string \<Rightarrow> protocol_spec" where
  "hiddenlink_spec urlencode secret =
     \<lparr>spec_protocol = ProtoHiddenlink, spec_header = encode_secret_for_http1 urlencode secret,
      extra_capacity = Some STATIC_HEADER_SIZE\<rparr>"

definition as_routing_rules ::
  "(string \<Rightarrow> string) \<Rightarrow> (string \<Rightarrow> string) \<Rightarrow> upstreams_config \<Rightarrow> protocol_spec list" where
  "as_routing_rules urlencode sha224_hex cfg =
     hiddenlink_spec urlencode (hiddenlink_secret cfg) #
     (case trojan_upstream cfg of
        Some trojan \<Rightarrow> map (trojan_spec sha224_hex) (trojan_passwords trojan)
      | None \<Rightarrow> [])"

section \<open>Routing\<close>

text \<open>The capacity of the buffer, which only bounds how much one read takes.\<close>

definition router_buf_size :: "protocol_spec list \<Rightarrow> nat" where
  "router_buf_size specs =
     foldr max (map (\<lambda>spec. length (spec_header spec) +
       (case extra_capacity spec of Some n \<Rightarrow> n | None \<Rightarrow> 0)) specs) 0"

datatype scan = Matched tunnel_protocol nat | Undecided | Foreign

fun scan_specs :: "bytes \<Rightarrow> bool \<Rightarrow> protocol_spec list \<Rightarrow> scan" where
  "scan_specs buf partial_match [] = (if partial_match then Undecided else Foreign)"
| "scan_specs buf partial_match (spec # specs) =
     (let header_size = length (spec_header spec);
          sz = min (length buf) header_size
      in if take sz buf = take sz (spec_header spec)
         then if sz = header_size then Matched (spec_protocol spec) header_size
              else scan_specs buf True specs
         else scan_specs buf partial_match specs)"

lemma socket_read_buf_shorter:
  "socket_read_buf s = (Ok bs, s') \<Longrightarrow> bs \<noteq> [] \<Longrightarrow> length s' < length s"
  by (induction s rule: socket_read_buf.induct) (auto split: if_splits)

function route ::
  "protocol_spec list \<Rightarrow> bytes \<Rightarrow> socket
    \<Rightarrow> (string, (tunnel_protocol \<times> nat) option \<times> bytes) outcome \<times> socket" where
  "route specs buf s =
     (case socket_read_buf s of
        (Ok bs, s') \<Rightarrow>
          (if bs = [] then (Ok (None, buf), s')
           else case scan_specs (buf @ bs) False specs of
               Matched p n \<Rightarrow> (Ok (Some (p, n), buf @ bs), s')
             | Foreign \<Rightarrow> (Ok (None, buf @ bs), s')
             | Undecided \<Rightarrow> route specs (buf @ bs) s')
      | (Err e, s') \<Rightarrow> (Err e, s')
      | (Panic, s') \<Rightarrow> (Panic, s')
      | (Pending, s') \<Rightarrow> (Pending, s'))"
  by pat_completeness auto
termination
  by (relation "measure (\<lambda>(specs, buf, s). length s)") (auto dest: socket_read_buf_shorter [OF sym])

declare route.simps [simp del]

section \<open>The scan\<close>

lemma take_min_eq_iff_prefix:
  "take (min (length b) (length h)) b = take (min (length b) (length h)) h \<longleftrightarrow> prefix h b \<or> prefix b h"
proof (cases "length h \<le> length b")
  case True
  then have "min (length b) (length h) = length h" by simp
  moreover have "prefix b h \<Longrightarrow> prefix h b"
    using True by (metis prefix_length_le prefix_order.eq_iff le_antisym prefix_def append_Nil2 append_eq_append_conv)
  ultimately show ?thesis by (auto simp: prefix_def append_eq_conv_conj take_all_iff) (metis append_take_drop_id)
next
  case False
  then have "min (length b) (length h) = length b" "\<not> prefix h b"
    by (auto dest: prefix_length_le)
  then show ?thesis by (auto simp: prefix_def) (metis append_take_drop_id)
qed

lemma prefix_min_length:
  assumes "prefix h b \<or> prefix b h"
  shows "min (length b) (length h) = length h \<longleftrightarrow> prefix h b"
proof
  assume "min (length b) (length h) = length h"
  then have "length h \<le> length b" by linarith
  with assms show "prefix h b" by (metis prefix_length_prefix prefix_order.refl)
qed (simp add: prefix_length_le)

lemma scan_specs_Cons:
  "scan_specs buf pm (spec # specs) =
     (if prefix (spec_header spec) buf then Matched (spec_protocol spec) (length (spec_header spec))
      else if prefix buf (spec_header spec) then scan_specs buf True specs
      else scan_specs buf pm specs)"
  using prefix_min_length [of "spec_header spec" buf]
  by (auto simp: Let_def take_min_eq_iff_prefix)

declare scan_specs.simps(2) [simp del]

lemma scan_Matched:
  "scan_specs buf pm specs = Matched p n \<Longrightarrow>
     \<exists>spec \<in> set specs. spec_protocol spec = p \<and> length (spec_header spec) = n \<and> prefix (spec_header spec) buf"
  by (induction specs arbitrary: pm) (auto simp: scan_specs_Cons split: if_splits)

lemma scan_not_Matched:
  "scan_specs buf pm specs = Undecided \<or> scan_specs buf pm specs = Foreign \<Longrightarrow> spec \<in> set specs \<Longrightarrow>
     \<not> prefix (spec_header spec) buf"
  by (induction specs arbitrary: pm) (auto simp: scan_specs_Cons split: if_splits)

lemma scan_True_not_Foreign: "scan_specs buf True specs \<noteq> Foreign"
  by (induction specs) (auto simp: scan_specs_Cons)

lemma scan_Foreign:
  "scan_specs buf pm specs = Foreign \<Longrightarrow> spec \<in> set specs \<Longrightarrow> \<not> prefix buf (spec_header spec)"
  by (induction specs arbitrary: pm) (auto simp: scan_specs_Cons scan_True_not_Foreign split: if_splits)

lemma prefix_append_cases: "prefix h (b @ t) \<Longrightarrow> prefix h b \<or> prefix b h"
  by (meson prefix_same_cases prefixI)

section \<open>The decision as a function of the stream\<close>

text \<open>\<open>routed specs S r buf' rest fin\<close>: \<open>r\<close> is a correct answer about the stream \<open>S\<close>.\<close>

definition claimed :: "protocol_spec list \<Rightarrow> bytes \<Rightarrow> bool" where
  "claimed specs S \<longleftrightarrow> (\<exists>spec \<in> set specs. prefix (spec_header spec) S)"

lemma socket_read_buf_ok:
  assumes "socket_read_buf s = (Ok bs, s')" "bs \<noteq> []"
  shows "arriving s = bs @ arriving s' \<and> ending s' = ending s"
proof -
  have "arriving s \<noteq> []"
    using assms socket_read_buf_none [of s] ending_empty [of s] by fastforce
  with socket_read_buf_some [OF this] assms show ?thesis by auto
qed

lemma socket_read_buf_end:
  assumes "socket_read_buf s = (r, s')" "\<forall>bs. r = Ok bs \<longrightarrow> bs = []"
  shows "arriving s = [] \<and> r = ending s \<and> arriving s' = [] \<and> (r = Ok [] \<longrightarrow> ending s' = ending s)"
proof -
  have "arriving s = []"
    using assms socket_read_buf_some [of s] by fastforce
  moreover have "r = Ok [] \<longrightarrow> ending s' = ending s"
    using assms(1) by (induction s rule: socket_read_buf.induct) (auto split: if_splits)
  ultimately show ?thesis using socket_read_buf_none [of s] assms(1) by auto
qed

lemma route_Matched:
  "route specs buf s = (Ok (Some (p, n), buf'), s') \<Longrightarrow>
     buf' @ arriving s' = buf @ arriving s \<and> ending s' = ending s \<and>
     (\<exists>spec \<in> set specs. spec_protocol spec = p \<and> length (spec_header spec) = n \<and>
        prefix (spec_header spec) buf')"
proof (induction specs buf s rule: route.induct)
  case (1 specs buf s)
  from "1.prems" obtain bs s1 where r: "socket_read_buf s = (Ok bs, s1)" "bs \<noteq> []"
    by (auto simp: route.simps [of specs buf s] split: prod.splits outcome.splits if_splits)
  note ok = socket_read_buf_ok [OF r]
  show ?case
  proof (cases "scan_specs (buf @ bs) False specs")
    case (Matched q m)
    with "1.prems" r ok scan_Matched [OF Matched] show ?thesis
      by (auto simp: route.simps [of specs buf s])
  next
    case Undecided
    with "1.prems" r have "route specs (buf @ bs) s1 = (Ok (Some (p, n), buf'), s')"
      by (simp add: route.simps [of specs buf s])
    from "1.IH" [OF r(1) [symmetric] refl r(2) Undecided this] ok show ?thesis by simp
  next
    case Foreign
    with "1.prems" r show ?thesis by (simp add: route.simps [of specs buf s])
  qed
qed

lemma route_at_end:
  assumes "socket_read_buf s = (r0, s1)" "\<forall>bs. r0 = Ok bs \<longrightarrow> bs = []"
  shows "route specs buf s = (and_then r0 (\<lambda>bs. Ok (None, buf)), s1)"
  using assms by (cases r0) (simp_all add: route.simps [of specs buf s])

lemma route_unclaimed:
  "route specs buf s = (r, s') \<Longrightarrow> \<not> claimed specs buf \<Longrightarrow> (\<forall>x b. r \<noteq> Ok (Some x, b)) \<Longrightarrow>
     \<not> claimed specs (buf @ arriving s) \<and>
     ((\<exists>buf'. r = Ok (None, buf') \<and> buf' @ arriving s' = buf @ arriving s \<and> ending s' = ending s) \<or>
      (\<exists>e. r = Err e \<and> ending s = Err e) \<or> r = Pending \<and> ending s = Pending)"
proof (induction specs buf s arbitrary: r s' rule: route.induct)
  case (1 specs buf s)
  show ?case
  proof (cases "\<exists>bs s1. socket_read_buf s = (Ok bs, s1) \<and> bs \<noteq> []")
    case True
    then obtain bs s1 where r: "socket_read_buf s = (Ok bs, s1)" "bs \<noteq> []" by blast
    note ok = socket_read_buf_ok [OF r]
    show ?thesis
    proof (cases "scan_specs (buf @ bs) False specs")
      case (Matched q m)
      with "1.prems" r show ?thesis by (auto simp: route.simps [of specs buf s])
    next
      case Undecided
      then have "\<not> claimed specs (buf @ bs)"
        using scan_not_Matched unfolding claimed_def by blast
      moreover from Undecided "1.prems" r have "route specs (buf @ bs) s1 = (r, s')"
        by (simp add: route.simps [of specs buf s])
      ultimately show ?thesis
        using "1.IH" [OF r(1) [symmetric] refl r(2) Undecided _ _ "1.prems"(3)] ok by simp
    next
      case Foreign
      then have "\<not> claimed specs ((buf @ bs) @ arriving s1)"
        using scan_not_Matched [of "buf @ bs"] scan_Foreign [of "buf @ bs"] prefix_append_cases
        unfolding claimed_def by metis
      with Foreign "1.prems" r ok show ?thesis by (auto simp: route.simps [of specs buf s])
    qed
  next
    case False
    obtain r0 s1 where r: "socket_read_buf s = (r0, s1)" by fastforce
    with False have none: "\<forall>bs. r0 = Ok bs \<longrightarrow> bs = []" by auto
    note e = socket_read_buf_end [OF r none]
    from route_at_end [OF r none, of specs buf] "1.prems"(1)
    have "r = and_then r0 (\<lambda>bs. Ok (None, buf))" "s' = s1" by simp_all
    with e "1.prems"(2) none show ?thesis
      using ending_not_panic [of s] by (cases "ending s") auto
  qed
qed

section \<open>The rules of a configuration\<close>

definition hex_digit :: "char \<Rightarrow> bool" where
  "hex_digit c \<longleftrightarrow> (let n = of_char c :: nat in 48 \<le> n \<and> n \<le> 57 \<or> 97 \<le> n \<and> n \<le> 102)"

definition hex_digest :: "(string \<Rightarrow> string) \<Rightarrow> bool" where
  "hex_digest sha224_hex \<longleftrightarrow> (\<forall>pw. length (sha224_hex pw) = 56 \<and> list_all hex_digit (sha224_hex pw))"

text \<open>What the stream of a connection claims to be.\<close>

definition trojan_headers :: "(string \<Rightarrow> string) \<Rightarrow> upstreams_config \<Rightarrow> bytes list" where
  "trojan_headers sha224_hex cfg =
     (case trojan_upstream cfg of
        Some trojan \<Rightarrow> map (\<lambda>pw. as_bytes (sha224_hex pw)) (trojan_passwords trojan)
      | None \<Rightarrow> [])"

definition stream_protocol ::
  "(string \<Rightarrow> string) \<Rightarrow> (string \<Rightarrow> string) \<Rightarrow> upstreams_config \<Rightarrow> bytes \<Rightarrow> (tunnel_protocol \<times> nat) option" where
  "stream_protocol urlencode sha224_hex cfg S =
     (let secret = encode_secret_for_http1 urlencode (hiddenlink_secret cfg) in
      if prefix secret S then Some (ProtoHiddenlink, length secret)
      else if \<exists>h \<in> set (trojan_headers sha224_hex cfg). prefix h S then Some (ProtoTrojan, 56)
      else None)"

lemma rules_set:
  "set (as_routing_rules urlencode sha224_hex cfg) =
     insert (hiddenlink_spec urlencode (hiddenlink_secret cfg))
       {\<lparr>spec_protocol = ProtoTrojan, spec_header = h, extra_capacity = None\<rparr> | h.
          h \<in> set (trojan_headers sha224_hex cfg)}"
  by (auto simp: as_routing_rules_def trojan_headers_def trojan_spec_def get_header_def split: option.splits)

lemma trojan_header_digits:
  assumes "hex_digest sha224_hex" "h \<in> set (trojan_headers sha224_hex cfg)"
  shows "length h = 56" "\<exists>c t. hex_digit c \<and> h = byte_of_char c # t"
proof -
  obtain pw where h: "h = as_bytes (sha224_hex pw)"
    using assms(2) by (auto simp: trojan_headers_def split: option.splits)
  have d: "length (sha224_hex pw) = 56" "list_all hex_digit (sha224_hex pw)"
    using assms(1) by (simp_all add: hex_digest_def)
  show "length h = 56" by (simp add: h d(1))
  obtain c t where "sha224_hex pw = c # t" using d(1) by (cases "sha224_hex pw") auto
  with d(2) show "\<exists>c t. hex_digit c \<and> h = byte_of_char c # t"
    by (intro exI [of _ c] exI [of _ "as_bytes t"]) (simp add: h as_bytes_def)
qed

lemma secret_head: "\<exists>t. encode_secret_for_http1 urlencode secret = byte_of_char CHR ''P'' # t"
  by (simp add: encode_secret_for_http1_def as_bytes_def)

text \<open>No stream begins with the secret and with a password's digest.\<close>

lemma headers_apart:
  assumes "hex_digest sha224_hex" "h \<in> set (trojan_headers sha224_hex cfg)"
    "prefix (encode_secret_for_http1 urlencode secret) S"
  shows "\<not> prefix h S"
proof -
  obtain c t where h: "hex_digit c" "h = byte_of_char c # t"
    using trojan_header_digits(2) [OF assms(1,2)] by blast
  obtain u where "encode_secret_for_http1 urlencode secret = byte_of_char CHR ''P'' # u"
    using secret_head by blast
  with assms(3) obtain v where S: "S = byte_of_char CHR ''P'' # v"
    by (auto simp: prefix_def)
  have "c \<noteq> CHR ''P''" using h(1) by (auto simp: hex_digit_def)
  then show ?thesis using S h(2) by (simp add: prefix_def)
qed

lemma claimed_rules:
  "claimed (as_routing_rules urlencode sha224_hex cfg) S \<longleftrightarrow>
     stream_protocol urlencode sha224_hex cfg S \<noteq> None"
  by (auto simp: claimed_def rules_set stream_protocol_def hiddenlink_spec_def Let_def)

lemma stream_protocol_Nil:
  assumes "hex_digest sha224_hex"
  shows "stream_protocol urlencode sha224_hex cfg [] = None"
proof -
  have "\<not> prefix h []" if "h \<in> set (trojan_headers sha224_hex cfg)" for h
    using trojan_header_digits(1) [OF assms that] by auto
  moreover have "encode_secret_for_http1 urlencode secret \<noteq> []" for secret
    using secret_head [of urlencode secret] by auto
  ultimately show ?thesis by (auto simp: stream_protocol_def Let_def)
qed

lemma route_rules:
  assumes "hex_digest sha224_hex"
    "route (as_routing_rules urlencode sha224_hex cfg) [] s = (r, s')"
  shows "(\<exists>decision buf. r = Ok (decision, buf) \<and>
      decision = stream_protocol urlencode sha224_hex cfg (arriving s) \<and>
      buf @ arriving s' = arriving s \<and> ending s' = ending s \<and>
      (\<forall>p n. decision = Some (p, n) \<longrightarrow> n \<le> length buf)) \<or>
    (stream_protocol urlencode sha224_hex cfg (arriving s) = None \<and>
      ((\<exists>e. r = Err e \<and> ending s = Err e) \<or> r = Pending \<and> ending s = Pending))"
proof (cases "\<exists>p n buf. r = Ok (Some (p, n), buf)")
  case True
  then obtain p n buf where r: "r = Ok (Some (p, n), buf)" by blast
  from route_Matched [OF assms(2) [unfolded r]] obtain spec where
    m: "buf @ arriving s' = arriving s" "ending s' = ending s"
    "spec \<in> set (as_routing_rules urlencode sha224_hex cfg)" "spec_protocol spec = p"
    "length (spec_header spec) = n" "prefix (spec_header spec) buf" by auto
  have pre: "prefix (spec_header spec) (arriving s)" using m(1,6) by (metis prefix_prefix)
  have "stream_protocol urlencode sha224_hex cfg (arriving s) = Some (p, n)"
  proof (cases "spec = hiddenlink_spec urlencode (hiddenlink_secret cfg)")
    case True
    with pre m(4,5) show ?thesis by (auto simp: hiddenlink_spec_def stream_protocol_def Let_def)
  next
    case False
    then have h: "spec_protocol spec = ProtoTrojan" "spec_header spec \<in> set (trojan_headers sha224_hex cfg)"
      using m(3) by (auto simp: rules_set)
    with pre headers_apart [OF assms(1) h(2)] trojan_header_digits(1) [OF assms(1) h(2)] m(4,5)
    show ?thesis by (auto simp: stream_protocol_def Let_def)
  qed
  moreover have "n \<le> length buf" using m(5,6) prefix_length_le by blast
  ultimately show ?thesis using r m(1,2) by auto
next
  case False
  then have "\<forall>x b. r \<noteq> Ok (Some x, b)" by auto
  moreover have "\<not> claimed (as_routing_rules urlencode sha224_hex cfg) []"
    by (simp add: claimed_rules stream_protocol_Nil assms(1))
  ultimately have u: "\<not> claimed (as_routing_rules urlencode sha224_hex cfg) (arriving s)"
    "(\<exists>buf. r = Ok (None, buf) \<and> buf @ arriving s' = arriving s \<and> ending s' = ending s) \<or>
      (\<exists>e. r = Err e \<and> ending s = Err e) \<or> r = Pending \<and> ending s = Pending"
    using route_unclaimed [OF assms(2)] by simp_all
  from u(1) have "stream_protocol urlencode sha224_hex cfg (arriving s) = None"
    unfolding claimed_rules by blast
  with u(2) show ?thesis by auto
qed

section \<open>Properties\<close>

text \<open>C21: routing.  However the first bytes are cut into chunks, the decision is that of the whole
  stream: hiddenlink if and only if the stream begins with the encoded secret, Trojan if and only
  if it begins with the digest of a configured password, and otherwise neither; with a decision
  no byte of the stream is lost, and without one the connection has failed or gone quiet before
  it had sent a whole header.\<close>
theorem router_decides:
  assumes "hex_digest sha224_hex"
    "route (as_routing_rules urlencode sha224_hex cfg) [] s = (r, s')"
  shows "(\<exists>decision buf. r = Ok (decision, buf) \<and>
      decision = stream_protocol urlencode sha224_hex cfg (arriving s) \<and>
      buf @ arriving s' = arriving s \<and> ending s' = ending s \<and>
      (\<forall>p n. decision = Some (p, n) \<longrightarrow> n \<le> length buf)) \<or>
    (stream_protocol urlencode sha224_hex cfg (arriving s) = None \<and>
      ((\<exists>e. r = Err e \<and> ending s = Err e) \<or> r = Pending \<and> ending s = Pending))"
  using assms by (rule route_rules)

definition demo_config :: upstreams_config where
  "demo_config = \<lparr>http_upstream = \<lparr>http_address = V4 1 80, http_proxy_protocol = True\<rparr>,
     trojan_upstream = Some \<lparr>trojan_address = V4 2 81, trojan_passwords = [''pw'']\<rparr>,
     hiddenlink_secret = ''0123456789''\<rparr>"

lemma demo_hex_digest: "hex_digest (\<lambda>_. replicate 56 CHR ''a'')"
  by (simp add: hex_digest_def hex_digit_def list_all_iff)

lemma router_decides_witness:
  "\<exists>buf s'. route (as_routing_rules id (\<lambda>_. replicate 56 CHR ''a'') demo_config) []
      [Recv (replicate 50 97), Recv (replicate 10 97), Recv [1]] = (Ok (Some (ProtoTrojan, 56), buf), s') \<and>
    buf @ arriving s' = replicate 60 97 @ [1]"
proof -
  let ?s = "[Recv (replicate 50 97), Recv (replicate 10 97), Recv [1]]"
  obtain r s' where r: "route (as_routing_rules id (\<lambda>_. replicate 56 CHR ''a'') demo_config) [] ?s = (r, s')"
    by fastforce
  have S: "arriving ?s = replicate 56 97 @ replicate 4 97 @ [1]"
    by (simp add: replicate_add [symmetric] flip: append_assoc)
  have "as_bytes (replicate 56 CHR ''a'') = replicate 56 97"
    by (simp add: as_bytes_def byte_of_char_def)
  moreover have "\<not> prefix (encode_secret_for_http1 id ''0123456789'') (arriving ?s)"
    unfolding S by (simp add: encode_secret_for_http1_def as_bytes_def byte_of_char_def numeral_eq_Suc)
  ultimately have "stream_protocol id (\<lambda>_. replicate 56 CHR ''a'') demo_config (arriving ?s) = Some (ProtoTrojan, 56)"
    unfolding S by (simp add: stream_protocol_def trojan_headers_def demo_config_def Let_def)
  with router_decides [OF demo_hex_digest r] r S show ?thesis
    by (auto simp flip: replicate_add append_assoc)
qed

end
