(* ===== verification/Tls.thy ===== *)
theory Tls imports Prelude "HOL-Library.Sublist" begin

text \<open>
  \<open>src/src/transport/http/tls.rs\<close>: which certificate and which name a connection gets, by the
  domain its client has asked for, and what a certificate file must hold.

  Parsing (crates \<open>rustls-pemfile\<close>, \<open>x509-parser\<close>) is outside: \<open>certificate\<close> holds what
  \<open>load_cert\<close> reads off a parsed certificate, and \<open>'cfg\<close> is a \<open>rustls\<close> server configuration.
  What the files and the system's certificate store hold, and whether \<open>rustls\<close> takes a certificate
  with a key, are arguments.
\<close>

section \<open>Domains\<close>

record 'cfg tls_domain =
  domains :: "string list"
  tls_config :: 'cfg

record 'cfg tls_domains =
  default_domain :: "'cfg tls_domain"
  additional_domains :: "'cfg tls_domain list"

text \<open>The \<open>get\<close> of the byte before the suffix: the position is not zero, since the strings
  differ.\<close>

definition match_domains :: "string \<Rightarrow> string \<Rightarrow> bool" where
  "match_domains base domain \<longleftrightarrow>
     domain = base \<or>
     suffix base domain \<and>
       (let pos = length domain - length base in subslice (pos - 1) pos domain = ''.'')"

definition domain_depth :: "string \<Rightarrow> nat" where
  "domain_depth base = length (filter (\<lambda>c. c = CHR ''.'') base)"

text \<open>The loops of \<open>select\<close>: over the domains and over the names of each; the best match so far is
  replaced only by a deeper one.\<close>

type_synonym 'cfg best_match = "('cfg tls_domain \<times> nat) option"

fun better_match :: "'cfg tls_domain \<Rightarrow> nat \<Rightarrow> 'cfg best_match \<Rightarrow> 'cfg best_match" where
  "better_match d depth (Some (best, best_depth)) =
     (if depth \<le> best_depth then Some (best, best_depth) else Some (d, depth))"
| "better_match d depth None = Some (d, depth)"

fun select_base :: "string \<Rightarrow> 'cfg tls_domain \<Rightarrow> string list \<Rightarrow> 'cfg best_match \<Rightarrow> 'cfg best_match" where
  "select_base requested d [] best = best"
| "select_base requested d (base # bases) best =
     select_base requested d bases
       (if match_domains base requested then better_match d (domain_depth base) best else best)"

fun select_additional :: "string \<Rightarrow> 'cfg tls_domain list \<Rightarrow> 'cfg best_match \<Rightarrow> 'cfg best_match" where
  "select_additional requested [] best = best"
| "select_additional requested (d # ds) best =
     select_additional requested ds (select_base requested d (domains d) best)"

definition select_domain :: "string option \<Rightarrow> 'cfg tls_domains \<Rightarrow> 'cfg tls_domain" where
  "select_domain requested ds =
     (let best_match = (case requested of
            Some r \<Rightarrow> select_additional r (additional_domains ds) None | None \<Rightarrow> None)
      in case best_match of Some (d, depth) \<Rightarrow> d | None \<Rightarrow> default_domain ds)"

text \<open>\<open>primary_domain\<close> panics on a domain with no names.\<close>

definition primary_domain :: "'cfg tls_domain \<Rightarrow> (unit, string) outcome" where
  "primary_domain d = (case domains d of [] \<Rightarrow> Panic | n # _ \<Rightarrow> Ok n)"

definition get_config :: "string option \<Rightarrow> 'cfg tls_domain \<Rightarrow> (unit, string \<times> 'cfg) outcome" where
  "get_config requested d =
     (case Option.bind requested (\<lambda>r. find (\<lambda>n. n = r) (domains d)) of
        Some n \<Rightarrow> Ok (n, tls_config d)
      | None \<Rightarrow> and_then (primary_domain d) (\<lambda>n. Ok (n, tls_config d)))"

section \<open>Loading\<close>

text \<open>A subject's common names, each \<open>None\<close> if it is not a string; the alternative names, \<open>None\<close>
  for one of another kind than a DNS name.\<close>

record certificate =
  common_names :: "string option list"
  is_ca :: bool
  alternative_names :: "string option list"

datatype cert_error =
    NoCommonName
  | InvalidCommonName
  | MultipleCommonNames
  | UnsupportedAlternativeName
  | NoAlternativeName
  | CommonNameMismatch
  | MultipleCertificates
  | NoCertificate

text \<open>No empty label: neither a dot at an end nor two in a row.\<close>

definition plain_dns_name :: "string \<Rightarrow> bool" where
  "plain_dns_name name \<longleftrightarrow>
     \<not> prefix ''.'' name \<and> \<not> suffix ''.'' name \<and> \<not> sublist ''..'' name"

definition certificate_common_name :: "certificate \<Rightarrow> (cert_error, string) outcome" where
  "certificate_common_name cert =
     (case common_names cert of
        [] \<Rightarrow> Err NoCommonName
      | None # _ \<Rightarrow> Err InvalidCommonName
      | Some name # others \<Rightarrow>
          if name = [] then Err InvalidCommonName
          else if others \<noteq> [] then Err MultipleCommonNames else Ok name)"

fun collect_names :: "string option list \<Rightarrow> (cert_error, string list) outcome" where
  "collect_names [] = Ok []"
| "collect_names (Some name # rest) =
     (if plain_dns_name name then and_then (collect_names rest) (\<lambda>names. Ok (name # names))
      else Err UnsupportedAlternativeName)"
| "collect_names (None # rest) = Err UnsupportedAlternativeName"

text \<open>The common name is moved to the front.\<close>

definition certificate_names :: "string \<Rightarrow> string list \<Rightarrow> (cert_error, string list) outcome" where
  "certificate_names common_name names =
     (if names = [] then Err NoAlternativeName
      else if common_name \<in> set names then Ok (common_name # remove1 common_name names)
      else Err CommonNameMismatch)"

fun load_certs_from ::
  "certificate list \<Rightarrow> string list option \<Rightarrow> (cert_error, string list option) outcome" where
  "load_certs_from [] names = Ok names"
| "load_certs_from (cert # rest) names =
     and_then (certificate_common_name cert) (\<lambda>common_name.
       if is_ca cert then load_certs_from rest names
       else and_then (collect_names (alternative_names cert)) (\<lambda>alt_names.
         and_then (certificate_names common_name alt_names) (\<lambda>ns.
           if names \<noteq> None then Err MultipleCertificates else load_certs_from rest (Some ns))))"

definition load_cert :: "certificate list \<Rightarrow> (cert_error, string list) outcome" where
  "load_cert certs =
     and_then (load_certs_from certs None) (\<lambda>names.
       case names of Some ns \<Rightarrow> Ok ns | None \<Rightarrow> Err NoCertificate)"

text \<open>The private keys of a file: exactly one.\<close>

datatype key_error = MultipleKeys | NoKey

definition load_key :: "'key list \<Rightarrow> (key_error, 'key) outcome" where
  "load_key keys = (case keys of [] \<Rightarrow> Err NoKey | [k] \<Rightarrow> Ok k | _ \<Rightarrow> Err MultipleKeys)"

datatype tls_error =
    UnreadableCertificate string
  | InvalidCertificate cert_error
  | UnreadableKey string
  | InvalidKey key_error
  | RejectedKey string

text \<open>\<open>single_cert\<close> builds the server's configuration of a certificate chain and its key.\<close>

definition load_certs ::
  "(string \<Rightarrow> string + certificate list) \<Rightarrow> (string \<Rightarrow> string + 'key list)
    \<Rightarrow> (certificate list \<Rightarrow> 'key \<Rightarrow> string + 'cfg) \<Rightarrow> string \<Rightarrow> string \<Rightarrow> (tls_error, string list \<times> 'cfg) outcome" where
  "load_certs read_certs read_keys single_cert cert_path key_path =
     (case read_certs cert_path of
        Inl e \<Rightarrow> Err (UnreadableCertificate e)
      | Inr certs \<Rightarrow>
          and_then (map_err InvalidCertificate (load_cert certs)) (\<lambda>names.
            case read_keys key_path of
              Inl e \<Rightarrow> Err (UnreadableKey e)
            | Inr keys \<Rightarrow>
                and_then (map_err InvalidKey (load_key keys)) (\<lambda>key.
                  case single_cert certs key of
                    Inl e \<Rightarrow> Err (RejectedKey e)
                  | Inr config \<Rightarrow> Ok (names, config))))"

definition new_tls_domain ::
  "(string \<Rightarrow> string \<Rightarrow> (tls_error, string list \<times> 'cfg) outcome) \<Rightarrow> string \<times> string
    \<Rightarrow> (tls_error, 'cfg tls_domain) outcome" where
  "new_tls_domain load paths =
     and_then (load (fst paths) (snd paths)) (\<lambda>(names, config). Ok \<lparr>domains = names, tls_config = config\<rparr>)"

fun all_ok :: "('e, 'a) outcome list \<Rightarrow> ('e, 'a list) outcome" where
  "all_ok [] = Ok []"
| "all_ok (r # rs) = and_then r (\<lambda>a. and_then (all_ok rs) (\<lambda>as. Ok (a # as)))"

text \<open>\<open>TlsDomains::new\<close>; a domain's configuration is the paths of its certificate and key.\<close>

definition new_tls_domains ::
  "(string \<Rightarrow> string \<Rightarrow> (tls_error, string list \<times> 'cfg) outcome) \<Rightarrow> string \<times> string \<Rightarrow> (string \<times> string) list
    \<Rightarrow> (tls_error, 'cfg tls_domains) outcome" where
  "new_tls_domains load default_paths additional_paths =
     and_then (new_tls_domain load default_paths) (\<lambda>d.
     and_then (all_ok (map (new_tls_domain load) additional_paths)) (\<lambda>ds.
       Ok \<lparr>default_domain = d, additional_domains = ds\<rparr>))"

text \<open>The root certificates: errors of the store are only logged, a certificate it gives that the
  root store does not accept is an error.\<close>

definition load_roots :: "('cert \<Rightarrow> 'roots \<Rightarrow> string + 'roots) \<Rightarrow> 'roots \<Rightarrow> string list \<times> 'cert list \<Rightarrow> string + 'roots" where
  "load_roots add_root empty_roots native =
     fold (\<lambda>cert r. case r of Inl e \<Rightarrow> Inl e | Inr roots \<Rightarrow> add_root cert roots) (snd native) (Inr empty_roots)"

section \<open>Matching\<close>

text \<open>A name covers a domain that is equal to it or below it.\<close>

definition covers :: "string \<Rightarrow> string \<Rightarrow> bool" where
  "covers base domain \<longleftrightarrow> domain = base \<or> (\<exists>sub. domain = sub @ ''.'' @ base)"

lemma match_domains_iff: "match_domains base domain \<longleftrightarrow> covers base domain"
proof
  assume m: "match_domains base domain"
  show "covers base domain"
  proof (cases "domain = base")
    case False
    with m obtain p where p: "domain = p @ base"
      "subslice (length p - 1) (length p) domain = ''.''"
      by (auto simp: match_domains_def suffix_def Let_def)
    with False have "p \<noteq> []" by auto
    then obtain q c where q: "p = q @ [c]" by (metis rev_exhaust)
    with p have "c = CHR ''.''" by (simp add: subslice_def)
    with p q show ?thesis by (auto simp: covers_def)
  qed (simp add: covers_def)
next
  assume "covers base domain"
  then show "match_domains base domain"
    by (auto simp: covers_def match_domains_def suffix_def subslice_def Let_def)
qed

text \<open>Of the names that cover one domain the deeper one is the longer one.\<close>

lemma covers_depth_less:
  assumes "covers a r" "covers b r" "length a < length b"
  shows "domain_depth a < domain_depth b"
proof -
  obtain p where p: "r = p @ b" using assms(2) by (auto simp: covers_def)
  with assms(3) obtain sub where "p @ b = sub @ ''.'' @ a" using assms(1) by (auto simp: covers_def)
  with assms(3) obtain x where "b = x @ CHR ''.'' # a"
    by (auto simp: append_eq_append_conv2 append_eq_Cons_conv Cons_eq_append_conv)
  then show ?thesis by (simp add: domain_depth_def)
qed

lemma covers_same_length: "covers a r \<Longrightarrow> covers b r \<Longrightarrow> length a = length b \<Longrightarrow> a = b"
  by (auto simp: covers_def append_eq_append_conv)

lemma covers_depth_le:
  assumes "covers a r" "covers b r"
  shows "domain_depth a \<le> domain_depth b \<longleftrightarrow> length a \<le> length b"
  using covers_depth_less [OF assms] covers_depth_less [OF assms(2,1)] covers_same_length [OF assms]
  by (metis le_eq_less_or_eq linorder_not_less)

text \<open>The loops go over the names that cover the request, with their domains, and keep the first of the
  deepest ones.\<close>

definition covering :: "string \<Rightarrow> 'cfg tls_domain \<Rightarrow> ('cfg tls_domain \<times> string) list" where
  "covering r d = map (Pair d) (filter (\<lambda>base. covers base r) (domains d))"

lemma select_base_fold:
  "select_base r d bases best =
     fold (\<lambda>(d, base). better_match d (domain_depth base)) (map (Pair d) (filter (\<lambda>base. covers base r) bases)) best"
  by (induction bases arbitrary: best) (simp_all add: match_domains_iff)

lemma select_additional_fold:
  "select_additional r ds best =
     fold (\<lambda>(d, base). better_match d (domain_depth base)) (concat (map (covering r) ds)) best"
  by (induction ds arbitrary: best) (simp_all add: select_base_fold covering_def)

lemma fold_better_match:
  "case fold (\<lambda>(d, base). better_match d (f base)) xs None of
     None \<Rightarrow> xs = []
   | Some (d, n) \<Rightarrow> \<exists>pre base post. xs = pre @ (d, base) # post \<and> n = f base \<and>
       (\<forall>(e, c) \<in> set pre. f c < f base) \<and> (\<forall>(e, c) \<in> set post. f c \<le> f base)"
proof (induction xs rule: rev_induct)
  case (snoc x xs)
  obtain e c where x: "x = (e, c)" by fastforce
  show ?case
  proof (cases "fold (\<lambda>(d, base). better_match d (f base)) xs None")
    case None
    with snoc x show ?thesis by (auto intro: exI [of _ "[]"])
  next
    case (Some dn)
    obtain d n where dn: "dn = (d, n)" by fastforce
    with snoc Some obtain pre base post where xs: "xs = pre @ (d, base) # post" "n = f base"
      "\<forall>(e, c) \<in> set pre. f c < f base" "\<forall>(e, c) \<in> set post. f c \<le> f base" by auto
    show ?thesis
    proof (cases "f c \<le> n")
      case True
      then have "xs @ [x] = pre @ (d, base) # (post @ [x])" "\<forall>(e, c) \<in> set (post @ [x]). f c \<le> f base"
        using xs x by auto
      moreover have f: "fold (\<lambda>(d, base). better_match d (f base)) (xs @ [x]) None = Some (d, n)"
        using True Some dn x by simp
      ultimately show ?thesis unfolding f option.case prod.case using xs(2,3) by blast
    next
      case False
      then have "\<forall>(e, c') \<in> set xs. f c' < f c" using xs by fastforce
      moreover have f: "fold (\<lambda>(d, base). better_match d (f base)) (xs @ [x]) None = Some (e, f c)"
        using False Some dn x by simp
      moreover have "xs @ [x] = xs @ (e, c) # []" using x by simp
      ultimately show ?thesis unfolding f option.case prod.case by fastforce
    qed
  qed
qed simp

lemma concat_map_split:
  "concat (map g ds) = pre @ x # post \<Longrightarrow>
     \<exists>ds1 d ds2 p q. ds = ds1 @ d # ds2 \<and> g d = p @ x # q \<and> pre = concat (map g ds1) @ p \<and> post = q @ concat (map g ds2)"
proof (induction ds arbitrary: pre)
  case (Cons d ds)
  then have "g d @ concat (map g ds) = pre @ x # post" by simp
  then consider us where "g d = pre @ us" "us @ concat (map g ds) = x # post" "us \<noteq> []"
    | us where "pre = g d @ us" "concat (map g ds) = us @ x # post"
    by (auto simp: append_eq_append_conv2) (metis append_Nil append_Nil2)
  then show ?case
  proof cases
    case 1
    then obtain q where "g d = pre @ x # q" "post = q @ concat (map g ds)" by (cases us) auto
    then show ?thesis by (intro exI [of _ "[]"] exI [of _ d] exI [of _ ds] exI [of _ pre] exI [of _ q]) simp
  next
    case 2
    from Cons.IH [OF this(2)] obtain ds1 e ds2 p q where "ds = ds1 @ e # ds2" "g e = p @ x # q"
      "us = concat (map g ds1) @ p" "post = q @ concat (map g ds2)" by blast
    with 2 show ?thesis
      by (intro exI [of _ "d # ds1"] exI [of _ e] exI [of _ ds2] exI [of _ p] exI [of _ q]) simp
  qed
qed simp

text \<open>\<open>e\<close> is the first domain with a name of the greatest length that covers the request.\<close>

definition first_longest :: "string \<Rightarrow> 'cfg tls_domain list \<Rightarrow> 'cfg tls_domain \<Rightarrow> bool" where
  "first_longest r ds e \<longleftrightarrow> (\<exists>pre post base. ds = pre @ e # post \<and> base \<in> set (domains e) \<and> covers base r \<and>
     (\<forall>d \<in> set pre. \<forall>c \<in> set (domains d). covers c r \<longrightarrow> length c < length base) \<and>
     (\<forall>d \<in> set (e # post). \<forall>c \<in> set (domains d). covers c r \<longrightarrow> length c \<le> length base))"

lemma select_domain_cases:
  "case requested of
     None \<Rightarrow> select_domain requested ds = default_domain ds
   | Some r \<Rightarrow>
       (if \<exists>d \<in> set (additional_domains ds). \<exists>base \<in> set (domains d). covers base r
        then first_longest r (additional_domains ds) (select_domain requested ds)
        else select_domain requested ds = default_domain ds)"
proof (cases requested)
  case (Some r)
  let ?xs = "concat (map (covering r) (additional_domains ds))"
  have none: "?xs = [] \<longleftrightarrow> \<not> (\<exists>d \<in> set (additional_domains ds). \<exists>base \<in> set (domains d). covers base r)"
    by (auto simp: covering_def filter_empty_conv)
  note best = fold_better_match [where f = domain_depth and xs = ?xs, folded select_additional_fold]
  show ?thesis
  proof (cases "select_additional r (additional_domains ds) None")
    case None
    with best none Some show ?thesis by (simp add: select_domain_def)
  next
    case (Some en)
    then obtain e n where en: "select_additional r (additional_domains ds) None = Some (e, n)" by (cases en) auto
    with best obtain pre base post where xs: "?xs = pre @ (e, base) # post"
      and less: "\<forall>(d, c) \<in> set pre. domain_depth c < domain_depth base"
      and le: "\<forall>(d, c) \<in> set post. domain_depth c \<le> domain_depth base" by auto
    from concat_map_split [OF xs] obtain ds1 d ds2 p q where split: "additional_domains ds = ds1 @ d # ds2"
      "covering r d = p @ (e, base) # q" "pre = concat (map (covering r) ds1) @ p" "post = q @ concat (map (covering r) ds2)"
      by blast
    have "(e, base) \<in> set (covering r d)" by (simp add: split(2))
    then have e: "e = d" "base \<in> set (domains e)" "covers base r" by (auto simp: covering_def)
    have "length c < length base" if "d' \<in> set ds1" "c \<in> set (domains d')" "covers c r" for d' c
    proof -
      have "(d', c) \<in> set pre" using that by (auto simp: split(3) covering_def)
      with less have "\<not> domain_depth base \<le> domain_depth c" by fastforce
      with covers_depth_le [OF e(3) that(3)] show ?thesis by simp
    qed
    moreover have "length c \<le> length base" if "d' \<in> set (e # ds2)" "c \<in> set (domains d')" "covers c r" for d' c
    proof -
      have "(d', c) \<in> set (covering r d) \<union> set (concat (map (covering r) ds2))"
        using that e(1) by (auto simp: covering_def)
      then have "(d', c) \<in> set pre \<union> {(e, base)} \<union> set post" by (auto simp: split)
      with less le have "domain_depth c \<le> domain_depth base" by fastforce
      with covers_depth_le [OF that(3) e(3)] show ?thesis by simp
    qed
    ultimately have "first_longest r (additional_domains ds) e"
      unfolding first_longest_def using split(1) e by blast
    moreover have "select_domain requested ds = e" using \<open>requested = Some r\<close> en by (simp add: select_domain_def)
    moreover have "?xs \<noteq> []" by (simp add: xs)
    then have "\<exists>d \<in> set (additional_domains ds). \<exists>base \<in> set (domains d). covers base r" using none by blast
    ultimately show ?thesis using \<open>requested = Some r\<close> by simp
  qed
qed (simp add: select_domain_def)

lemma first_longest_member: "first_longest r ds e \<Longrightarrow> e \<in> set ds"
  by (auto simp: first_longest_def)

section \<open>What a loaded file holds\<close>

lemma collect_names_ok:
  "collect_names alts = Ok names \<Longrightarrow> alts = map Some names \<and> list_all plain_dns_name names"
  by (induction alts arbitrary: names rule: collect_names.induct)
    (auto simp: outcome_simps split: if_splits)

lemma load_certs_from_ok:
  "load_certs_from certs names = Ok names' \<Longrightarrow>
     (case names' of
        None \<Rightarrow> names = None \<and> list_all is_ca certs
      | Some ns \<Rightarrow>
          names = Some ns \<and> list_all is_ca certs \<or>
          names = None \<and> (\<exists>cert alts. filter (\<lambda>c. \<not> is_ca c) certs = [cert] \<and>
            common_names cert = [Some (hd ns)] \<and> alternative_names cert = map Some alts \<and>
            list_all plain_dns_name alts \<and> hd ns \<in> set alts \<and> ns = hd ns # remove1 (hd ns) alts))"
proof (induction certs arbitrary: names)
  case Nil
  then show ?case by (auto split: option.splits)
next
  case (Cons cert certs)
  then obtain cn where cn: "certificate_common_name cert = Ok cn" by (auto simp: outcome_simps)
  then have c: "common_names cert = [Some cn]"
    by (auto simp: certificate_common_name_def split: list.splits option.splits if_splits)
  show ?case
  proof (cases "is_ca cert")
    case True
    with Cons cn have "load_certs_from certs names = Ok names'" by simp
    from Cons.IH [OF this] True show ?thesis by (auto split: option.splits)
  next
    case False
    with Cons.prems cn obtain alts ns where a: "collect_names (alternative_names cert) = Ok alts"
      "certificate_names cn alts = Ok ns" "names = None" "load_certs_from certs (Some ns) = Ok names'"
      by (auto simp: outcome_simps split: if_splits)
    from a(2) have n: "cn \<in> set alts" "ns = cn # remove1 cn alts"
      by (auto simp: certificate_names_def split: if_splits)
    from Cons.IH [OF a(4)] have r: "names' = Some ns" "list_all is_ca certs"
      by (auto split: option.splits)
    from r(2) have "filter (\<lambda>c. \<not> is_ca c) certs = []" by (simp add: filter_empty_conv list_all_iff)
    with r(1) a(3) n c False collect_names_ok [OF a(1)] show ?thesis by simp
  qed
qed

lemma load_cert_names:
  assumes "load_cert certs = Ok names"
  shows "\<exists>cert alts. filter (\<lambda>c. \<not> is_ca c) certs = [cert] \<and> common_names cert = [Some (hd names)] \<and>
    alternative_names cert = map Some alts \<and> list_all plain_dns_name alts \<and>
    hd names \<in> set alts \<and> names = hd names # remove1 (hd names) alts"
proof -
  have "load_certs_from certs None = Ok (Some names)"
    using assms by (auto simp: load_cert_def outcome_simps split: option.splits)
  from load_certs_from_ok [OF this] show ?thesis by simp
qed

section \<open>Loaded domains\<close>

lemma all_ok_Ok: "all_ok rs = Ok as \<longleftrightarrow> rs = map Ok as"
  by (induction rs arbitrary: as) (auto simp: outcome_simps Cons_eq_map_conv)

lemma all_ok_settled: "\<forall>r \<in> set rs. settled r \<Longrightarrow> settled (all_ok rs)"
  by (induction rs) simp_all

lemma load_certs_ok:
  assumes "load_certs read_certs read_keys single_cert cert key = Ok (names, config)"
  shows "\<exists>certs. load_cert certs = Ok names"
proof -
  obtain certs where c: "read_certs cert = Inr certs"
    using assms by (cases "read_certs cert") (simp_all add: load_certs_def)
  obtain keys where k: "read_keys key = Inr keys"
    using assms by (cases "read_keys key") (auto simp: load_certs_def c outcome_simps)
  obtain names' k where n: "load_cert certs = Ok names'" "load_key keys = Ok k"
    using assms by (auto simp: load_certs_def c k outcome_simps)
  then show ?thesis using assms by (cases "single_cert certs k") (auto simp: load_certs_def c k)
qed

lemma collect_names_settled [simp]: "settled (collect_names alts)"
  by (induction alts rule: collect_names.induct) simp_all

lemma load_certs_from_settled [simp]: "settled (load_certs_from certs names)"
proof (induction certs names rule: load_certs_from.induct)
  case (2 cert rest names)
  moreover have "settled (certificate_common_name cert)"
    by (simp add: certificate_common_name_def split: list.split option.split)
  moreover have "settled (certificate_names n ns)" for n ns by (simp add: certificate_names_def)
  ultimately show ?case by simp
qed simp

lemma load_certs_settled [simp]: "settled (load_certs read_certs read_keys single_cert cert key)"
  by (simp add: load_certs_def load_cert_def load_key_def split: sum.split list.split option.split)

definition loaded :: "'cfg tls_domains \<Rightarrow> bool" where
  "loaded ds \<longleftrightarrow> (\<forall>d \<in> set (default_domain ds # additional_domains ds). \<exists>certs. load_cert certs = Ok (domains d))"

lemma new_tls_domains_cases:
  "case new_tls_domains (load_certs read_certs read_keys single_cert) p ps of
     Ok ds \<Rightarrow> loaded ds | Err e \<Rightarrow> True | _ \<Rightarrow> False"
proof -
  let ?new = "new_tls_domain (load_certs read_certs read_keys single_cert)"
  have new: "settled (?new q)" "?new q = Ok d \<Longrightarrow> \<exists>certs. load_cert certs = Ok (domains d)" for q d
    using load_certs_ok by (auto simp: new_tls_domain_def outcome_simps)
  then have "settled (all_ok (map ?new ps))" by (intro all_ok_settled) simp
  with new(1) have "settled (new_tls_domains (load_certs read_certs read_keys single_cert) p ps)"
    by (simp add: new_tls_domains_def)
  moreover have "loaded ds" if a: "new_tls_domains (load_certs read_certs read_keys single_cert) p ps = Ok ds" for ds
  proof -
    from a have "?new p = Ok (default_domain ds)" "map ?new ps = map Ok (additional_domains ds)"
      by (auto simp: new_tls_domains_def outcome_simps all_ok_Ok)
    moreover have "\<exists>q \<in> set ps. ?new q = Ok d" if "d \<in> set (additional_domains ds)" for d
    proof -
      have "Ok d \<in> set (map ?new ps)" using that by (simp add: calculation(2))
      then show ?thesis by auto
    qed
    ultimately have "\<exists>q. ?new q = Ok d" if "d \<in> set (default_domain ds # additional_domains ds)" for d
      using that by (metis set_ConsD)
    with new(2) show ?thesis unfolding loaded_def by blast
  qed
  ultimately show ?thesis by (auto split: outcome.split)
qed

lemma selected_domain: "select_domain requested ds \<in> set (default_domain ds # additional_domains ds)"
  using select_domain_cases [of requested ds]
  by (auto split: option.splits if_splits dest: first_longest_member)

lemma get_config_loaded:
  assumes "loaded ds"
  shows "\<exists>name \<in> set (domains (select_domain requested ds)).
    get_config requested (select_domain requested ds) = Ok (name, tls_config (select_domain requested ds))"
proof -
  let ?d = "select_domain requested ds"
  obtain certs where "load_cert certs = Ok (domains ?d)" using assms selected_domain unfolding loaded_def by blast
  from load_cert_names [OF this] obtain n ns where names: "domains ?d = n # ns" by (metis list.exhaust)
  show ?thesis
    by (auto simp: get_config_def primary_domain_def names find_Some_iff split: option.splits bind_splits)
qed

section \<open>Properties\<close>

text \<open>C32: the choice of a certificate.  A client that asks for a domain gets the first additional domain
  with the longest name that is the requested one or has it below it, at a dot, if there is such a
  name; otherwise, and without a request, the default domain.  The upstream
  name is the requested one if the certificate has it literally and else its primary name, and
  nothing panics, since a loaded certificate has at least one name.\<close>
theorem tls_choice:
  assumes "\<forall>d \<in> set (default_domain ds # additional_domains ds). \<exists>certs. load_cert certs = Ok (domains d)"
  shows "\<exists>name. get_config requested (select_domain requested ds) =
      Ok (name, tls_config (select_domain requested ds)) \<and>
    name = (case requested of
        Some r \<Rightarrow> if r \<in> set (domains (select_domain requested ds)) then r else hd (domains (select_domain requested ds))
      | None \<Rightarrow> hd (domains (select_domain requested ds))) \<and>
    name \<in> set (domains (select_domain requested ds)) \<and>
    (case requested of
       None \<Rightarrow> select_domain requested ds = default_domain ds
     | Some r \<Rightarrow>
         (if \<exists>d \<in> set (additional_domains ds). \<exists>base \<in> set (domains d). covers base r
          then first_longest r (additional_domains ds) (select_domain requested ds)
          else select_domain requested ds = default_domain ds))"
proof -
  let ?d = "select_domain requested ds"
  obtain certs where "load_cert certs = Ok (domains ?d)" using assms selected_domain by blast
  from load_cert_names [OF this] obtain n ns where names: "domains ?d = n # ns" by (metis list.exhaust)
  define name where "name = (case requested of
      Some r \<Rightarrow> if r \<in> set (domains ?d) then r else hd (domains ?d) | None \<Rightarrow> hd (domains ?d))"
  have find: "find (\<lambda>n. n = r) xs = (if r \<in> set xs then Some r else None)" for r and xs :: "string list"
    by (induction xs) auto
  have "get_config requested d = Ok (case requested of
      Some r \<Rightarrow> if r \<in> set (domains d) then r else hd (domains d) | None \<Rightarrow> hd (domains d), tls_config d)"
    if "domains d = n # ns" for d :: "'a tls_domain"
    by (cases requested) (simp_all add: get_config_def primary_domain_def find that)
  from this [OF names] have "get_config requested ?d = Ok (name, tls_config ?d)" by (simp add: name_def)
  moreover have "hd (domains ?d) \<in> set (domains ?d)" by (simp add: names)
  then have "name \<in> set (domains ?d)" by (cases requested) (simp_all add: name_def)
  ultimately show ?thesis
    using select_domain_cases [of requested ds] by (intro exI [of _ name]) (simp add: name_def)
qed

definition demo_cert :: "string \<Rightarrow> certificate" where
  "demo_cert n = \<lparr>common_names = [Some n], is_ca = False, alternative_names = [Some n]\<rparr>"

definition demo_domain :: "string \<Rightarrow> nat \<Rightarrow> nat tls_domain" where
  "demo_domain n k = \<lparr>domains = [n], tls_config = k\<rparr>"

lemma demo_load: "plain_dns_name n \<Longrightarrow> n \<noteq> [] \<Longrightarrow> load_cert [demo_cert n] = Ok (domains (demo_domain n k))"
  by (simp add: load_cert_def demo_cert_def certificate_common_name_def certificate_names_def demo_domain_def)

lemma tls_choice_witness:
  "\<exists>name. get_config (Some ''x.a'') (select_domain (Some ''x.a'')
     \<lparr>default_domain = demo_domain ''b'' 0, additional_domains = [demo_domain ''a'' 1]\<rparr>) = Ok (name, 1)"
proof -
  let ?ds = "\<lparr>default_domain = demo_domain ''b'' 0, additional_domains = [demo_domain ''a'' 1]\<rparr>"
  have plain: "plain_dns_name ''a''" "plain_dns_name ''b''"
    by (simp_all add: plain_dns_name_def suffix_def sublist_def append_eq_Cons_conv Cons_eq_append_conv)
  have "\<forall>d \<in> set (default_domain ?ds # additional_domains ?ds). \<exists>certs. load_cert certs = Ok (domains d)"
    using demo_load [OF plain(1), of 1] demo_load [OF plain(2), of 0] by auto
  note choice = tls_choice [OF this, of "Some ''x.a''"]
  have "covers ''a'' ''x.a''" by (simp add: covers_def)
  then have "first_longest ''x.a'' [demo_domain ''a'' 1] (select_domain (Some ''x.a'') ?ds)"
    using choice by (auto simp: demo_domain_def)
  then have "select_domain (Some ''x.a'') ?ds = demo_domain ''a'' 1" by (auto dest: first_longest_member)
  with choice show ?thesis by (auto simp: demo_domain_def)
qed

text \<open>Loading.  A certificate file is accepted only if it holds exactly one certificate that is
  not a CA's, with a single common name; the names it serves are then exactly its alternative
  names, all of them DNS names without empty labels, with the common name first.\<close>
theorem load_cert_sound:
  assumes "load_cert certs = Ok names"
  shows "\<exists>cert alts. filter (\<lambda>c. \<not> is_ca c) certs = [cert] \<and> common_names cert = [Some (hd names)] \<and>
    alternative_names cert = map Some alts \<and> list_all plain_dns_name alts \<and>
    hd names \<in> set alts \<and> names = hd names # remove1 (hd names) alts"
  using assms by (rule load_cert_names)

lemma load_cert_sound_witness:
  "load_cert [demo_cert ''a''] = Ok [''a''] \<and> (\<exists>cert. filter (\<lambda>c. \<not> is_ca c) [demo_cert ''a''] = [cert])"
proof -
  have "plain_dns_name ''a''"
    by (simp add: plain_dns_name_def suffix_def sublist_def append_eq_Cons_conv Cons_eq_append_conv)
  then have l: "load_cert [demo_cert ''a''] = Ok [''a'']" using demo_load [of "''a''" 0] by (simp add: demo_domain_def)
  with load_cert_sound [OF l] show ?thesis by blast
qed

end
