(* ===== verification/ProxyProtocol.thy ===== *)
theory ProxyProtocol imports Net begin

unbundle bit_operations_syntax

text \<open>
  \<open>src/src/protocols/proxy_protocol.rs\<close>: the PROXY protocol header (version 2) that tells an
  upstream server the addresses of a proxied connection.
\<close>

record proxy_protocol_header =
  peer_addr :: socket_addr
  local_addr :: socket_addr

definition SIGNATURE :: bytes where
  "SIGNATURE = [0x0D, 0x0A, 0x0D, 0x0A, 0x00, 0x0D, 0x0A, 0x51, 0x55, 0x49, 0x54, 0x0A]"

text \<open>\<open>Ipv6Addr::to_ipv4_mapped\<close>: the addresses \<open>::ffff:0:0/96\<close>.\<close>

definition to_ipv4_mapped :: "128 word \<Rightarrow> u32 option" where
  "to_ipv4_mapped ip = (if drop_bit 32 ip = 0xFFFF then Some (ucast ip) else None)"

definition ipv4_octets :: "u32 \<Rightarrow> bytes" where "ipv4_octets = be_bytes 4"
definition ipv6_octets :: "128 word \<Rightarrow> bytes" where "ipv6_octets = be_bytes 16"

text \<open>Two IPv6 addresses that are both mapped IPv4 ones become IPv4 addresses.\<close>

definition unmap_addresses :: "socket_addr \<Rightarrow> socket_addr \<Rightarrow> socket_addr \<times> socket_addr" where
  "unmap_addresses peer_a local_a =
     (case (peer_a, local_a) of
        (V6 peer pp _ _, V6 loc lp _ _) \<Rightarrow>
          (case (to_ipv4_mapped peer, to_ipv4_mapped loc) of
             (Some p, Some l) \<Rightarrow> (V4 p pp, V4 l lp)
           | _ \<Rightarrow> (peer_a, local_a))
      | _ \<Rightarrow> (peer_a, local_a))"

definition VERSION_COMMAND :: u8 where "VERSION_COMMAND = push_bit 4 2 OR 1"
definition FAMILY_INET :: u8 where "FAMILY_INET = push_bit 4 1 OR 1"
definition FAMILY_INET6 :: u8 where "FAMILY_INET6 = push_bit 4 2 OR 1"

fun address_block :: "socket_addr \<Rightarrow> socket_addr \<Rightarrow> (unit, bytes) outcome" where
  "address_block (V4 peer pp) (V4 loc lp) =
     Ok ([FAMILY_INET] @ u16_to_be_bytes 12 @ ipv4_octets peer @ ipv4_octets loc @
         u16_to_be_bytes pp @ u16_to_be_bytes lp)"
| "address_block (V6 peer pp _ _) (V6 loc lp _ _) =
     Ok ([FAMILY_INET6] @ u16_to_be_bytes 36 @ ipv6_octets peer @ ipv6_octets loc @
         u16_to_be_bytes pp @ u16_to_be_bytes lp)"
| "address_block (V4 _ _) (V6 _ _ _ _) = Panic"
| "address_block (V6 _ _ _ _) (V4 _ _) = Panic"

definition encode_header :: "proxy_protocol_header \<Rightarrow> (unit, bytes) outcome" where
  "encode_header h =
     (case unmap_addresses (peer_addr h) (local_addr h) of
        (peer, loc) \<Rightarrow> and_then (address_block peer loc) (\<lambda>block. Ok (SIGNATURE @ [VERSION_COMMAND] @ block)))"

section \<open>A receiver\<close>

text \<open>What a server that follows the protocol reads off the front of a stream: the addresses, and
  the rest of the stream.\<close>

datatype proxied = Inet u32 u32 u16 u16 | Inet6 "128 word" "128 word" u16 u16

definition parse_header :: "bytes \<Rightarrow> (proxied \<times> bytes) option" where
  "parse_header S =
     (if length S < 16 \<or> take 12 S \<noteq> SIGNATURE \<or> S ! 12 \<noteq> VERSION_COMMAND then None
      else
        let n = unat (from_be_bytes (subslice 14 16 S) :: u16); b = subslice 16 (16 + n) S; rest = drop (16 + n) S
        in if length S < 16 + n then None
           else if S ! 13 = FAMILY_INET \<and> n = 12 then
             Some (Inet (from_be_bytes (subslice 0 4 b)) (from_be_bytes (subslice 4 8 b))
                        (from_be_bytes (subslice 8 10 b)) (from_be_bytes (subslice 10 12 b)), rest)
           else if S ! 13 = FAMILY_INET6 \<and> n = 36 then
             Some (Inet6 (from_be_bytes (subslice 0 16 b)) (from_be_bytes (subslice 16 32 b))
                         (from_be_bytes (subslice 32 34 b)) (from_be_bytes (subslice 34 36 b)), rest)
           else None)"

fun proxied_addresses :: "socket_addr \<Rightarrow> socket_addr \<Rightarrow> proxied option" where
  "proxied_addresses (V4 peer pp) (V4 loc lp) = Some (Inet peer loc pp lp)"
| "proxied_addresses (V6 peer pp _ _) (V6 loc lp _ _) =
     (case (to_ipv4_mapped peer, to_ipv4_mapped loc) of
        (Some p, Some l) \<Rightarrow> Some (Inet p l pp lp)
      | _ \<Rightarrow> Some (Inet6 peer loc pp lp))"
| "proxied_addresses _ _ = None"

lemma octets_inverse [simp]:
  "from_be_bytes (ipv4_octets a) = a" "length (ipv4_octets a) = 4"
  "from_be_bytes (ipv6_octets b) = b" "length (ipv6_octets b) = 16"
  by (simp_all add: ipv4_octets_def ipv6_octets_def from_be_bytes_be_bytes take_bit_word_eq_self)

lemma family_distinct: "FAMILY_INET \<noteq> FAMILY_INET6"
  by (simp add: FAMILY_INET_def FAMILY_INET6_def)

lemma subslices_of_block:
  assumes "length a = k" "length b = k" "length c = 2" "length d = 2"
  shows "subslice 0 k (a @ b @ c @ d) = a" "subslice k (k + k) (a @ b @ c @ d) = b"
    "subslice (k + k) (k + k + 2) (a @ b @ c @ d) = c" "subslice (k + k + 2) (k + k + 4) (a @ b @ c @ d) = d"
  using assms subslice_append_middle [of "[]" 0 a k "b @ c @ d"] subslice_append_middle [of a k b "k + k" "c @ d"]
    subslice_append_middle [of "a @ b" "k + k" c "k + k + 2" d]
    subslice_append_middle [of "a @ b @ c" "k + k + 2" d "k + k + 4" "[]"] by simp_all

lemma parse_header_block:
  assumes "length block = unat n" "S = SIGNATURE @ [VERSION_COMMAND, fam] @ u16_to_be_bytes n @ block @ rest"
  shows "length S = 16 + unat n + length rest" "take 12 S = SIGNATURE" "S ! 12 = VERSION_COMMAND" "S ! 13 = fam"
    "(from_be_bytes (subslice 14 16 S) :: u16) = n" "subslice 16 (16 + unat n) S = block" "drop (16 + unat n) S = rest"
proof -
  have sig: "length SIGNATURE = 12" by (simp add: SIGNATURE_def)
  show "length S = 16 + unat n + length rest" "take 12 S = SIGNATURE" "S ! 12 = VERSION_COMMAND" "S ! 13 = fam"
    using assms by (simp_all add: sig nth_append)
  show "drop (16 + unat n) S = rest"
    using append_eq_conv_conj [of "SIGNATURE @ [VERSION_COMMAND, fam] @ u16_to_be_bytes n @ block" rest S]
    by (simp add: assms sig)
  have "subslice 14 16 S = u16_to_be_bytes n"
    using subslice_append_middle [of "SIGNATURE @ [VERSION_COMMAND, fam]" 14 "u16_to_be_bytes n" 16 "block @ rest"]
    by (simp add: assms sig)
  then show "(from_be_bytes (subslice 14 16 S) :: u16) = n" by simp
  show "subslice 16 (16 + unat n) S = block"
    using subslice_append_middle [of "SIGNATURE @ [VERSION_COMMAND, fam] @ u16_to_be_bytes n" 16 block "16 + unat n" rest]
    by (simp add: assms sig)
qed

lemma parse_inet:
  "parse_header (SIGNATURE @ [VERSION_COMMAND] @ ([FAMILY_INET] @ u16_to_be_bytes 12 @ ipv4_octets p @
     ipv4_octets l @ u16_to_be_bytes pp @ u16_to_be_bytes lp) @ rest) = Some (Inet p l pp lp, rest)"
proof -
  let ?block = "ipv4_octets p @ ipv4_octets l @ u16_to_be_bytes pp @ u16_to_be_bytes lp"
  have "length ?block = unat (12 :: u16)" by simp
  note h = parse_header_block [OF this refl, where fam = FAMILY_INET and rest = rest]
  note b = subslices_of_block [of "ipv4_octets p" 4 "ipv4_octets l" "u16_to_be_bytes pp" "u16_to_be_bytes lp"]
  show ?thesis using h b by (simp add: parse_header_def Let_def)
qed

lemma parse_inet6:
  "parse_header (SIGNATURE @ [VERSION_COMMAND] @ ([FAMILY_INET6] @ u16_to_be_bytes 36 @ ipv6_octets p @
     ipv6_octets l @ u16_to_be_bytes pp @ u16_to_be_bytes lp) @ rest) = Some (Inet6 p l pp lp, rest)"
proof -
  let ?block = "ipv6_octets p @ ipv6_octets l @ u16_to_be_bytes pp @ u16_to_be_bytes lp"
  have "length ?block = unat (36 :: u16)" by simp
  note h = parse_header_block [OF this refl, where fam = FAMILY_INET6 and rest = rest]
  note b = subslices_of_block [of "ipv6_octets p" 16 "ipv6_octets l" "u16_to_be_bytes pp" "u16_to_be_bytes lp"]
  show ?thesis using h b family_distinct by (simp add: parse_header_def Let_def)
qed

lemma encode_parse:
  assumes "proxied_addresses (peer_addr h) (local_addr h) = Some a"
  shows "\<exists>header. encode_header h = Ok header \<and> parse_header (header @ rest) = Some (a, rest)"
  using assms parse_inet [of _ _ _ _ rest] parse_inet6 [of _ _ _ _ rest]
  by (cases "peer_addr h"; cases "local_addr h")
    (auto simp: encode_header_def unmap_addresses_def split: option.splits)

lemma encode_panics_iff:
  "encode_header h = Panic \<longleftrightarrow> proxied_addresses (peer_addr h) (local_addr h) = None"
  by (cases "peer_addr h"; cases "local_addr h")
    (auto simp: encode_header_def unmap_addresses_def split: option.splits)

section \<open>Properties\<close>

text \<open>C35: the PROXY header.  For two addresses of one family the header is one that a server which
  follows the protocol reads back as these addresses and ports, IPv4 ones that were mapped into
  IPv6 included, and it leaves the stream behind the header alone; for two families the encoder
  panics.\<close>
theorem proxy_header_roundtrip:
  "(case proxied_addresses (peer_addr h) (local_addr h) of
      Some a \<Rightarrow> \<exists>header. encode_header h = Ok header \<and> parse_header (header @ rest) = Some (a, rest)
    | None \<Rightarrow> encode_header h = Panic)"
  using encode_parse encode_panics_iff by (auto split: option.splits)

end
