(* ===== verification/Proxy.thy ===== *)
theory Proxy imports ProxyProtocol "HOL-Library.Sublist" begin

text \<open>
  \<open>src/src/protocols/proxy.rs\<close>: a client's connection proxied to an upstream server.

  The results of connecting, of writing the PROXY header and of the TLS handshake with the
  upstream server are arguments, and so is the check of a DNS name (crate \<open>rustls\<close>).  A
  connection that is written to is a \<open>sink\<close>, which may fail after some number of bytes.
  \<open>'cfg\<close> is a TLS client configuration.
\<close>

section \<open>Specification of an upstream\<close>

datatype log_level = LogInfo | LogTrace

record 'cfg proxy_tls_spec =
  tls_domain_name :: string
  tls_client_config :: 'cfg

record 'cfg proxy_spec =
  log_level :: log_level
  upstream_address :: socket_addr
  spec_proxy_protocol :: "proxy_protocol_header option"
  spec_tls :: "'cfg proxy_tls_spec option"

datatype proxy_error =
    UnableToConnect string
  | UnableToSendHeader string
  | InvalidDnsName string
  | TlsHandshakeFailed string

section \<open>Sinks\<close>

text \<open>\<open>sink_limit\<close> is the number of further bytes it takes before writes fail with \<open>sink_error\<close>.\<close>

record sink =
  sink_data :: bytes
  sink_limit :: "nat option"
  sink_error :: string
  sink_shut :: bool

definition empty_sink :: "nat option \<Rightarrow> string \<Rightarrow> sink" where
  "empty_sink limit e = \<lparr>sink_data = [], sink_limit = limit, sink_error = e, sink_shut = False\<rparr>"

definition sink_write :: "bytes \<Rightarrow> sink \<Rightarrow> (string, unit) outcome \<times> sink" where
  "sink_write bs k =
     (case sink_limit k of
        None \<Rightarrow> (Ok (), k\<lparr>sink_data := sink_data k @ bs\<rparr>)
      | Some n \<Rightarrow>
          if length bs \<le> n then (Ok (), k\<lparr>sink_data := sink_data k @ bs, sink_limit := Some (n - length bs)\<rparr>)
          else (Err (sink_error k), k\<lparr>sink_data := sink_data k @ take n bs, sink_limit := Some 0\<rparr>))"

text \<open>\<open>tokio::io::copy\<close>.\<close>

fun copy_stream :: "socket \<Rightarrow> sink \<Rightarrow> (string, unit) outcome \<times> sink" where
  "copy_stream [] k = (Pending, k)"
| "copy_stream (Recv bs # es) k =
     (case sink_write bs k of
        (Ok u, k') \<Rightarrow> copy_stream es k'
      | (r, k') \<Rightarrow> (r, k'))"
| "copy_stream (Eof # es) k = (Ok (), k)"
| "copy_stream (Broken e # es) k = (Err e, k)"

section \<open>Connecting\<close>

record 'cfg upstream =
  up_plain :: bytes
  up_tls :: "'cfg proxy_tls_spec option"

text \<open>\<open>ProxiedConnection::new\<close>: the bytes sent in plain, and TLS if the specification has it.\<close>

definition proxied_connection ::
  "(string \<Rightarrow> bool) \<Rightarrow> string option \<Rightarrow> string option \<Rightarrow> string option \<Rightarrow> 'cfg proxy_spec
    \<Rightarrow> (proxy_error, 'cfg upstream) outcome" where
  "proxied_connection dns_name connect header_io tls_io spec =
     (case connect of
        Some e \<Rightarrow> Err (UnableToConnect e)
      | None \<Rightarrow>
          and_then
            (case spec_proxy_protocol spec of
               None \<Rightarrow> Ok []
             | Some h \<Rightarrow>
                 (case encode_header h of
                    Ok header \<Rightarrow>
                      (case header_io of Some e \<Rightarrow> Err (UnableToSendHeader e) | None \<Rightarrow> Ok header)
                  | _ \<Rightarrow> Panic))
            (\<lambda>plain.
               case spec_tls spec of
                 None \<Rightarrow> Ok \<lparr>up_plain = plain, up_tls = None\<rparr>
               | Some tls \<Rightarrow>
                   if \<not> dns_name (tls_domain_name tls) then Err (InvalidDnsName (tls_domain_name tls))
                   else (case tls_io of
                           Some e \<Rightarrow> Err (TlsHandshakeFailed e)
                         | None \<Rightarrow> Ok \<lparr>up_plain = plain, up_tls = Some tls\<rparr>)))"

section \<open>Copying\<close>

definition proxy_connection ::
  "bytes option \<Rightarrow> socket \<Rightarrow> string option \<Rightarrow> sink \<Rightarrow> (string, unit) outcome \<times> sink" where
  "proxy_connection preread_data reader shutdown_io writer =
     (case (case preread_data of Some bs \<Rightarrow> sink_write bs writer | None \<Rightarrow> (Ok (), writer)) of
        (Ok u, k) \<Rightarrow>
          (case copy_stream reader k of
             (Ok u, k') \<Rightarrow>
               (case shutdown_io of
                  Some e \<Rightarrow> (Err (''Unable to shutdown connection: '' @ e), k')
                | None \<Rightarrow> (Ok (), k'\<lparr>sink_shut := True\<rparr>))
           | (r, k') \<Rightarrow> (r, k'))
      | (r, k) \<Rightarrow> (map_err (\<lambda>e. ''Unable to send preread data: '' @ e) r, k))"

text \<open>\<open>handle\<close>: the two directions together.  The first error cancels the other one, so only when
  both have succeeded the sinks are what each direction alone makes of them.  \<open>in_time\<close> says
  whether the client's direction ends within the timeout after the upstream's, \<open>client_first\<close> which
  error comes first if there are two.\<close>

definition proxy_handle ::
  "bytes \<Rightarrow> socket \<Rightarrow> socket \<Rightarrow> string option \<Rightarrow> string option \<Rightarrow> bool \<Rightarrow> bool \<Rightarrow> sink \<Rightarrow> sink
    \<Rightarrow> (string, sink \<times> sink) outcome" where
  "proxy_handle preread client upstream io1 io2 in_time client_first to_upstream to_client =
     (let (r1, k1) = proxy_connection (Some preread) client io1 to_upstream;
          (r2, k2) = proxy_connection None upstream io2 to_client;
          client_error = (\<lambda>e. Err (''client -> upstream proxying has been interrupted: '' @ e));
          upstream_error = (\<lambda>e. Err (''upstream -> client proxying has been interrupted: '' @ e));
          timed_out = Err (''The client hasn't shutdown the connection after server connection shutdown. '' @
            ''Forcibly close it'')
      in case (r1, r2) of
           (Ok u, Ok v) \<Rightarrow> if in_time then Ok (k1, k2) else timed_out
         | (Err e, Ok v) \<Rightarrow> if in_time then client_error e else timed_out
         | (_, Ok v) \<Rightarrow> timed_out
         | (Err e, Err f) \<Rightarrow> if client_first then client_error e else upstream_error f
         | (_, Err f) \<Rightarrow> upstream_error f
         | (Err e, _) \<Rightarrow> client_error e
         | _ \<Rightarrow> Pending)"

section \<open>What passes through\<close>

lemma sink_write_Ok: "sink_write bs k = (Ok u, k') \<Longrightarrow> sink_data k' = sink_data k @ bs"
  by (auto simp: sink_write_def split: option.splits if_splits)

lemma sink_write_prefix: "sink_write bs k = (r, k') \<Longrightarrow> \<exists>n. sink_data k' = sink_data k @ take n bs"
  by (auto simp: sink_write_def split: option.splits if_splits intro: exI [of _ "length bs"])

lemma copy_stream_Ok: "copy_stream s k = (Ok u, k') \<Longrightarrow> sink_data k' = sink_data k @ arriving s \<and> ending s = Ok []"
  by (induction s k rule: copy_stream.induct)
    (auto split: prod.splits outcome.splits dest!: sink_write_Ok)

lemma prefix_take_append: "prefix (take n bs) (bs @ t)"
  by (metis prefix_prefix take_is_prefix)

lemma copy_stream_prefix:
  "copy_stream s k = (r, k') \<Longrightarrow> prefix (sink_data k') (sink_data k @ arriving s) \<and> prefix (sink_data k) (sink_data k')"
proof (induction s k arbitrary: r k' rule: copy_stream.induct)
  case (2 bs es k)
  obtain r1 k1 where w: "sink_write bs k = (r1, k1)" by fastforce
  show ?case
  proof (cases r1)
    case (Ok u)
    with w 2 have "copy_stream es k1 = (r, k')" "sink_data k1 = sink_data k @ bs"
      by (auto dest: sink_write_Ok)
    with "2.IH" [OF w [symmetric] Ok] show ?thesis by (auto dest: append_prefixD)
  qed (use w 2 sink_write_prefix [OF w] prefix_take_append [of _ bs "arriving es"] in auto)
qed auto

lemma proxy_connection_Ok:
  "proxy_connection pre s io k = (Ok u, k') \<Longrightarrow>
     sink_data k' = sink_data k @ (case pre of Some bs \<Rightarrow> bs | None \<Rightarrow> []) @ arriving s \<and> sink_shut k' \<and>
     ending s = Ok []"
  by (auto simp: proxy_connection_def split: option.splits prod.splits outcome.splits
      dest!: sink_write_Ok copy_stream_Ok)

lemma sink_write_unlimited:
  "sink_limit k = None \<Longrightarrow> sink_write bs k = (Ok (), k\<lparr>sink_data := sink_data k @ bs\<rparr>)"
  by (simp add: sink_write_def)

lemma copy_stream_unlimited:
  "sink_limit k = None \<Longrightarrow> ending s = Ok [] \<Longrightarrow>
     copy_stream s k = (Ok (), k\<lparr>sink_data := sink_data k @ arriving s\<rparr>)"
  by (induction s k rule: copy_stream.induct) (simp_all add: sink_write_unlimited)

lemma proxy_connection_unlimited:
  "sink_limit k = None \<Longrightarrow> ending s = Ok [] \<Longrightarrow> fst (proxy_connection pre s None k) = Ok ()"
  by (simp add: proxy_connection_def sink_write_unlimited copy_stream_unlimited split: option.splits)

lemma proxy_connection_prefix:
  "prefix (sink_data (snd (proxy_connection (Some bs) s io k))) (sink_data k @ bs @ arriving s)"
proof -
  obtain r k' where w: "sink_write bs k = (r, k')" by fastforce
  show ?thesis
  proof (cases r)
    case (Ok u)
    obtain r2 k2 where c: "copy_stream s k' = (r2, k2)" by fastforce
    with copy_stream_prefix [OF c] sink_write_Ok [OF w [unfolded Ok]] show ?thesis
      by (cases r2) (auto simp: proxy_connection_def w Ok split: option.splits)
  next
    case (Err e)
    then show ?thesis
      using sink_write_prefix [OF w] prefix_take_append by (auto simp: proxy_connection_def w)
  qed (use sink_write_prefix [OF w] prefix_take_append in \<open>auto simp: proxy_connection_def w\<close>)
qed

lemma proxy_connection_prefix_None:
  "prefix (sink_data (snd (proxy_connection None s io k))) (sink_data k @ arriving s)"
proof -
  obtain r k' where c: "copy_stream s k = (r, k')" by fastforce
  with copy_stream_prefix [OF c] show ?thesis
    by (cases r) (auto simp: proxy_connection_def split: option.splits)
qed

lemma proxy_handle_Ok:
  assumes "proxy_handle preread client upstream io1 io2 in_time first to_upstream to_client = Ok (k1, k2)"
  shows "sink_data k1 = sink_data to_upstream @ preread @ arriving client" "sink_shut k1"
    "sink_data k2 = sink_data to_client @ arriving upstream" "sink_shut k2"
    "ending client = Ok []" "ending upstream = Ok []"
proof -
  obtain r1 l1 r2 l2 where r: "proxy_connection (Some preread) client io1 to_upstream = (r1, l1)"
    "proxy_connection None upstream io2 to_client = (r2, l2)" by fastforce
  with assms have "r1 = Ok ()" "r2 = Ok ()" "l1 = k1" "l2 = k2"
    by (cases r1; cases r2; auto simp: proxy_handle_def Let_def split: if_splits)+
  with r proxy_connection_Ok
  show "sink_data k1 = sink_data to_upstream @ preread @ arriving client" "sink_shut k1"
    "sink_data k2 = sink_data to_client @ arriving upstream" "sink_shut k2"
    "ending client = Ok []" "ending upstream = Ok []" by fastforce+
qed

lemma proxy_handle_unlimited:
  assumes "sink_limit to_upstream = None" "sink_limit to_client = None" "ending client = Ok []" "ending upstream = Ok []"
  shows "is_ok (proxy_handle preread client upstream None None True first to_upstream to_client)"
proof -
  obtain l1 l2 where "proxy_connection (Some preread) client None to_upstream = (Ok (), l1)"
    "proxy_connection None upstream None to_client = (Ok (), l2)"
    using proxy_connection_unlimited assms by (metis prod.collapse)
  then show ?thesis by (simp add: proxy_handle_def)
qed

section \<open>Properties\<close>

text \<open>C31: transparency of the proxy.  When a connection has been proxied successfully, the upstream
  server has received exactly the bytes that were read ahead and then all that the client sent,
  the client all that the server sent, and both were shut down, each after its last byte; and it
  is successful when both sides end cleanly in time and no write fails.  Wherever a direction breaks
  off, what the upstream server or the client has received is a prefix of that.\<close>
theorem proxy_transparent:
  "(\<forall>k1 k2. proxy_handle preread client upstream io1 io2 in_time first to_upstream to_client = Ok (k1, k2) \<longrightarrow>
      sink_data k1 = sink_data to_upstream @ preread @ arriving client \<and> sink_shut k1 \<and>
      sink_data k2 = sink_data to_client @ arriving upstream \<and> sink_shut k2 \<and>
      ending client = Ok [] \<and> ending upstream = Ok []) \<and>
   (sink_limit to_upstream = None \<and> sink_limit to_client = None \<and> ending client = Ok [] \<and>
      ending upstream = Ok [] \<longrightarrow>
      is_ok (proxy_handle preread client upstream None None True first to_upstream to_client)) \<and>
   prefix (sink_data (snd (proxy_connection (Some preread) client io1 to_upstream)))
     (sink_data to_upstream @ preread @ arriving client) \<and>
   prefix (sink_data (snd (proxy_connection None upstream io2 to_client))) (sink_data to_client @ arriving upstream)"
  by (auto dest: proxy_handle_Ok intro: proxy_handle_unlimited proxy_connection_prefix proxy_connection_prefix_None)

lemma proxy_transparent_witness:
  "\<exists>k1 k2. proxy_handle [1] [Recv [2], Recv [3, 4], Eof] [Recv [9], Eof] None None True True
      (empty_sink None []) (empty_sink None []) = Ok (k1, k2) \<and> sink_data k1 = [1, 2, 3, 4] \<and> sink_data k2 = [9]"
proof -
  let ?h = "proxy_handle [1] [Recv [2], Recv [3, 4], Eof] [Recv [9], Eof] None None True True
      (empty_sink None []) (empty_sink None [])"
  note t = proxy_transparent [of "[1]" "[Recv [2], Recv [3, 4], Eof]" "[Recv [9], Eof]" None None True True
      "empty_sink None []" "empty_sink None []"]
  have "is_ok ?h" using t by (simp add: empty_sink_def)
  then obtain k1 k2 where "?h = Ok (k1, k2)" by (cases ?h) auto
  with t show ?thesis by (auto simp: empty_sink_def)
qed

end
