(* ===== verification/Tcp.thy ===== *)
theory Tcp imports Prelude begin

text \<open>
  The options of TCP sockets (\<open>src/src/protocols/tcp.rs\<close>, and the two groups of them for hiddenlink
  connections in \<open>src/src/transport/http/common.rs\<close>).

  What the system answers to the calls on one socket is a record; each call is made at most once a
  socket.  The values that are set (timeouts, intervals of the keep-alive) have no effect on the
  model, whose connections break or time out at any time.
\<close>

datatype congestion_result = CongestionSet | CongestionNotFound | CongestionError string

record socket_answers =
  user_timeout_result :: "string option"
  keep_alive_result :: "string option"
  congestion_answer :: congestion_result
  nodelay_result :: "string option"

text \<open>\<open>keep_alive\<close> says whether a keep-alive is configured too.\<close>

definition configure_socket_timeout :: "bool \<Rightarrow> socket_answers \<Rightarrow> (string, unit) outcome" where
  "configure_socket_timeout keep_alive a =
     (case user_timeout_result a of
        Some e \<Rightarrow> Err (''Failed to set TCP_USER_TIMEOUT socket option: '' @ e)
      | None \<Rightarrow>
          if keep_alive then
            (case keep_alive_result a of
               Some e \<Rightarrow> Err (''Failed to configure TCP keepalive: '' @ e)
             | None \<Rightarrow> Ok ())
          else Ok ())"

text \<open>A missing module is only logged.\<close>

definition configure_congestion_control :: "socket_answers \<Rightarrow> (string, unit) outcome" where
  "configure_congestion_control a =
     (case congestion_answer a of
        CongestionSet \<Rightarrow> Ok ()
      | CongestionNotFound \<Rightarrow> Ok ()
      | CongestionError e \<Rightarrow> Err (''Failed to set TCP_CONGESTION socket option: '' @ e))"

definition pre_configure_hiddenlink_socket :: "socket_answers \<Rightarrow> (string, unit) outcome" where
  "pre_configure_hiddenlink_socket a = configure_socket_timeout True a"

definition post_configure_hiddenlink_socket :: "socket_answers \<Rightarrow> (string, unit) outcome" where
  "post_configure_hiddenlink_socket a =
     and_then (configure_congestion_control a) (\<lambda>_.
       case nodelay_result a of
         Some e \<Rightarrow> Err (''Failed to set TCP_NODELAY socket option: '' @ e)
       | None \<Rightarrow> Ok ())"

text \<open>An error as an option, for the functions that take the result of a step so.\<close>

fun error_of :: "('e, 'a) outcome \<Rightarrow> 'e option" where
  "error_of (Err e) = Some e"
| "error_of r = None"

section \<open>Sockets that can be configured\<close>

text \<open>A socket on which every call succeeds, whether or not the congestion module is loaded.\<close>

definition socket_fine :: "socket_answers \<Rightarrow> bool" where
  "socket_fine a \<longleftrightarrow> user_timeout_result a = None \<and> keep_alive_result a = None \<and>
     (\<forall>e. congestion_answer a \<noteq> CongestionError e) \<and> nodelay_result a = None"

lemma socket_fine_ok:
  assumes "socket_fine a"
  shows "configure_socket_timeout k a = Ok ()" "configure_congestion_control a = Ok ()"
    "pre_configure_hiddenlink_socket a = Ok ()" "post_configure_hiddenlink_socket a = Ok ()"
  using assms
  by (cases "congestion_answer a"; simp add: socket_fine_def configure_socket_timeout_def
      configure_congestion_control_def pre_configure_hiddenlink_socket_def post_configure_hiddenlink_socket_def)+

lemma socket_options_settled [simp]:
  "settled (configure_socket_timeout k a)" "settled (configure_congestion_control a)"
  "settled (pre_configure_hiddenlink_socket a)" "settled (post_configure_hiddenlink_socket a)"
  by (simp_all add: configure_socket_timeout_def configure_congestion_control_def
      pre_configure_hiddenlink_socket_def post_configure_hiddenlink_socket_def
      split: option.split congestion_result.split)

end
