(* ===== verification/ServerConnection.thy ===== *)
theory ServerConnection imports Router Tls Proxy Tcp begin

text \<open>
  \<open>src/src/transport/http/server/server_connection.rs\<close>: an incoming connection of the HTTPS
  server, from its TLS handshake to the decision what becomes of it: a hiddenlink connection, or a
  proxied one to the Trojan or to the HTTP server.

  The TLS handshake is the \<open>rustls\<close> crate's.  \<open>negotiate_tls\<close> is what the code decides before
  it: the upstream's name, the certificate and the protocols to offer; the protocol that was
  negotiated is then an argument (\<open>alpn_ok\<close> is what \<open>rustls\<close> says of it).  Results of writes and
  of the calls that set socket options are arguments, and so is the rendering of a socket address.
\<close>

section \<open>State\<close>

record ('cfg, 'ccfg) server_connection =
  sc_name :: string
  sc_peer_addr :: socket_addr
  sc_local_addr :: socket_addr
  sc_domains :: "'cfg tls_domains"
  sc_routing_rules :: "protocol_spec list"
  sc_upstreams :: upstreams_config
  sc_tls_client_config :: 'ccfg

definition new_server_connection ::
  "(socket_addr \<Rightarrow> string) \<Rightarrow> socket_addr \<Rightarrow> socket_addr \<Rightarrow> 'cfg tls_domains \<Rightarrow> protocol_spec list
    \<Rightarrow> upstreams_config \<Rightarrow> 'ccfg \<Rightarrow> ('cfg, 'ccfg) server_connection" where
  "new_server_connection show_addr peer loc ds rules upstreams client_config =
     \<lparr>sc_name = ''HTTP connection from '' @ show_addr peer, sc_peer_addr = peer, sc_local_addr = loc,
      sc_domains = ds, sc_routing_rules = rules, sc_upstreams = upstreams,
      sc_tls_client_config = client_config\<rparr>"

record hiddenlink_request =
  req_name :: string
  req_flags :: connection_flags
  req_preread_data :: bytes

datatype 'ccfg routing_decision =
    RouteHiddenlink hiddenlink_request
  | RouteProxy "string option" bytes "'ccfg proxy_spec"

datatype routing_error =
    RoutingIo string
  | HandshakeFailed handshake_error
  | UnexpectedTrojan
  | SocketSetup string

section \<open>TLS negotiation\<close>

definition choose_protocol :: "bytes list option \<Rightarrow> bytes option" where
  "choose_protocol alpn =
     (case alpn of
        Some protocols \<Rightarrow> find (\<lambda>p. p = ALPN_HTTP2 \<or> p = ALPN_HTTP1) protocols
      | None \<Rightarrow> None)"

text \<open>The upstream's name, the certificate's configuration, and the protocols added to it.\<close>

definition negotiate_tls ::
  "string option \<Rightarrow> bytes list option \<Rightarrow> ('cfg, 'ccfg) server_connection
    \<Rightarrow> (unit, string \<times> 'cfg \<times> bytes list) outcome" where
  "negotiate_tls requested_domain alpn sc =
     and_then (get_config requested_domain (select_domain requested_domain (sc_domains sc)))
       (\<lambda>(upstream_domain, config).
         Ok (upstream_domain, config,
             case choose_protocol alpn of Some p \<Rightarrow> [p] | None \<Rightarrow> []))"

lemma negotiate_tls_loaded: "loaded (sc_domains sc) \<Longrightarrow> is_ok (negotiate_tls requested alpn sc)"
  using get_config_loaded [of "sc_domains sc" requested] by (auto simp: negotiate_tls_def)

text \<open>What \<open>rustls\<close> negotiates: with protocols on both sides one of the common ones, and none
  otherwise.\<close>

definition alpn_ok :: "bytes list option \<Rightarrow> bytes list \<Rightarrow> bytes option \<Rightarrow> bool" where
  "alpn_ok client_alpn server_alpn negotiated \<longleftrightarrow>
     (case negotiated of
        None \<Rightarrow> server_alpn = [] \<or> client_alpn = None
      | Some p \<Rightarrow> p \<in> set server_alpn \<and> (\<exists>ps. client_alpn = Some ps \<and> p \<in> set ps))"

section \<open>Routing\<close>

text \<open>\<open>push_alpn\<close> adds a protocol to a TLS client configuration.\<close>

definition route_to_trojan_upstream ::
  "(socket_addr \<Rightarrow> string) \<Rightarrow> socket_answers \<Rightarrow> bytes \<Rightarrow> ('cfg, 'ccfg) server_connection
    \<Rightarrow> (routing_error, 'ccfg routing_decision) outcome" where
  "route_to_trojan_upstream show_addr answers preread_data sc =
     (case trojan_upstream (sc_upstreams sc) of
        None \<Rightarrow> Err UnexpectedTrojan
      | Some config \<Rightarrow>
          and_then (map_err SocketSetup (configure_socket_timeout True answers)) (\<lambda>_.
          and_then (map_err SocketSetup (configure_congestion_control answers)) (\<lambda>_.
            Ok (RouteProxy (Some (''Trojan connection from '' @ show_addr (sc_peer_addr sc))) preread_data
              \<lparr>log_level = LogInfo, upstream_address = trojan_address config,
               spec_proxy_protocol = None, spec_tls = None\<rparr>))))"

definition route_to_http_upstream ::
  "(bytes \<Rightarrow> 'ccfg \<Rightarrow> 'ccfg) \<Rightarrow> socket_answers \<Rightarrow> bytes \<Rightarrow> string \<Rightarrow> bytes option
    \<Rightarrow> ('cfg, 'ccfg) server_connection \<Rightarrow> (routing_error, 'ccfg routing_decision) outcome" where
  "route_to_http_upstream push_alpn answers preread_data domain negotiated_protocol sc =
     (let tls_client_config = (case negotiated_protocol of
            Some p \<Rightarrow> push_alpn p (sc_tls_client_config sc) | None \<Rightarrow> sc_tls_client_config sc)
      in and_then (map_err SocketSetup (configure_socket_timeout False answers)) (\<lambda>_.
             Ok (RouteProxy None preread_data
               \<lparr>log_level = LogTrace, upstream_address = http_address (http_upstream (sc_upstreams sc)),
                spec_proxy_protocol =
                  (if http_proxy_protocol (http_upstream (sc_upstreams sc))
                   then Some \<lparr>peer_addr = sc_peer_addr sc, local_addr = sc_local_addr sc\<rparr> else None),
                spec_tls = Some \<lparr>tls_domain_name = domain, tls_client_config = tls_client_config\<rparr>\<rparr>)))"

text \<open>What the environment answers while a connection is being routed.\<close>

record environment =
  fake_response :: bytes
  write_result :: "string option"
  socket_setup :: socket_answers

definition process_routing_decision ::
  "(socket_addr \<Rightarrow> string) \<Rightarrow> (bytes \<Rightarrow> 'ccfg \<Rightarrow> 'ccfg) \<Rightarrow> environment \<Rightarrow> string \<Rightarrow> bytes option
    \<Rightarrow> ('cfg, 'ccfg) server_connection \<Rightarrow> socket
    \<Rightarrow> (routing_error, 'ccfg routing_decision) outcome \<times> socket" where
  "process_routing_decision show_addr push_alpn env domain negotiated_protocol sc s =
     (if negotiated_protocol \<noteq> None \<and> negotiated_protocol \<noteq> Some ALPN_HTTP1
      then (route_to_http_upstream push_alpn (socket_setup env) [] domain negotiated_protocol sc, s)
      else case route (sc_routing_rules sc) [] s of
          (Ok (Some (ProtoHiddenlink, header_size), preread), s') \<Rightarrow>
            (case server_handshake header_size preread (fake_response env) (write_result env)
                    (error_of (and_then (pre_configure_hiddenlink_socket (socket_setup env))
                       (\<lambda>_. post_configure_hiddenlink_socket (socket_setup env)))) s' of
               (r, s'') \<Rightarrow>
                 (and_then (map_err HandshakeFailed r) (\<lambda>(name, flags, preread', response).
                    Ok (RouteHiddenlink \<lparr>req_name = name, req_flags = flags, req_preread_data = preread'\<rparr>)),
                  s''))
        | (Ok (Some (ProtoTrojan, header_size), preread), s') \<Rightarrow>
            (route_to_trojan_upstream show_addr (socket_setup env) preread sc, s')
        | (Ok (None, preread), s') \<Rightarrow>
            (route_to_http_upstream push_alpn (socket_setup env) preread domain negotiated_protocol sc, s')
        | (Err e, s') \<Rightarrow> (Err (RoutingIo e), s')
        | (Panic, s') \<Rightarrow> (Panic, s')
        | (Pending, s') \<Rightarrow> (Pending, s'))"

text \<open>\<open>handle\<close>: only a hiddenlink request outlives it; a proxied connection is served to its end.
  \<open>None\<close> stands for a handshake that has failed or timed out.\<close>

fun connection_request :: "'ccfg routing_decision option \<Rightarrow> hiddenlink_request option" where
  "connection_request (Some (RouteHiddenlink request)) = Some request"
| "connection_request (Some (RouteProxy name preread spec)) = None"
| "connection_request None = None"

section \<open>The decision on the stream\<close>

definition configured ::
  "(string \<Rightarrow> string) \<Rightarrow> (string \<Rightarrow> string) \<Rightarrow> ('cfg, 'ccfg) server_connection \<Rightarrow> bool" where
  "configured urlencode sha224_hex sc \<longleftrightarrow> hex_digest sha224_hex \<and>
     sc_routing_rules sc = as_routing_rules urlencode sha224_hex (sc_upstreams sc)"

lemma stream_protocol_trojan:
  "stream_protocol urlencode sha224_hex cfg S = Some (ProtoTrojan, n) \<Longrightarrow> trojan_upstream cfg \<noteq> None"
  by (cases "trojan_upstream cfg") (auto simp: stream_protocol_def Let_def trojan_headers_def split: if_splits)

lemma stream_protocol_hiddenlink:
  "stream_protocol urlencode sha224_hex cfg S = Some (ProtoHiddenlink, n) \<longleftrightarrow>
     n = length (encode_secret_for_http1 urlencode (hiddenlink_secret cfg)) \<and>
     prefix (encode_secret_for_http1 urlencode (hiddenlink_secret cfg)) S"
  by (auto simp: stream_protocol_def Let_def split: if_splits)

lemma server_handshake_cases:
  assumes "server_handshake index buf resp io opt s = (r, s')"
  obtains name flags preread where "r = Ok (name, flags, preread, server_response resp)"
      "server_request index buf s = (Ok (name, flags, preread), s')"
    | "\<forall>x. r \<noteq> Ok x"
  using assms by (auto simp: server_handshake_def split: prod.splits outcome.splits option.splits)

text \<open>A proxied connection has lost nothing, and an accepted one has shown the secret.\<close>

lemma decision_cases:
  assumes conf: "configured urlencode sha224_hex sc"
    and dec: "process_routing_decision show_addr push_alpn env domain negotiated sc s = (Ok d, s')"
  shows "(\<exists>name preread spec. d = RouteProxy name preread spec \<and>
      preread @ arriving s' = arriving s \<and> ending s' = ending s \<and>
      (stream_protocol urlencode sha224_hex (sc_upstreams sc) (arriving s) = None \<or>
         negotiated \<noteq> None \<and> negotiated \<noteq> Some ALPN_HTTP1
       \<longrightarrow> upstream_address spec = http_address (http_upstream (sc_upstreams sc)))) \<or>
    (\<exists>request. d = RouteHiddenlink request \<and>
      (negotiated = None \<or> negotiated = Some ALPN_HTTP1) \<and>
      prefix (encode_secret_for_http1 urlencode (hiddenlink_secret (sc_upstreams sc))) (arriving s))"
proof (cases "negotiated \<noteq> None \<and> negotiated \<noteq> Some ALPN_HTTP1")
  case True
  then have "route_to_http_upstream push_alpn (socket_setup env) [] domain negotiated sc = Ok d" "s' = s"
    using dec by (auto simp: process_routing_decision_def)
  then show ?thesis by (auto simp: route_to_http_upstream_def Let_def outcome_simps)
next
  case False
  obtain r s1 where rt: "route (sc_routing_rules sc) [] s = (r, s1)" by fastforce
  have r: "(\<exists>decision buf. r = Ok (decision, buf) \<and>
      decision = stream_protocol urlencode sha224_hex (sc_upstreams sc) (arriving s) \<and>
      buf @ arriving s1 = arriving s \<and> ending s1 = ending s) \<or> (\<forall>x. r \<noteq> Ok x)"
    using route_rules rt conf unfolding configured_def by fastforce
  with dec rt False obtain decision buf where b: "r = Ok (decision, buf)"
    "decision = stream_protocol urlencode sha224_hex (sc_upstreams sc) (arriving s)"
    "buf @ arriving s1 = arriving s" "ending s1 = ending s"
    by (cases r) (auto simp: process_routing_decision_def)
  show ?thesis
  proof (cases decision)
    case None
    then have "route_to_http_upstream push_alpn (socket_setup env) buf domain negotiated sc = Ok d" "s' = s1"
      using dec rt b(1) False by (auto simp: process_routing_decision_def)
    with b(3,4) show ?thesis by (auto simp: route_to_http_upstream_def Let_def outcome_simps)
  next
    case (Some pn)
    obtain p n where pn: "pn = (p, n)" by fastforce
    show ?thesis
    proof (cases p)
      case ProtoHiddenlink
      then have "prefix (encode_secret_for_http1 urlencode (hiddenlink_secret (sc_upstreams sc))) (arriving s)"
        using b(2) Some pn stream_protocol_hiddenlink by metis
      moreover have "\<exists>request. d = RouteHiddenlink request"
        using dec rt b(1) False Some pn ProtoHiddenlink
        by (auto simp: process_routing_decision_def outcome_simps split: prod.splits)
      ultimately show ?thesis using False by auto
    next
      case ProtoTrojan
      then have "route_to_trojan_upstream show_addr (socket_setup env) buf sc = Ok d" "s' = s1"
        using dec rt b(1) False Some pn by (auto simp: process_routing_decision_def)
      with b(2,3,4) Some False show ?thesis
        by (auto simp: route_to_trojan_upstream_def outcome_simps split: option.splits)
    qed
  qed
qed

text \<open>A stream that begins with a client's request.\<close>

lemma server_admits_stream:
  assumes "configured urlencode sha224_hex sc" "negotiated = None \<or> negotiated = Some ALPN_HTTP1"
    "client_request (encode_secret_for_http1 urlencode (hiddenlink_secret (sc_upstreams sc))) flags name req =
       Ok request"
    "flags_from_bits flags = Some flags" "connection_name (as_bytes name) = Some name"
    "random_payload 100 2000 req" "arriving s = request @ up"
    "write_result env = None" "socket_fine (socket_setup env)"
  shows "\<exists>preread s'. process_routing_decision show_addr push_alpn env domain negotiated sc s =
      (Ok (RouteHiddenlink \<lparr>req_name = name, req_flags = flags, req_preread_data = preread\<rparr>), s') \<and>
    preread @ arriving s' = up \<and> ending s' = ending s"
proof -
  let ?secret = "encode_secret_for_http1 urlencode (hiddenlink_secret (sc_upstreams sc))"
  have len: "length req < 2 ^ 16" using assms(6) by (auto simp: random_payload_def)
  have "prefix ?secret (arriving s)"
    using assms(3,7) by (auto simp: client_request_def prefix_def split: if_splits)
  then have sp: "stream_protocol urlencode sha224_hex (sc_upstreams sc) (arriving s) =
      Some (ProtoHiddenlink, length ?secret)"
    by (simp add: stream_protocol_hiddenlink)
  obtain r s1 where rt: "route (sc_routing_rules sc) [] s = (r, s1)" by fastforce
  then obtain buf where b: "r = Ok (Some (ProtoHiddenlink, length ?secret), buf)"
    "buf @ arriving s1 = request @ up" "ending s1 = ending s"
    using route_rules [of sha224_hex urlencode "sc_upstreams sc" s r s1] assms(1,7) sp
    unfolding configured_def by auto
  obtain q s2 where q: "server_request (length ?secret) buf s1 = (q, s2)"
    "with_rest (arriving s2) q = request_view (length ?secret) (request @ up) (ending s1)"
    "is_ok q \<longrightarrow> ending s2 = ending s1"
    using server_request_stream [of "length ?secret" buf s1] b(2) by auto
  have "with_rest (arriving s2) q = Ok (name, flags, up)"
    using q(2) parsed_request_client(1,2) [OF assms(3-5) len, of up] parsed_request_client(3) [OF assms(3-5) len]
    by (simp add: request_view_def)
  then obtain preread where "q = Ok (name, flags, preread)" "up = preread @ arriving s2"
    using with_rest_Ok by blast
  then show ?thesis
    using rt b q assms(2,8,9) by (auto simp: process_routing_decision_def server_handshake_def socket_fine_ok)
qed

section \<open>Properties\<close>

text \<open>Masking.  Whatever a connection sends, it becomes a hiddenlink connection only if its
  stream begins with the encoded secret; otherwise, or with another protocol negotiated than
  HTTP/1.1, it is proxied with every byte it has sent, those read ahead first and the rest still
  to come, and unless it shows a Trojan password the server it reaches is the HTTP one.\<close>
theorem server_masks:
  assumes "configured urlencode sha224_hex sc"
    "process_routing_decision show_addr push_alpn env domain negotiated sc s = (Ok d, s')"
  shows "(\<exists>name preread spec. d = RouteProxy name preread spec \<and>
      preread @ arriving s' = arriving s \<and> ending s' = ending s \<and>
      (stream_protocol urlencode sha224_hex (sc_upstreams sc) (arriving s) = None \<or>
         negotiated \<noteq> None \<and> negotiated \<noteq> Some ALPN_HTTP1
       \<longrightarrow> upstream_address spec = http_address (http_upstream (sc_upstreams sc)))) \<or>
    (\<exists>request. d = RouteHiddenlink request \<and>
      (negotiated = None \<or> negotiated = Some ALPN_HTTP1) \<and>
      prefix (encode_secret_for_http1 urlencode (hiddenlink_secret (sc_upstreams sc))) (arriving s))"
  using assms by (rule decision_cases)

definition demo_server :: "(nat, nat) server_connection" where
  "demo_server = new_server_connection (\<lambda>_. []) (V4 7 8) (V4 9 10)
     \<lparr>default_domain = demo_domain ''b'' 0, additional_domains = []\<rparr>
     (as_routing_rules id (\<lambda>_. replicate 56 CHR ''a'') demo_config) demo_config 0"

definition demo_env :: environment where
  "demo_env = \<lparr>fake_response = replicate 70 97, write_result = None,
     socket_setup = \<lparr>user_timeout_result = None, keep_alive_result = None, congestion_answer = CongestionNotFound,
       nodelay_result = None\<rparr>\<rparr>"

lemma demo_env_fine: "socket_fine (socket_setup demo_env)" "write_result demo_env = None"
  by (simp_all add: socket_fine_def demo_env_def)

lemma demo_configured: "configured id (\<lambda>_. replicate 56 CHR ''a'') demo_server"
  by (simp add: configured_def demo_server_def new_server_connection_def demo_hex_digest)

lemma server_masks_witness:
  "\<exists>name preread spec s'. process_routing_decision (\<lambda>_. []) (\<lambda>p c. c + 1) demo_env ''b'' (Some ALPN_HTTP2)
      demo_server [Recv [1, 2]] = (Ok (RouteProxy name preread spec), s') \<and>
    preread @ arriving s' = [1, 2] \<and> upstream_address spec = V4 1 80"
proof -
  have h2: "ALPN_HTTP2 \<noteq> ALPN_HTTP1" by (simp add: ALPN_HTTP1_def ALPN_HTTP2_def)
  then obtain d s' where d: "process_routing_decision (\<lambda>_. []) (\<lambda>p c. c + 1) demo_env ''b'' (Some ALPN_HTTP2)
      demo_server [Recv [1, 2]] = (Ok d, s')"
    by (simp add: process_routing_decision_def route_to_http_upstream_def demo_env_def configure_socket_timeout_def)
  with server_masks [OF demo_configured d] h2 show ?thesis
    by (auto simp: demo_server_def new_server_connection_def demo_config_def)
qed

text \<open>Admission.  A client that knows the secret is let in: on a connection with no negotiated
  protocol or HTTP/1.1, the stream of a client's request, cut into chunks in any way and followed
  by any packets, becomes a hiddenlink request with the client's name and flags, and the bytes of
  the packets are what was read ahead followed by what is still to come.\<close>
theorem server_admits:
  assumes "configured urlencode sha224_hex sc" "negotiated = None \<or> negotiated = Some ALPN_HTTP1"
    "client_request (encode_secret_for_http1 urlencode (hiddenlink_secret (sc_upstreams sc))) flags name req =
       Ok request"
    "flags_from_bits flags = Some flags" "connection_name (as_bytes name) = Some name"
    "random_payload 100 2000 req" "arriving s = request @ up"
    "write_result env = None" "socket_fine (socket_setup env)"
  shows "\<exists>preread s'. process_routing_decision show_addr push_alpn env domain negotiated sc s =
      (Ok (RouteHiddenlink \<lparr>req_name = name, req_flags = flags, req_preread_data = preread\<rparr>), s') \<and>
    preread @ arriving s' = up \<and> ending s' = ending s"
  using assms by (rule server_admits_stream)

lemma server_admits_witness:
  "\<exists>s s' preread. process_routing_decision (\<lambda>_. []) (\<lambda>p c. c + 1) demo_env ''b'' None demo_server s =
      (Ok (RouteHiddenlink \<lparr>req_name = ''home'', req_flags = 3, req_preread_data = preread\<rparr>), s') \<and>
    preread @ arriving s' = [69]"
proof -
  let ?secret = "encode_secret_for_http1 id (hiddenlink_secret (sc_upstreams demo_server))"
  obtain request where req: "client_request ?secret 3 ''home'' (replicate 100 97) = Ok request"
    by (simp add: client_request_def)
  have "flags_from_bits 3 = Some 3" by (simp add: flags_from_bits_def FLAG_INGRESS_def FLAG_EGRESS_def)
  moreover have "connection_name (as_bytes ''home'') = Some ''home''"
    by (simp add: connection_name_def Let_def str_trim_self is_ascii_alphanumeric_def is_whitespace_def)
  moreover have "random_payload 100 2000 (replicate 100 97)" by (simp add: random_payload_replicate)
  ultimately show ?thesis
    using server_admits [OF demo_configured _ req, of None "[Recv request, Recv [69]]" "[69]" demo_env
        "\<lambda>_. []" "\<lambda>p c. c + 1" "''b''"] demo_env_fine by auto
qed

end
