(* ===== verification/ServerSession.thy ===== *)
theory ServerSession imports ServerConnection begin

text \<open>
  \<open>ServerConnection::handle\<close> of \<open>src/src/transport/http/server/server_connection.rs\<close> as a whole: the
  TLS handshake, the routing decision within the timeout, and then either a hiddenlink request for
  the transport or a proxied connection that is served to its end.

  What the environment does is a record each for the TLS handshake and for the proxied connection.
  The result says everything that leaves the server: the request, the bytes the client has been
  sent inside TLS, and the bytes an upstream server has been sent.
\<close>

section \<open>The TLS handshake\<close>

datatype shutdown_answer = ShutdownDone | ShutdownNotConnected | ShutdownFailed string

text \<open>\<open>tls_accept\<close> gives the client hello, its name and protocols; \<open>tls_io_returned\<close> says whether a
  failed acceptor gives the connection back; \<open>tls_finish\<close> completes the handshake with a
  certificate's configuration and the protocols added to it, and gives the negotiated one.\<close>

record 'cfg tls_exchange =
  tls_accept :: "(string, string option \<times> bytes list option) outcome"
  tls_io_returned :: bool
  tls_finish :: "'cfg \<Rightarrow> bytes list \<Rightarrow> (string, bytes option) outcome"
  tls_shutdown :: shutdown_answer

text \<open>The error that is logged, if any.\<close>

definition handle_tls_handshake_error :: "shutdown_answer \<Rightarrow> string option" where
  "handle_tls_handshake_error answer =
     (case answer of
        ShutdownFailed e \<Rightarrow> Some (''Failed to shutdown client connection: '' @ e)
      | _ \<Rightarrow> None)"

text \<open>The upstream's name and the negotiated protocol, or a failure with what is logged as an error.\<close>

datatype tls_result = TlsEstablished string "bytes option" | TlsRefused "string option"

definition process_tls_handshake ::
  "'cfg tls_exchange \<Rightarrow> ('cfg, 'ccfg) server_connection \<Rightarrow> (unit, tls_result) outcome" where
  "process_tls_handshake x sc =
     (case tls_accept x of
        Ok (requested_domain, alpn) \<Rightarrow>
          and_then (negotiate_tls requested_domain alpn sc) (\<lambda>(upstream_domain, config, protocols).
            case tls_finish x config protocols of
              Ok negotiated_protocol \<Rightarrow> Ok (TlsEstablished upstream_domain negotiated_protocol)
            | Err e \<Rightarrow> Ok (TlsRefused (handle_tls_handshake_error (tls_shutdown x)))
            | Panic \<Rightarrow> Panic
            | Pending \<Rightarrow> Pending)
      | Err e \<Rightarrow>
          Ok (TlsRefused (if tls_io_returned x then handle_tls_handshake_error (tls_shutdown x) else None))
      | Panic \<Rightarrow> Panic
      | Pending \<Rightarrow> Pending)"

section \<open>The handshake within its time\<close>

text \<open>An error is only logged.  The socket is what remains to be read of the client.\<close>

definition process_handshake ::
  "(socket_addr \<Rightarrow> string) \<Rightarrow> (bytes \<Rightarrow> 'ccfg \<Rightarrow> 'ccfg) \<Rightarrow> 'cfg tls_exchange \<Rightarrow> environment
    \<Rightarrow> ('cfg, 'ccfg) server_connection \<Rightarrow> socket \<Rightarrow> (unit, 'ccfg routing_decision option) outcome \<times> socket" where
  "process_handshake show_addr push_alpn x env sc s =
     (case process_tls_handshake x sc of
        Ok (TlsEstablished domain negotiated) \<Rightarrow>
          (case process_routing_decision show_addr push_alpn env domain negotiated sc s of
             (Ok d, s') \<Rightarrow> (Ok (Some d), s')
           | (Err e, s') \<Rightarrow> (Ok None, s')
           | (Panic, s') \<Rightarrow> (Panic, s')
           | (Pending, s') \<Rightarrow> (Pending, s'))
      | Ok (TlsRefused logged) \<Rightarrow> (Ok None, s)
      | Err e \<Rightarrow> (Err e, s)
      | Panic \<Rightarrow> (Panic, s)
      | Pending \<Rightarrow> (Pending, s))"

text \<open>The only bytes that are written to the client meanwhile: the response to a hiddenlink request that
  has been read whole, of which \<open>sent\<close> bytes have been taken when the write fails or the time is
  over.\<close>

definition handshake_reply ::
  "'cfg tls_exchange \<Rightarrow> environment \<Rightarrow> bool \<Rightarrow> nat \<Rightarrow> ('cfg, 'ccfg) server_connection \<Rightarrow> socket \<Rightarrow> bytes" where
  "handshake_reply x env in_time sent sc s =
     (case process_tls_handshake x sc of
        Ok (TlsEstablished domain negotiated) \<Rightarrow>
          if negotiated \<noteq> None \<and> negotiated \<noteq> Some ALPN_HTTP1 then []
          else (case route (sc_routing_rules sc) [] s of
              (Ok (Some (ProtoHiddenlink, header_size), preread), s') \<Rightarrow>
                (case server_request header_size preread s' of
                   (Ok request, s'') \<Rightarrow>
                     if in_time \<and> write_result env = None then server_response (fake_response env)
                     else take sent (server_response (fake_response env))
                 | _ \<Rightarrow> [])
            | _ \<Rightarrow> [])
      | _ \<Rightarrow> [])"

section \<open>The proxied connection\<close>

text \<open>What the upstream server and the two connections do; \<open>pe_cut_upstream\<close> and \<open>pe_cut_client\<close> are
  how much each sink has taken of what its direction alone would give it when the other direction's
  error cancels it.\<close>

record proxy_environment =
  pe_dns_name :: "string \<Rightarrow> bool"
  pe_connect :: "string option"
  pe_header_io :: "string option"
  pe_tls_io :: "string option"
  pe_upstream :: socket
  pe_to_upstream :: sink
  pe_to_client :: sink
  pe_shutdown_upstream :: "string option"
  pe_shutdown_client :: "string option"
  pe_in_time :: bool
  pe_client_first :: bool
  pe_cut_upstream :: nat
  pe_cut_client :: nat

record served =
  served_request :: "hiddenlink_request option"
  served_reply :: bytes
  served_upstream :: "(socket_addr \<times> bytes \<times> bytes) option"
  served_complete :: bool

definition served_nothing :: served where
  "served_nothing = \<lparr>served_request = None, served_reply = [], served_upstream = None, served_complete = False\<rparr>"

text \<open>An upstream server gets the bytes sent in plain, and the stream behind them.  When the connection to it
  cannot be set up, the server has at most been sent the PROXY header or a part of it, which is not
  recorded.\<close>

definition proxy_request ::
  "proxy_environment \<Rightarrow> bytes \<Rightarrow> socket \<Rightarrow> 'ccfg proxy_spec \<Rightarrow> (unit, served) outcome" where
  "proxy_request pe preread_data connection spec =
     (case proxied_connection (pe_dns_name pe) (pe_connect pe) (pe_header_io pe) (pe_tls_io pe) spec of
        Ok up \<Rightarrow>
          (case proxy_handle preread_data connection (pe_upstream pe) (pe_shutdown_upstream pe) (pe_shutdown_client pe)
                  (pe_in_time pe) (pe_client_first pe) (pe_to_upstream pe) (pe_to_client pe) of
             Ok (k1, k2) \<Rightarrow>
               Ok \<lparr>served_request = None, served_reply = sink_data k2,
                   served_upstream = Some (upstream_address spec, up_plain up, sink_data k1), served_complete = True\<rparr>
           | Panic \<Rightarrow> Panic
           | _ \<Rightarrow>
               Ok \<lparr>served_request = None,
                   served_reply = take (pe_cut_client pe) (sink_data (snd (proxy_connection None (pe_upstream pe)
                     (pe_shutdown_client pe) (pe_to_client pe)))),
                   served_upstream = Some (upstream_address spec, up_plain up,
                     take (pe_cut_upstream pe) (sink_data (snd (proxy_connection (Some preread_data) connection
                       (pe_shutdown_upstream pe) (pe_to_upstream pe))))),
                   served_complete = False\<rparr>)
      | Err e \<Rightarrow> Ok served_nothing
      | Panic \<Rightarrow> Panic
      | Pending \<Rightarrow> Pending)"

section \<open>The whole connection\<close>

text \<open>\<open>in_time\<close> says whether the handshake, if it ends, does so within \<open>CONNECTION_TIMEOUT\<close>; one that does
  not end times out.\<close>

definition handle_connection ::
  "(socket_addr \<Rightarrow> string) \<Rightarrow> (bytes \<Rightarrow> 'ccfg \<Rightarrow> 'ccfg) \<Rightarrow> 'cfg tls_exchange \<Rightarrow> environment \<Rightarrow> proxy_environment
    \<Rightarrow> bool \<Rightarrow> nat \<Rightarrow> ('cfg, 'ccfg) server_connection \<Rightarrow> socket \<Rightarrow> (unit, served) outcome \<times> socket" where
  "handle_connection show_addr push_alpn x env pe in_time sent sc s =
     (let reply = handshake_reply x env in_time sent sc s
      in case process_handshake show_addr push_alpn x env sc s of
           (Ok decision, s') \<Rightarrow>
             if \<not> in_time then (Ok (served_nothing\<lparr>served_reply := reply\<rparr>), s')
             else (case decision of
                 Some (RouteHiddenlink request) \<Rightarrow>
                   (Ok (served_nothing\<lparr>served_request := Some request, served_reply := reply\<rparr>), s')
               | Some (RouteProxy name preread_data spec) \<Rightarrow> (proxy_request pe preread_data s' spec, [])
               | None \<Rightarrow> (Ok (served_nothing\<lparr>served_reply := reply\<rparr>), s'))
         | (Err e, s') \<Rightarrow> (Err e, s')
         | (Panic, s') \<Rightarrow> (Panic, s')
         | (Pending, s') \<Rightarrow> (Ok (served_nothing\<lparr>served_reply := reply\<rparr>), s'))"

section \<open>A stream without a password\<close>

text \<open>Such a stream is routed to the HTTP server, with every byte, unless it breaks off.\<close>

lemma foreign_decision:
  assumes "configured urlencode sha224_hex sc"
    "stream_protocol urlencode sha224_hex (sc_upstreams sc) (arriving s) = None"
    "process_routing_decision show_addr push_alpn env domain negotiated sc s = (r, s')"
  shows "(\<exists>preread. r = route_to_http_upstream push_alpn (socket_setup env) preread domain negotiated sc \<and>
      preread @ arriving s' = arriving s \<and> ending s' = ending s) \<or>
    (\<exists>e. r = Err e \<and> ending s \<noteq> Ok []) \<or> r = Pending \<and> ending s \<noteq> Ok []"
proof (cases "negotiated \<noteq> None \<and> negotiated \<noteq> Some ALPN_HTTP1")
  case True
  then show ?thesis using assms(3) by (auto simp: process_routing_decision_def)
next
  case False
  obtain q s1 where rt: "route (sc_routing_rules sc) [] s = (q, s1)" by fastforce
  with route_rules [where s = s and r = q and s' = s1] assms(1,2)
  have "(\<exists>buf. q = Ok (None, buf) \<and> buf @ arriving s1 = arriving s \<and> ending s1 = ending s) \<or>
      (\<exists>e. q = Err e \<and> ending s = Err e) \<or> q = Pending \<and> ending s = Pending"
    unfolding configured_def by fastforce
  then show ?thesis using assms(3) False rt by (auto simp: process_routing_decision_def)
qed

lemma foreign_reply:
  assumes "configured urlencode sha224_hex sc"
    "stream_protocol urlencode sha224_hex (sc_upstreams sc) (arriving s) = None"
  shows "handshake_reply x env in_time sent sc s = []"
proof -
  obtain q s1 where rt: "route (sc_routing_rules sc) [] s = (q, s1)" by fastforce
  with route_rules [where s = s and r = q and s' = s1] assms
  have "(\<exists>buf. q = Ok (None, buf)) \<or> (\<exists>e. q = Err e) \<or> q = Pending"
    unfolding configured_def by fastforce
  then show ?thesis
    by (auto simp: handshake_reply_def rt split: outcome.split tls_result.split)
qed

text \<open>The upstream's side of a proxied connection.\<close>

definition http_spec :: "string \<Rightarrow> 'ccfg \<Rightarrow> ('cfg, 'ccfg) server_connection \<Rightarrow> 'ccfg proxy_spec" where
  "http_spec domain config sc =
     \<lparr>log_level = LogTrace, upstream_address = http_address (http_upstream (sc_upstreams sc)),
      spec_proxy_protocol =
        (if http_proxy_protocol (http_upstream (sc_upstreams sc))
         then Some \<lparr>peer_addr = sc_peer_addr sc, local_addr = sc_local_addr sc\<rparr> else None),
      spec_tls = Some \<lparr>tls_domain_name = domain, tls_client_config = config\<rparr>\<rparr>"

lemma route_to_http_Ok:
  "route_to_http_upstream push_alpn answers preread domain negotiated sc = Ok d \<Longrightarrow>
     \<exists>config. d = RouteProxy None preread (http_spec domain config sc)"
  "settled (route_to_http_upstream push_alpn answers preread domain negotiated sc)"
  "socket_fine answers \<Longrightarrow> is_ok (route_to_http_upstream push_alpn answers preread domain negotiated sc)"
  by (auto simp: route_to_http_upstream_def http_spec_def Let_def outcome_simps socket_fine_ok)

lemma proxied_connection_http:
  assumes "proxied_addresses (sc_peer_addr sc) (sc_local_addr sc) = Some a"
  shows "case proxied_connection dns_name connect header_io tls_io (http_spec domain config sc) of
      Ok up \<Rightarrow> if http_proxy_protocol (http_upstream (sc_upstreams sc)) then parse_header (up_plain up) = Some (a, [])
        else up_plain up = []
    | Err e \<Rightarrow> \<not> (connect = None \<and> header_io = None \<and> tls_io = None \<and> dns_name domain)
    | _ \<Rightarrow> False"
proof (cases "http_proxy_protocol (http_upstream (sc_upstreams sc))")
  case True
  have "proxied_addresses (peer_addr \<lparr>peer_addr = sc_peer_addr sc, local_addr = sc_local_addr sc\<rparr>)
      (local_addr \<lparr>peer_addr = sc_peer_addr sc, local_addr = sc_local_addr sc\<rparr>) = Some a"
    using assms by simp
  from encode_parse [OF this, of "[]"] obtain header where
    "encode_header \<lparr>peer_addr = sc_peer_addr sc, local_addr = sc_local_addr sc\<rparr> = Ok header"
    "parse_header header = Some (a, [])" by auto
  with True show ?thesis by (simp add: proxied_connection_def http_spec_def split: option.split)
qed (simp add: proxied_connection_def http_spec_def split: option.split)

lemma proxy_handle_not_panic: "proxy_handle preread c u io1 io2 in_time first k1 k2 \<noteq> Panic"
  by (auto simp: proxy_handle_def Let_def split: prod.split outcome.split)

text \<open>Nothing is admitted; the client is sent nothing but a prefix of what the web server sends, \<open>down\<close>;
  only the web server is spoken to, and is sent nothing but a prefix of what the client sends, \<open>up\<close>,
  behind the header of the addresses \<open>a\<close> if that is configured and behind nothing if it is not; and if
  the connection completes both have been sent all of it.\<close>

definition mimics :: "('cfg, 'ccfg) server_connection \<Rightarrow> proxied \<Rightarrow> bytes \<Rightarrow> bytes \<Rightarrow> served \<Rightarrow> bool" where
  "mimics sc a down up v \<longleftrightarrow> served_request v = None \<and> prefix (served_reply v) down \<and>
     (case served_upstream v of
        None \<Rightarrow> served_reply v = []
      | Some (address, plain, bs) \<Rightarrow> address = http_address (http_upstream (sc_upstreams sc)) \<and> prefix bs up \<and>
          (if http_proxy_protocol (http_upstream (sc_upstreams sc)) then parse_header plain = Some (a, []) else plain = [])) \<and>
     (served_complete v \<longrightarrow> served_reply v = down \<and> (\<exists>address plain. served_upstream v = Some (address, plain, up)))"

text \<open>A proxied connection gives each side a prefix of what the other one sends, and all of it when it
  completes.\<close>

lemma proxy_request_http:
  assumes "proxied_addresses (sc_peer_addr sc) (sc_local_addr sc) = Some a"
    "sink_data (pe_to_upstream pe) = []" "sink_data (pe_to_client pe) = []"
  shows "\<exists>v. proxy_request pe preread s (http_spec domain config sc) = Ok v \<and> mimics sc a (arriving (pe_upstream pe)) (preread @ arriving s) v"
proof (cases "proxied_connection (pe_dns_name pe) (pe_connect pe) (pe_header_io pe) (pe_tls_io pe) (http_spec domain config sc)")
  case (Ok up)
  let ?h = "proxy_handle preread s (pe_upstream pe) (pe_shutdown_upstream pe) (pe_shutdown_client pe)
    (pe_in_time pe) (pe_client_first pe) (pe_to_upstream pe) (pe_to_client pe)"
  have plain: "if http_proxy_protocol (http_upstream (sc_upstreams sc)) then parse_header (up_plain up) = Some (a, [])
      else up_plain up = []"
    using proxied_connection_http [OF assms(1), where dns_name = "pe_dns_name pe" and
      connect = "pe_connect pe" and header_io = "pe_header_io pe" and tls_io = "pe_tls_io pe" and domain = domain and config = config] Ok
    by simp
  have address: "upstream_address (http_spec domain config sc) = http_address (http_upstream (sc_upstreams sc))"
    by (simp add: http_spec_def)
  note k1 = proxy_connection_prefix [of preread s "pe_shutdown_upstream pe" "pe_to_upstream pe", unfolded assms(2)]
  note k2 = proxy_connection_prefix_None [of "pe_upstream pe" "pe_shutdown_client pe" "pe_to_client pe", unfolded assms(3)]
  show ?thesis
  proof (cases ?h)
    case h: (Ok ks)
    obtain l1 l2 where ks: "ks = (l1, l2)" by fastforce
    note t = proxy_handle_Ok [OF h [unfolded ks]]
    show ?thesis using h plain t assms(2,3) by (simp add: proxy_request_def mimics_def Ok ks address)
  next
    case Panic
    then show ?thesis using proxy_handle_not_panic by metis
  qed (use k1 k2 plain in \<open>simp_all add: proxy_request_def mimics_def Ok address prefix_order.trans [OF take_is_prefix]\<close>)
next
  case (Err e)
  then show ?thesis by (simp add: proxy_request_def mimics_def served_nothing_def)
qed (use proxied_connection_http [OF assms(1), where dns_name = "pe_dns_name pe" and
      connect = "pe_connect pe" and header_io = "pe_header_io pe" and tls_io = "pe_tls_io pe" and domain = domain and config = config]
  in simp_all)

text \<open>An upstream server on which nothing fails.\<close>

definition upstream_fine :: "proxy_environment \<Rightarrow> string \<Rightarrow> bool" where
  "upstream_fine pe domain \<longleftrightarrow> pe_dns_name pe domain \<and> pe_connect pe = None \<and> pe_header_io pe = None \<and>
     pe_tls_io pe = None \<and> sink_limit (pe_to_upstream pe) = None \<and> sink_limit (pe_to_client pe) = None \<and>
     ending (pe_upstream pe) = Ok [] \<and> pe_shutdown_upstream pe = None \<and> pe_shutdown_client pe = None \<and> pe_in_time pe"

lemma proxy_request_complete:
  assumes "upstream_fine pe domain" "ending s = Ok []" "proxied_addresses (sc_peer_addr sc) (sc_local_addr sc) = Some a"
  shows "\<exists>v. proxy_request pe preread s (http_spec domain config sc) = Ok v \<and> served_complete v"
proof -
  obtain up where "proxied_connection (pe_dns_name pe) (pe_connect pe) (pe_header_io pe) (pe_tls_io pe)
      (http_spec domain config sc) = Ok up"
    using proxied_connection_http [OF assms(3), where dns_name = "pe_dns_name pe" and connect = "pe_connect pe" and
      header_io = "pe_header_io pe" and tls_io = "pe_tls_io pe" and domain = domain and config = config] assms(1)
    by (auto simp: upstream_fine_def split: outcome.splits)
  moreover obtain ks where "proxy_handle preread s (pe_upstream pe) (pe_shutdown_upstream pe) (pe_shutdown_client pe)
      (pe_in_time pe) (pe_client_first pe) (pe_to_upstream pe) (pe_to_client pe) = Ok ks"
    using proxy_handle_unlimited [of "pe_to_upstream pe" "pe_to_client pe" s "pe_upstream pe" preread "pe_client_first pe"]
      assms(1,2) by (cases "proxy_handle preread s (pe_upstream pe) None None True (pe_client_first pe)
        (pe_to_upstream pe) (pe_to_client pe)") (auto simp: upstream_fine_def)
  ultimately show ?thesis by (cases ks) (simp add: proxy_request_def)
qed

definition tls_panics :: "'cfg tls_exchange \<Rightarrow> bool" where
  "tls_panics x \<longleftrightarrow> tls_accept x = Panic \<or> (\<exists>config protocols. tls_finish x config protocols = Panic)"

lemma process_tls_handshake_settled:
  assumes "loaded (sc_domains sc)" "\<not> tls_panics x"
  shows "(\<exists>r. process_tls_handshake x sc = Ok r) \<or> process_tls_handshake x sc = Pending"
proof (cases "tls_accept x")
  case (Ok hello)
  obtain requested alpn where hello: "hello = (requested, alpn)" by fastforce
  obtain domain config protocols where "negotiate_tls requested alpn sc = Ok (domain, config, protocols)"
    using negotiate_tls_loaded [OF assms(1), of requested alpn]
    by (cases "negotiate_tls requested alpn sc") auto
  then show ?thesis
    using assms(2) Ok hello
    by (cases "tls_finish x config protocols") (auto simp: process_tls_handshake_def tls_panics_def)
qed (use assms(2) in \<open>auto simp: process_tls_handshake_def tls_panics_def\<close>)

text \<open>Either nothing leaves the server, or the stream is proxied to the HTTP server.\<close>

lemma foreign_connection:
  assumes "configured urlencode sha224_hex sc" "loaded (sc_domains sc)" "\<not> tls_panics x"
    "proxied_addresses (sc_peer_addr sc) (sc_local_addr sc) = Some a"
    "stream_protocol urlencode sha224_hex (sc_upstreams sc) (arriving s) = None"
    "sink_data (pe_to_upstream pe) = []" "sink_data (pe_to_client pe) = []"
    "\<And>domain. fine domain \<longleftrightarrow> (\<exists>negotiated. process_tls_handshake x sc = Ok (TlsEstablished domain negotiated)) \<and>
       in_time \<and> socket_fine (socket_setup env) \<and> upstream_fine pe domain \<and> ending s = Ok []"
    "handle_connection show_addr push_alpn x env pe in_time sent sc s = h"
  shows "(\<exists>s'. h = (Ok served_nothing, s') \<and> (\<forall>domain. \<not> fine domain)) \<or>
    (\<exists>domain config preread s' v. h = (Ok v, []) \<and> proxy_request pe preread s' (http_spec domain config sc) = Ok v \<and>
       preread @ arriving s' = arriving s \<and> (\<forall>domain. fine domain \<longrightarrow> served_complete v))"
proof -
  note reply = foreign_reply [OF assms(1,5)]
  show ?thesis
  proof (cases "\<exists>domain negotiated. process_tls_handshake x sc = Ok (TlsEstablished domain negotiated)")
    case True
    then obtain domain negotiated where tls: "process_tls_handshake x sc = Ok (TlsEstablished domain negotiated)" by blast
    obtain r s1 where d: "process_routing_decision show_addr push_alpn env domain negotiated sc s = (r, s1)" by fastforce
    show ?thesis
    proof (cases "in_time \<and> is_ok r")
      case True
      then obtain preread where p: "r = route_to_http_upstream push_alpn (socket_setup env) preread domain negotiated sc"
        "preread @ arriving s1 = arriving s" "ending s1 = ending s"
        using foreign_decision [OF assms(1,5) d] by auto
      from True p(1) obtain config where r: "r = Ok (RouteProxy None preread (http_spec domain config sc))"
        using route_to_http_Ok(1) by (metis is_ok.elims(2))
      from proxy_request_http [OF assms(4,6,7), of preread s1 domain config] obtain v where
        v: "proxy_request pe preread s1 (http_spec domain config sc) = Ok v" by blast
      moreover have "served_complete v" if "fine domain'" for domain'
        using proxy_request_complete [OF _ _ assms(4), of pe domain s1 preread config] that tls p(3) v assms(8) by auto
      moreover have "h = (Ok v, [])"
        using True tls d r v by (simp add: assms(9) [symmetric] handle_connection_def process_handshake_def)
      ultimately show ?thesis using p(2) by blast
    next
      case False
      have "\<not> fine domain'" for domain'
        using False foreign_decision [OF assms(1,5) d] by (auto simp: route_to_http_Ok(3) assms(8))
      moreover have "settled r \<or> r = Pending"
        using foreign_decision [OF assms(1,5) d] by (auto simp: route_to_http_Ok(2))
      ultimately show ?thesis
        using False tls d by (cases r) (auto simp: assms(9) [symmetric] handle_connection_def process_handshake_def reply served_nothing_def)
    qed
  next
    case False
    then have "(\<exists>e. process_tls_handshake x sc = Ok (TlsRefused e)) \<or> process_tls_handshake x sc = Pending"
      using process_tls_handshake_settled [OF assms(2,3)] by (metis tls_result.exhaust)
    with False show ?thesis
      by (auto simp: assms(8) assms(9) [symmetric] handle_connection_def process_handshake_def reply served_nothing_def)
  qed
qed

section \<open>Properties\<close>

text \<open>C4: camouflage.  To a client that shows neither the secret nor a Trojan password the server is the
  web server: whatever the client sends, and whatever fails, the server does not panic, admits
  nothing, sends the client nothing but a prefix of what the web server sends, and sends the web
  server nothing but a prefix of what the client sends, behind the PROXY header of the two addresses
  if that is configured and else behind nothing, and speaks to no other server; a connection that completes has passed both
  streams whole, and it does complete if both streams end, in time, and nothing fails.\<close>
theorem camouflage:
  assumes "configured urlencode sha224_hex sc" "loaded (sc_domains sc)" "\<not> tls_panics x"
    "proxied_addresses (sc_peer_addr sc) (sc_local_addr sc) = Some a"
    "stream_protocol urlencode sha224_hex (sc_upstreams sc) (arriving s) = None"
    "sink_data (pe_to_upstream pe) = []" "sink_data (pe_to_client pe) = []"
  shows "\<exists>v s'. handle_connection show_addr push_alpn x env pe in_time sent sc s = (Ok v, s') \<and>
    mimics sc a (arriving (pe_upstream pe)) (arriving s) v \<and>
    (\<forall>domain negotiated. process_tls_handshake x sc = Ok (TlsEstablished domain negotiated) \<and> in_time \<and>
       socket_fine (socket_setup env) \<and> upstream_fine pe domain \<and> ending s = Ok [] \<longrightarrow> served_complete v)"
  using foreign_connection [where h = "handle_connection show_addr push_alpn x env pe in_time sent sc s", OF assms refl refl]
proof (elim disjE exE conjE)
  fix domain config preread s' v
  assume h: "handle_connection show_addr push_alpn x env pe in_time sent sc s = (Ok v, [])"
    and v: "proxy_request pe preread s' (http_spec domain config sc) = Ok v" and s: "preread @ arriving s' = arriving s"
    and fine: "\<forall>domain. (\<exists>negotiated. process_tls_handshake x sc = Ok (TlsEstablished domain negotiated)) \<and>
       in_time \<and> socket_fine (socket_setup env) \<and> upstream_fine pe domain \<and> ending s = Ok [] \<longrightarrow> served_complete v"
  from proxy_request_http [OF assms(4,6,7), of preread s' domain config, unfolded s v]
  have "mimics sc a (arriving (pe_upstream pe)) (arriving s) v" by simp
  with h fine show ?thesis by blast
qed (auto simp: served_nothing_def mimics_def)

definition demo_tls :: "nat tls_exchange" where
  "demo_tls = \<lparr>tls_accept = Ok (None, None), tls_io_returned = True, tls_finish = (\<lambda>config protocols. Ok None),
     tls_shutdown = ShutdownDone\<rparr>"

definition demo_proxy :: proxy_environment where
  "demo_proxy = \<lparr>pe_dns_name = (\<lambda>d. True), pe_connect = None, pe_header_io = None, pe_tls_io = None,
     pe_upstream = [Recv [9], Eof], pe_to_upstream = empty_sink None [], pe_to_client = empty_sink None [],
     pe_shutdown_upstream = None, pe_shutdown_client = None, pe_in_time = True, pe_client_first = True,
     pe_cut_upstream = 0, pe_cut_client = 0\<rparr>"

lemma demo_stream_foreign:
  "stream_protocol id (\<lambda>_. replicate 56 CHR ''a'') (sc_upstreams demo_server) [1, 2] = None"
  by (auto simp: stream_protocol_def Let_def demo_server_def new_server_connection_def demo_config_def
      trojan_headers_def encode_secret_for_http1_def dest: prefix_length_le)

lemma camouflage_witness:
  "\<exists>v s'. handle_connection (\<lambda>_. []) (\<lambda>p c. c + 1) demo_tls demo_env demo_proxy True 0 demo_server [Recv [1], Recv [2], Eof] =
      (Ok v, s') \<and> served_complete v \<and> served_reply v = [9] \<and>
      (\<exists>address plain. served_upstream v = Some (address, plain, [1, 2]))"
proof -
  have loaded: "loaded (sc_domains demo_server)"
    using demo_load [of "''b''" 0]
    by (simp add: demo_server_def new_server_connection_def loaded_def plain_dns_name_def suffix_def sublist_def
        append_eq_Cons_conv Cons_eq_append_conv) blast
  have tls: "\<not> tls_panics demo_tls" by (simp add: tls_panics_def demo_tls_def)
  obtain domain negotiated where est: "process_tls_handshake demo_tls demo_server = Ok (TlsEstablished domain negotiated)"
    using negotiate_tls_loaded [OF loaded, of None None]
    by (cases "negotiate_tls None None demo_server") (auto simp: process_tls_handshake_def demo_tls_def)
  have addr: "proxied_addresses (sc_peer_addr demo_server) (sc_local_addr demo_server) = Some (Inet 7 9 8 10)"
    by (simp add: demo_server_def new_server_connection_def)
  have fine: "upstream_fine demo_proxy d" for d
    by (simp add: upstream_fine_def demo_proxy_def empty_sink_def)
  have "stream_protocol id (\<lambda>_. replicate 56 CHR ''a'') (sc_upstreams demo_server) (arriving [Recv [1], Recv [2], Eof]) = None"
    using demo_stream_foreign by simp
  moreover have "sink_data (pe_to_upstream demo_proxy) = []" "sink_data (pe_to_client demo_proxy) = []"
    by (simp_all add: demo_proxy_def empty_sink_def)
  ultimately show ?thesis
    using camouflage [OF demo_configured loaded tls addr, where s = "[Recv [1], Recv [2], Eof]" and pe = demo_proxy and
        env = demo_env and in_time = True and sent = 0 and show_addr = "\<lambda>_. []" and push_alpn = "\<lambda>p c. c + 1"]
      est demo_env_fine fine by (auto simp: mimics_def) (simp_all add: demo_proxy_def)
qed

end
