(* ===== verification/Stat.thy ===== *)
theory Stat imports Prelude begin

unbundle bit_operations_syntax

text \<open>
  \<open>src/src/transport/stat.rs\<close> and the encoding helpers of \<open>src/src/metrics/encoding.rs\<close>:
  the traffic counters of a connection and the samples it reports.

  The metrics encoder is the \<open>prometheus-client\<close> crate's, so it is the parameter \<open>emit\<close>: it
  takes a sample and the encoder and gives the encoder back, or fails.  The socket queries
  (\<open>getsockopt\<close>, \<open>ioctl\<close>) are system calls; their results are the record \<open>socket_probe\<close>.
  The \<open>tcp_info\<close> layout and its congestion states come from \<open>bindgen\<close>, so the states'
  numbers are the parameter record \<open>tcp_ca_states\<close>.
\<close>

section \<open>Samples\<close>

type_synonym labels = "(string \<times> string) list"

text \<open>A counter; a gauge; a time counter, whose \<open>f64\<close> number of seconds is kept as the microseconds
  \<open>usecs_to_counter\<close> is given, or as the nanoseconds it was increased by; a histogram, of which the
  number of observations is kept.\<close>

datatype metric_value = CounterOf u64 | GaugeOf int | SecondsOf u64 | ElapsedOf nat | ObservedOf nat

record sample =
  sample_name :: string
  sample_labels :: labels
  sample_value :: metric_value

definition TRANSPORT_LABEL :: string where "TRANSPORT_LABEL = ''transport''"
definition CONNECTION_LABEL :: string where "CONNECTION_LABEL = ''connection''"

definition transport_labels :: "string \<Rightarrow> labels" where
  "transport_labels name = [(TRANSPORT_LABEL, name)]"

definition usecs_to_counter :: "u64 \<Rightarrow> metric_value" where
  "usecs_to_counter usecs = SecondsOf usecs"

definition collect_family ::
  "(sample \<Rightarrow> 'enc \<Rightarrow> 'enc option) \<Rightarrow> string \<Rightarrow> labels \<Rightarrow> metric_value \<Rightarrow> 'enc \<Rightarrow> 'enc option" where
  "collect_family emit name ls v enc =
     emit \<lparr>sample_name = name, sample_labels = ls, sample_value = v\<rparr> enc"

text \<open>A run of \<open>collect_family(...)?\<close> calls stops at the first that fails.\<close>

fun collect_all ::
  "(sample \<Rightarrow> 'enc \<Rightarrow> 'enc option) \<Rightarrow> (string \<times> labels \<times> metric_value) list \<Rightarrow> 'enc \<Rightarrow> 'enc option" where
  "collect_all emit [] enc = Some enc"
| "collect_all emit ((name, ls, v) # rest) enc =
     (case collect_family emit name ls v enc of
        None \<Rightarrow> None
      | Some enc' \<Rightarrow> collect_all emit rest enc')"

lemma collect_all_append:
  "collect_all emit (xs @ ys) enc = Option.bind (collect_all emit xs enc) (collect_all emit ys)"
  by (induction xs arbitrary: enc rule: list.induct) (auto split: option.splits)

section \<open>The counters of a connection\<close>

record conn_stat =
  stat_name :: string
  stat_labels :: labels
  received_packets :: u64
  received_data :: u64
  sent_packets :: u64
  sent_data :: u64
  dropped_packets :: u64

definition new_stat :: "string \<Rightarrow> string \<Rightarrow> conn_stat" where
  "new_stat transport_name connection_name =
     \<lparr>stat_name = connection_name,
      stat_labels = [(TRANSPORT_LABEL, transport_name), (CONNECTION_LABEL, connection_name)],
      received_packets = 0, received_data = 0, sent_packets = 0, sent_data = 0,
      dropped_packets = 0\<rparr>"

definition on_packet_received :: "bytes \<Rightarrow> conn_stat \<Rightarrow> conn_stat" where
  "on_packet_received packet st =
     st\<lparr>received_packets := received_packets st + 1,
        received_data := received_data st + word_of_nat (length packet)\<rparr>"

definition on_packet_sent :: "bytes \<Rightarrow> conn_stat \<Rightarrow> conn_stat" where
  "on_packet_sent packet st =
     st\<lparr>sent_packets := sent_packets st + 1,
        sent_data := sent_data st + word_of_nat (length packet)\<rparr>"

definition on_packet_dropped :: "conn_stat \<Rightarrow> conn_stat" where
  "on_packet_dropped st = st\<lparr>dropped_packets := dropped_packets st + 1\<rparr>"

lemmas stat_defs = on_packet_received_def on_packet_sent_def on_packet_dropped_def

text \<open>Each event touches its own counters only.\<close>

lemma stat_frame [simp]:
  "sent_packets (on_packet_received p st) = sent_packets st"
  "dropped_packets (on_packet_received p st) = dropped_packets st"
  "received_packets (on_packet_sent p st) = received_packets st"
  "dropped_packets (on_packet_sent p st) = dropped_packets st"
  "received_packets (on_packet_dropped st) = received_packets st"
  "sent_packets (on_packet_dropped st) = sent_packets st"
  "stat_labels (on_packet_received p st) = stat_labels st"
  "stat_labels (on_packet_sent p st) = stat_labels st"
  "stat_labels (on_packet_dropped st) = stat_labels st"
  by (simp_all add: stat_defs)

lemma on_packet_received_counts [simp]:
  "received_packets (on_packet_received p st) = received_packets st + 1"
  "received_data (on_packet_received p st) = received_data st + word_of_nat (length p)"
  by (simp_all add: stat_defs)

lemma on_packet_sent_counts [simp]:
  "sent_packets (on_packet_sent p st) = sent_packets st + 1"
  "sent_data (on_packet_sent p st) = sent_data st + word_of_nat (length p)"
  by (simp_all add: stat_defs)

lemma on_packet_dropped_counts [simp]:
  "dropped_packets (on_packet_dropped st) = dropped_packets st + 1"
  by (simp add: stat_defs)

text \<open>Receiving a run of packets adds their number and their total length, modulo the width of
  the counters.\<close>

lemma fold_on_packet_received:
  "received_packets (fold on_packet_received ps st) = received_packets st + word_of_nat (length ps)"
  "received_data (fold on_packet_received ps st) =
     received_data st + word_of_nat (length (concat ps))"
  by (induction ps arbitrary: st) auto

section \<open>What a connection reports\<close>

definition stat_families :: "conn_stat \<Rightarrow> (string \<times> labels \<times> metric_value) list" where
  "stat_families st =
     [(''connection_received_packets'', stat_labels st, CounterOf (received_packets st)),
      (''connection_received_bytes'', stat_labels st, CounterOf (received_data st)),
      (''connection_sent_packets'', stat_labels st, CounterOf (sent_packets st)),
      (''connection_sent_bytes'', stat_labels st, CounterOf (sent_data st)),
      (''connection_dropped_packets'', stat_labels st, CounterOf (dropped_packets st))]"

definition collect_stat :: "(sample \<Rightarrow> 'enc \<Rightarrow> 'enc option) \<Rightarrow> conn_stat \<Rightarrow> 'enc \<Rightarrow> 'enc option" where
  "collect_stat emit st = collect_all emit (stat_families st)"

record tcp_ca_states =
  TCP_CA_Open :: u32
  TCP_CA_Disorder :: u32
  TCP_CA_CWR :: u32
  TCP_CA_Recovery :: u32
  TCP_CA_Loss :: u32

record tcp_info =
  tcpi_ca_state :: u8
  tcpi_rcv_wnd :: u32
  tcpi_snd_wnd :: u32
  tcpi_reord_seen :: u32
  tcpi_total_retrans :: u32
  tcpi_snd_cwnd :: u32
  tcpi_notsent_bytes :: u32
  tcpi_busy_time :: u64
  tcpi_rwnd_limited :: u64
  tcpi_sndbuf_limited :: u64

text \<open>What the system calls answer: an error or a value.\<close>

record socket_probe =
  probe_tcp_info :: "string + tcp_info"
  probe_unread :: "string + int"
  probe_unsent :: "string + int"
  probe_rcvbuf :: "string + int"
  probe_sndbuf :: "string + int"

definition ca_state_label :: "tcp_ca_states \<Rightarrow> tcp_info \<Rightarrow> string" where
  "ca_state_label ca info =
     (let state = ucast (tcpi_ca_state info) in
      if state = TCP_CA_Open ca then ''ok''
      else if state = TCP_CA_Disorder ca then ''disorder''
      else if state = TCP_CA_CWR ca then ''congestion-window-reduction''
      else if state = TCP_CA_Recovery ca then ''fast-recovery''
      else if state = TCP_CA_Loss ca then ''loss-recovery''
      else ''unknown'')"

text \<open>The kernel's busy time includes the two stalls, which are taken out again; the subtraction
  is on \<open>u64\<close> and wraps in a release build.\<close>

definition actual_busy_time :: "tcp_info \<Rightarrow> u64" where
  "actual_busy_time info = tcpi_busy_time info - tcpi_rwnd_limited info - tcpi_sndbuf_limited info"

definition gauge_u32 :: "u32 \<Rightarrow> metric_value" where
  "gauge_u32 w = GaugeOf (uint w)"

definition tcp_info_families ::
  "tcp_ca_states \<Rightarrow> labels \<Rightarrow> tcp_info \<Rightarrow> (string \<times> labels \<times> metric_value) list" where
  "tcp_info_families ca ls info =
     [(''socket_state'', ls @ [(''state'', ca_state_label ca info)], GaugeOf 1),
      (''socket_receive_window_bytes'', ls, gauge_u32 (tcpi_rcv_wnd info)),
      (''socket_send_window_bytes'', ls, gauge_u32 (tcpi_snd_wnd info)),
      (''socket_reordered_packets'', ls, CounterOf (ucast (tcpi_reord_seen info))),
      (''socket_retransmits'', ls, CounterOf (ucast (tcpi_total_retrans info))),
      (''socket_send_congestion_window'', ls, gauge_u32 (tcpi_snd_cwnd info)),
      (''socket_not_sent_bytes'', ls, gauge_u32 (tcpi_notsent_bytes info)),
      (''socket_busy_seconds'', ls, usecs_to_counter (actual_busy_time info)),
      (''socket_stalled_by_receive_window_seconds'', ls, usecs_to_counter (tcpi_rwnd_limited info)),
      (''socket_stalled_by_insufficient_send_buffer_seconds'', ls,
         usecs_to_counter (tcpi_sndbuf_limited info))]"

text \<open>A query that fails is logged, and its sample is left out.\<close>

definition optional_gauge :: "string \<Rightarrow> labels \<Rightarrow> string + int \<Rightarrow> (string \<times> labels \<times> metric_value) list" where
  "optional_gauge name ls r = (case r of Inr v \<Rightarrow> [(name, ls, GaugeOf v)] | Inl err \<Rightarrow> [])"

definition ip_socket_families ::
  "conn_stat \<Rightarrow> socket_probe \<Rightarrow> (string \<times> labels \<times> metric_value) list" where
  "ip_socket_families st probe =
     optional_gauge ''socket_receive_buffer_bytes'' (stat_labels st) (probe_rcvbuf probe) @
     optional_gauge ''socket_send_buffer_bytes'' (stat_labels st) (probe_sndbuf probe)"

definition tcp_socket_families ::
  "tcp_ca_states \<Rightarrow> conn_stat \<Rightarrow> socket_probe \<Rightarrow> (string \<times> labels \<times> metric_value) list" where
  "tcp_socket_families ca st probe =
     (case probe_tcp_info probe of
        Inr info \<Rightarrow> tcp_info_families ca (stat_labels st) info
      | Inl err \<Rightarrow> []) @
     optional_gauge ''socket_not_read_bytes'' (stat_labels st) (probe_unread probe) @
     optional_gauge ''socket_not_transferred_bytes'' (stat_labels st) (probe_unsent probe) @
     ip_socket_families st probe"

definition udp_socket_families ::
  "conn_stat \<Rightarrow> socket_probe \<Rightarrow> (string \<times> labels \<times> metric_value) list" where
  "udp_socket_families st probe =
     optional_gauge ''socket_not_sent_bytes'' (stat_labels st) (probe_unsent probe) @
     ip_socket_families st probe"

definition collect_tcp_socket ::
  "(sample \<Rightarrow> 'enc \<Rightarrow> 'enc option) \<Rightarrow> tcp_ca_states \<Rightarrow> conn_stat \<Rightarrow> socket_probe \<Rightarrow> 'enc \<Rightarrow> 'enc option" where
  "collect_tcp_socket emit ca st probe = collect_all emit (tcp_socket_families ca st probe)"

definition collect_udp_socket ::
  "(sample \<Rightarrow> 'enc \<Rightarrow> 'enc option) \<Rightarrow> conn_stat \<Rightarrow> socket_probe \<Rightarrow> 'enc \<Rightarrow> 'enc option" where
  "collect_udp_socket emit st probe = collect_all emit (udp_socket_families st probe)"

section \<open>Facts about the report\<close>

lemma unat_actual_busy_time:
  assumes "unat (tcpi_rwnd_limited info) + unat (tcpi_sndbuf_limited info) \<le> unat (tcpi_busy_time info)"
  shows "unat (actual_busy_time info) =
    unat (tcpi_busy_time info) - unat (tcpi_rwnd_limited info) - unat (tcpi_sndbuf_limited info)"
  using assms by (simp add: actual_busy_time_def unat_sub word_le_nat_alt)

text \<open>Every sample of a socket carries the connection's own labels first, so samples of two
  connections are never confused.\<close>

lemma optional_gauge_labels: "(n, ls', v) \<in> set (optional_gauge m ls r) \<Longrightarrow> ls' = ls"
  by (auto simp: optional_gauge_def split: sum.splits)

lemma tcp_socket_labels:
  "(n, ls, v) \<in> set (tcp_socket_families ca st probe) \<Longrightarrow> take (length (stat_labels st)) ls = stat_labels st"
  by (auto simp: tcp_socket_families_def ip_socket_families_def tcp_info_families_def
      split: sum.splits dest!: optional_gauge_labels)

end
