(* ===== verification/PacketReader.thy ===== *)
theory PacketReader imports Wire Stat begin

unbundle bit_operations_syntax

text \<open>
  \<open>PacketReader\<close> of \<open>src/src/transport/http/common.rs\<close>: the framing of IP packets inside an
  HTTPS connection.  A packet carries its own length in its IPv4 or IPv6 header; a frame whose
  first byte is zero is the fake HTTP response that the server sends before it closes.

  The reader keeps a buffer of \<open>MTU\<close> bytes, how much of it is filled, the size of the packet
  being read once its header has told it, bytes that the routing stage read ahead, the socket,
  and the channel on which the writing half reports that the connection is broken.

  \<open>reader_view\<close> is the abstract reader: a buffer of what has been read and the bytes still to
  come, whatever their segmentation.  \<open>read_data\<close> and \<open>read_packet\<close> are proved to compute on
  that view (\<open>read_data_refines\<close>, \<open>read_packet_spec\<close>), and so to depend on the bytes of the
  stream only.
\<close>

section \<open>State\<close>

text \<open>The receiving end of a \<open>oneshot\<close> channel: nothing yet, a message, or the sender is gone
  or the message was taken.\<close>

datatype oneshot = Waiting | Sent string | Closed

datatype read_error =
    ConnectionBroken string
  | WriterFailed string
  | UnexpectedClose
  | InvalidFakeResponseSize nat
  | UnexpectedFakeResponse
  | InvalidHeader bytes
  | InvalidPacketSize u8 nat

record packet_reader =
  pr_buf :: bytes
  data_size :: nat
  packet_size :: "nat option"
  preread_data :: "bytes option"
  pr_connection :: socket
  error_receiver :: oneshot
  pr_stat :: conn_stat

definition new_reader :: "bytes \<Rightarrow> bytes \<Rightarrow> socket \<Rightarrow> oneshot \<Rightarrow> conn_stat \<Rightarrow> packet_reader" where
  "new_reader junk preread connection receiver st =
     \<lparr>pr_buf = junk, data_size = 0, packet_size = None,
      preread_data = (if preread = [] then None else Some preread),
      pr_connection = connection, error_receiver = receiver, pr_stat = st\<rparr>"

section \<open>Reading data\<close>

text \<open>One read of at most \<open>n\<close> bytes: from the bytes read ahead while there are any, then from
  the socket.  The \<open>select!\<close> is biased, so the error channel is looked at only when the socket
  has nothing to give; a channel whose sender is gone never completes.\<close>

definition reader_next :: "nat \<Rightarrow> packet_reader \<Rightarrow> (read_error, bytes) outcome \<times> packet_reader" where
  "reader_next n r =
     (case preread_data r of
        Some pre \<Rightarrow>
          let k = min n (length pre) in
          (Ok (take k pre),
           r\<lparr>preread_data := (if drop k pre = [] then None else Some (drop k pre))\<rparr>)
      | None \<Rightarrow>
          (case socket_read n (pr_connection r) of
             (Ok bs, s) \<Rightarrow> (Ok bs, r\<lparr>pr_connection := s\<rparr>)
           | (Err e, s) \<Rightarrow> (Err (ConnectionBroken e), r\<lparr>pr_connection := s\<rparr>)
           | (Panic, s) \<Rightarrow> (Panic, r\<lparr>pr_connection := s\<rparr>)
           | (Pending, s) \<Rightarrow>
               (case error_receiver r of
                  Sent msg \<Rightarrow> (Err (WriterFailed msg),
                               r\<lparr>pr_connection := s, error_receiver := Closed\<rparr>)
                | _ \<Rightarrow> (Pending, r\<lparr>pr_connection := s\<rparr>))))"

text \<open>\<open>read_data(sz)\<close> fills the buffer up to \<open>sz\<close>; \<open>Ok False\<close> means that the stream ended
  before the first byte.  A \<open>sz\<close> beyond the buffer would panic in the slice.\<close>

function read_data :: "nat \<Rightarrow> packet_reader \<Rightarrow> (read_error, bool) outcome \<times> packet_reader" where
  "read_data sz r =
     (if sz \<le> data_size r then (Ok True, r)
      else if preread_data r = None \<and> length (pr_buf r) < sz then (Panic, r)
      else case reader_next (sz - data_size r) r of
        (Ok bs, r') \<Rightarrow>
          if length (pr_buf r') < data_size r + length bs then (Panic, r')
          else if bs = [] then
            (if data_size r = 0 then (Ok False, r') else (Err UnexpectedClose, r'))
          else read_data sz (r'\<lparr>pr_buf := overwrite (data_size r) bs (pr_buf r'),
                                  data_size := data_size r + length bs\<rparr>)
      | (Err e, r') \<Rightarrow> (Err e, r')
      | (Panic, r') \<Rightarrow> (Panic, r')
      | (Pending, r') \<Rightarrow> (Pending, r'))"
  by pat_completeness auto
termination
  by (relation "measure (\<lambda>(sz, r). sz - data_size r)") (auto simp: neq_Nil_conv)

declare read_data.simps [simp del]

lemma reader_next_frame:
  "reader_next n r = (res, r') \<Longrightarrow>
    pr_buf r' = pr_buf r \<and> data_size r' = data_size r \<and> packet_size r' = packet_size r \<and>
    pr_stat r' = pr_stat r"
  by (auto simp: reader_next_def Let_def split: option.splits prod.splits outcome.splits oneshot.splits)

lemma read_data_frame:
  "read_data sz r = (res, r') \<Longrightarrow> packet_size r' = packet_size r \<and> pr_stat r' = pr_stat r"
proof (induction sz r arbitrary: res r' rule: read_data.induct)
  case (1 sz r)
  note eq = "1.prems" [unfolded read_data.simps [of sz r]]
  show ?case
  proof (cases "sz \<le> data_size r \<or> preread_data r = None \<and> length (pr_buf r) < sz")
    case True
    with eq show ?thesis by (auto split: if_splits)
  next
    case False
    obtain x r1 where nx: "reader_next (sz - data_size r) r = (x, r1)" by fastforce
    note fr = reader_next_frame [OF nx]
    show ?thesis
    proof (cases x)
      case (Ok bs)
      show ?thesis
      proof (cases "length (pr_buf r1) < data_size r + length bs \<or> bs = []")
        case True
        with eq nx Ok False fr show ?thesis by (auto split: if_splits)
      next
        case more: False
        with False have g: "\<not> sz \<le> data_size r"
          "\<not> (preread_data r = None \<and> length (pr_buf r) < sz)"
          "\<not> length (pr_buf r1) < data_size r + length bs" "bs \<noteq> []" by auto
        from eq nx Ok g have "read_data sz (r1\<lparr>pr_buf := overwrite (data_size r) bs (pr_buf r1),
            data_size := data_size r + length bs\<rparr>) = (res, r')" by simp
        from "1.IH" [OF g(1,2) nx [symmetric] Ok g(3,4) this] fr show ?thesis by simp
      qed
    qed (use eq nx False fr in auto)
  qed
qed

section \<open>Reading packets\<close>

text \<open>The rest of the fake HTTP response: its body, then the peer's shutdown.  The first read
  cannot find the stream already ended, which the source asserts.\<close>

definition read_fake_response ::
  "packet_reader \<Rightarrow> (read_error, bytes option) outcome \<times> packet_reader" where
  "read_fake_response r =
     (let sz = 3 + unat (from_be_bytes [pr_buf r ! 1, pr_buf r ! 2] :: u16) in
      if length (pr_buf r) < sz then (Err (InvalidFakeResponseSize sz), r)
      else case read_data sz r of
        (Ok True, r1) \<Rightarrow>
          (case read_data 1 (r1\<lparr>data_size := 0\<rparr>) of
             (Ok True, r2) \<Rightarrow> (Err UnexpectedFakeResponse, r2)
           | (Ok False, r2) \<Rightarrow> (Ok None, r2)
           | (Err e, r2) \<Rightarrow> (Err e, r2)
           | (Panic, r2) \<Rightarrow> (Panic, r2)
           | (Pending, r2) \<Rightarrow> (Pending, r2))
      | (Ok False, r1) \<Rightarrow> (Panic, r1)
      | (Err e, r1) \<Rightarrow> (Err e, r1)
      | (Panic, r1) \<Rightarrow> (Panic, r1)
      | (Pending, r1) \<Rightarrow> (Pending, r1))"

text \<open>What the six bytes of a header say: the version, the least size and the size of the packet.\<close>

definition packet_version :: "bytes \<Rightarrow> u8" where
  "packet_version b = drop_bit 4 (b ! 0)"

definition header_sizes :: "bytes \<Rightarrow> (nat \<times> nat) option" where
  "header_sizes b =
     (if packet_version b = 4 then
        Some (IPV4_HEADER_SIZE, unat (from_be_bytes [b ! 2, b ! 3] :: u16))
      else if packet_version b = 6 then
        Some (IPV6_HEADER_SIZE, unat (from_be_bytes [b ! 4, b ! 5] :: u16) + IPV6_HEADER_SIZE)
      else None)"

function read_packet :: "packet_reader \<Rightarrow> (read_error, bytes option) outcome \<times> packet_reader" where
  "read_packet r =
     (case read_data (case packet_size r of None \<Rightarrow> 6 | Some n \<Rightarrow> n) r of
        (Err e, r1) \<Rightarrow> (Err e, r1)
      | (Panic, r1) \<Rightarrow> (Panic, r1)
      | (Pending, r1) \<Rightarrow> (Pending, r1)
      | (Ok False, r1) \<Rightarrow> (Ok None, r1)
      | (Ok True, r1) \<Rightarrow>
          (case packet_size r1 of
             Some n \<Rightarrow>
               if length (pr_buf r1) < n then (Panic, r1\<lparr>packet_size := None, data_size := 0\<rparr>)
               else (Ok (Some (take n (pr_buf r1))),
                     r1\<lparr>packet_size := None, data_size := 0,
                        pr_stat := on_packet_received (take n (pr_buf r1)) (pr_stat r1)\<rparr>)
           | None \<Rightarrow>
               if length (pr_buf r1) < 6 then (Panic, r1)
               else if pr_buf r1 ! 0 = 0 then read_fake_response r1
               else (case header_sizes (pr_buf r1) of
                   None \<Rightarrow> (Err (InvalidHeader (take (data_size r1) (pr_buf r1))), r1)
                 | Some (min_size, sz) \<Rightarrow>
                     if sz < min_size \<or> length (pr_buf r1) < sz
                     then (Err (InvalidPacketSize (packet_version (pr_buf r1)) sz), r1)
                     else read_packet (r1\<lparr>packet_size := Some sz\<rparr>))))"
  by pat_completeness auto
termination
proof (relation "measure (\<lambda>r. case packet_size r of None \<Rightarrow> 1 | Some n \<Rightarrow> 0)", goal_cases)
  case 1
  show ?case by simp
next
  case (2 r p res r1 ok u)
  then show ?case by (auto dest!: read_data_frame [OF sym] split: option.splits)
qed

declare read_packet.simps [simp del]

section \<open>The reader as a byte source\<close>

text \<open>What is still to come, and what a read gives when it is all used up.\<close>

definition reader_left :: "packet_reader \<Rightarrow> bytes" where
  "reader_left r = (case preread_data r of None \<Rightarrow> [] | Some pre \<Rightarrow> pre) @ arriving (pr_connection r)"

fun reader_end :: "(string, bytes) outcome \<Rightarrow> oneshot \<Rightarrow> (read_error, bytes) outcome" where
  "reader_end (Ok bs) rx = Ok bs"
| "reader_end (Err e) rx = Err (ConnectionBroken e)"
| "reader_end Panic rx = Panic"
| "reader_end Pending (Sent msg) = Err (WriterFailed msg)"
| "reader_end Pending rx = Pending"

definition reader_fin :: "packet_reader \<Rightarrow> (read_error, bytes) outcome" where
  "reader_fin r = reader_end (ending (pr_connection r)) (error_receiver r)"

definition source_ok :: "packet_reader \<Rightarrow> bool" where
  "source_ok r \<longleftrightarrow> preread_data r \<noteq> Some []"

lemma reader_next_some:
  assumes "0 < n" "source_ok r" "reader_left r \<noteq> []"
  shows "\<exists>bs r'. reader_next n r = (Ok bs, r') \<and> bs \<noteq> [] \<and> reader_left r = bs @ reader_left r' \<and>
    reader_fin r' = reader_fin r \<and> source_ok r'"
proof (cases "preread_data r")
  case None
  with assms(3) have "arriving (pr_connection r) \<noteq> []" by (simp add: reader_left_def)
  from socket_read_some [OF assms(1) this] obtain bs s where
    "socket_read n (pr_connection r) = (Ok bs, s)" "bs \<noteq> []"
    "arriving (pr_connection r) = bs @ arriving s" "ending s = ending (pr_connection r)" by blast
  with None show ?thesis
    by (simp add: reader_next_def reader_left_def reader_fin_def source_ok_def)
next
  case (Some pre)
  with assms(1,2) show ?thesis
    by (auto simp: reader_next_def reader_left_def reader_fin_def source_ok_def Let_def min_def)
qed

lemma reader_next_none:
  assumes "0 < n" "source_ok r" "reader_left r = []"
  shows "\<exists>r'. reader_next n r = (reader_fin r, r') \<and> reader_left r' = [] \<and> source_ok r'"
proof -
  from assms(2,3) have pre: "preread_data r = None" and none: "arriving (pr_connection r) = []"
    by (auto simp: reader_left_def source_ok_def split: option.splits)
  from socket_read_none [OF assms(1) none] obtain s where
    "socket_read n (pr_connection r) = (ending (pr_connection r), s)" "arriving s = []" by blast
  with pre show ?thesis
    by (cases "ending (pr_connection r)"; cases "error_receiver r")
      (auto simp: reader_next_def reader_left_def reader_fin_def source_ok_def)
qed

lemma reader_fin_empty: "reader_fin r = Ok bs \<Longrightarrow> bs = []"
  by (cases "ending (pr_connection r)"; cases "error_receiver r")
    (auto simp: reader_fin_def dest: ending_empty)

lemma reader_next_bound: "0 < n \<Longrightarrow> reader_next n r = (Ok bs, r') \<Longrightarrow> length bs \<le> n"
  by (auto simp: reader_next_def Let_def dest: socket_read_bound
      split: option.splits prod.splits outcome.splits oneshot.splits)

interpretation reader: bounded_source reader_next reader_left reader_fin source_ok
  by unfold_locales
    (simp_all add: reader_next_some reader_next_none reader_fin_empty reader_next_bound)

section \<open>\<open>read_data\<close> on the abstract reader\<close>

definition reader_got :: "packet_reader \<Rightarrow> bytes" where
  "reader_got r = take (data_size r) (pr_buf r)"

definition buf_ok :: "packet_reader \<Rightarrow> bool" where
  "buf_ok r \<longleftrightarrow> length (pr_buf r) = MTU \<and> data_size r \<le> MTU \<and> source_ok r"

lemma length_reader_got: "buf_ok r \<Longrightarrow> length (reader_got r) = data_size r"
  by (simp add: reader_got_def buf_ok_def)

lemma read_data_done: "sz \<le> data_size r \<Longrightarrow> read_data sz r = (Ok True, r)"
  by (simp add: read_data.simps)

lemma read_data_step:
  assumes "buf_ok r" "data_size r < sz" "sz \<le> MTU" "reader_left r \<noteq> []"
  obtains bs r' where "bs \<noteq> []" "read_data sz r = read_data sz r'" "buf_ok r'"
    "reader_got r' = reader_got r @ bs" "reader_left r = bs @ reader_left r'"
    "reader_fin r' = reader_fin r" "data_size r' = data_size r + length bs" "data_size r' \<le> sz"
proof -
  let ?n = "sz - data_size r"
  have n: "0 < ?n" and ok: "source_ok r" using assms by (auto simp: buf_ok_def)
  from reader.rd_some [OF n ok assms(4)] obtain bs r1 where
    nx: "reader_next ?n r = (Ok bs, r1)" and bs: "bs \<noteq> []"
    and left: "reader_left r = bs @ reader_left r1" and fin: "reader_fin r1 = reader_fin r"
    and ok1: "source_ok r1" by blast
  have bound: "length bs \<le> ?n" using reader.rd_bound [OF n nx] .
  have fr: "pr_buf r1 = pr_buf r" "data_size r1 = data_size r"
    using reader_next_frame [OF nx] by simp_all
  have fits: "data_size r + length bs \<le> MTU" using bound assms(2,3) by simp
  let ?r' = "r1\<lparr>pr_buf := overwrite (data_size r) bs (pr_buf r1), data_size := data_size r + length bs\<rparr>"
  have "read_data sz r = read_data sz ?r'"
    using assms nx bs fits fr by (subst read_data.simps) (simp add: buf_ok_def)
  moreover have "buf_ok ?r'"
    using assms(1) fits ok1 fr by (simp add: buf_ok_def source_ok_def)
  moreover have "reader_got ?r' = reader_got r @ bs"
    using assms(1) fits fr by (simp add: reader_got_def buf_ok_def take_overwrite)
  moreover have "reader_left ?r' = reader_left r1" "reader_fin ?r' = reader_fin r1"
    by (simp_all add: reader_left_def reader_fin_def)
  ultimately show ?thesis
    using that [of bs ?r'] bs left fin bound assms(2) by simp
qed

lemma read_data_enough:
  assumes "buf_ok r" "sz \<le> MTU" "sz \<le> data_size r + length (reader_left r)"
  shows "\<exists>r'. read_data sz r = (Ok True, r') \<and> buf_ok r' \<and> data_size r' = max sz (data_size r) \<and>
    reader_got r' = reader_got r @ take (sz - data_size r) (reader_left r) \<and>
    reader_left r' = drop (sz - data_size r) (reader_left r) \<and> reader_fin r' = reader_fin r"
  using assms
proof (induction "sz - data_size r" arbitrary: r rule: less_induct)
  case less
  show ?case
  proof (cases "sz \<le> data_size r")
    case True
    with less.prems show ?thesis by (simp add: read_data_done max_def)
  next
    case False
    then have "data_size r < sz" "reader_left r \<noteq> []" using less.prems by auto
    with less.prems obtain bs r1 where st: "bs \<noteq> []" "read_data sz r = read_data sz r1" "buf_ok r1"
      "reader_got r1 = reader_got r @ bs" "reader_left r = bs @ reader_left r1"
      "reader_fin r1 = reader_fin r" "data_size r1 = data_size r + length bs" "data_size r1 \<le> sz"
      using read_data_step [of r sz] by blast
    have "sz - data_size r1 < sz - data_size r" "sz \<le> data_size r1 + length (reader_left r1)"
      using st(1,5,7,8) less.prems(3) False by (cases bs; simp)+
    from less.hyps [OF this(1) st(3) less.prems(2) this(2)] st less.prems(3) False
    show ?thesis by (auto simp: max_def)
  qed
qed

text \<open>When the stream ends first, \<open>read_data\<close> gives the end's outcome: \<open>Ok False\<close> if nothing had
  been read at all, an error if a frame was cut short.\<close>

fun data_end :: "bool \<Rightarrow> (read_error, bytes) outcome \<Rightarrow> (read_error, bool) outcome" where
  "data_end nothing (Ok bs) = (if nothing then Ok False else Err UnexpectedClose)"
| "data_end nothing (Err e) = Err e"
| "data_end nothing Panic = Panic"
| "data_end nothing Pending = Pending"

lemma read_data_short:
  assumes "buf_ok r" "sz \<le> MTU" "data_size r + length (reader_left r) < sz"
  shows "\<exists>r'. read_data sz r = (data_end (reader_got r @ reader_left r = []) (reader_fin r), r') \<and>
    buf_ok r' \<and> reader_left r' = []"
  using assms
proof (induction "sz - data_size r" arbitrary: r rule: less_induct)
  case less
  show ?case
  proof (cases "reader_left r = []")
    case True
    have n: "0 < sz - data_size r" and ok: "source_ok r"
      using less.prems by (auto simp: buf_ok_def)
    from reader.rd_none [OF n ok True] obtain r1 where
      nx: "reader_next (sz - data_size r) r = (reader_fin r, r1)" "reader_left r1 = []" "source_ok r1"
      by blast
    have "buf_ok r1" using nx less.prems(1) reader_next_frame [OF nx(1)] by (simp add: buf_ok_def)
    moreover have "reader_got r = [] \<longleftrightarrow> data_size r = 0"
      using length_reader_got [OF less.prems(1)] by auto
    ultimately show ?thesis
      using nx less.prems True reader_next_frame [OF nx(1)]
      by (cases "reader_fin r")
        (auto simp: read_data.simps [of sz r] buf_ok_def dest: reader_fin_empty)
  next
    case False
    then have "data_size r < sz" using less.prems by auto
    with False less.prems obtain bs r1 where st: "bs \<noteq> []" "read_data sz r = read_data sz r1"
      "buf_ok r1" "reader_got r1 = reader_got r @ bs" "reader_left r = bs @ reader_left r1"
      "reader_fin r1 = reader_fin r" "data_size r1 = data_size r + length bs" "data_size r1 \<le> sz"
      using read_data_step [of r sz] by blast
    have "sz - data_size r1 < sz - data_size r" "data_size r1 + length (reader_left r1) < sz"
      using st(1,5,7,8) less.prems(3) by (cases bs; simp)+
    from less.hyps [OF this(1) st(3) less.prems(2) this(2)] st show ?thesis by simp
  qed
qed

lemma reader_fin_not_panic [simp]: "reader_fin r \<noteq> Panic"
  using ending_not_panic [of "pr_connection r"]
  by (cases "ending (pr_connection r)"; cases "error_receiver r")
    (simp_all add: reader_fin_def del: ending_not_panic)

lemma data_end_not_True [simp]: "data_end b f \<noteq> Ok True"
  by (cases f) auto

section \<open>The abstract reader\<close>

text \<open>One frame at the front of a byte string, as the framing rules describe it.\<close>

datatype frame =
    Packet bytes bytes
  | FakeResponse nat
  | BadHeader
  | BadSize u8 nat
  | Incomplete

definition parse_frame :: "bytes \<Rightarrow> frame" where
  "parse_frame s =
     (if length s < 6 then Incomplete
      else if s ! 0 = 0 then FakeResponse (3 + unat (from_be_bytes [s ! 1, s ! 2] :: u16))
      else case header_sizes s of
          None \<Rightarrow> BadHeader
        | Some (min_size, n) \<Rightarrow>
            if n < min_size \<or> MTU < n then BadSize (packet_version s) n
            else if length s < n then Incomplete
            else Packet (take n s) (drop n s))"

text \<open>What a reader that stands at the front of \<open>s\<close> gives, when \<open>fin\<close> is the outcome of a read
  after the last byte of \<open>s\<close>.\<close>

fun packet_end :: "bool \<Rightarrow> (read_error, bytes) outcome \<Rightarrow> (read_error, bytes option) outcome" where
  "packet_end nothing (Ok bs) = (if nothing then Ok None else Err UnexpectedClose)"
| "packet_end nothing (Err e) = Err e"
| "packet_end nothing Panic = Panic"
| "packet_end nothing Pending = Pending"

definition view_read ::
  "bytes \<Rightarrow> (read_error, bytes) outcome \<Rightarrow> (read_error, bytes option) outcome" where
  "view_read s fin =
     (case parse_frame s of
        Packet p rest \<Rightarrow> Ok (Some p)
      | BadHeader \<Rightarrow> Err (InvalidHeader (take 6 s))
      | BadSize v n \<Rightarrow> Err (InvalidPacketSize v n)
      | Incomplete \<Rightarrow> packet_end (s = []) fin
      | FakeResponse n \<Rightarrow>
          if MTU < n then Err (InvalidFakeResponseSize n)
          else if length s < n then packet_end False fin
          else if max 6 n < length s then Err UnexpectedFakeResponse
          else packet_end True fin)"

definition reader_ready :: "packet_reader \<Rightarrow> bool" where
  "reader_ready r \<longleftrightarrow> buf_ok r \<and> data_size r = 0 \<and> packet_size r = None"

lemma new_reader_ready: "length junk = MTU \<Longrightarrow> reader_ready (new_reader junk pre c rx st)"
  by (simp add: reader_ready_def buf_ok_def source_ok_def new_reader_def)

lemma new_reader_view [simp]:
  "reader_left (new_reader junk pre c rx st) = pre @ arriving c"
  "reader_fin (new_reader junk pre c rx st) = reader_end (ending c) rx"
  "pr_stat (new_reader junk pre c rx st) = st"
  by (simp_all add: reader_left_def reader_fin_def new_reader_def)

lemma packet_version_take: "6 \<le> n \<Longrightarrow> packet_version (take n s) = packet_version s"
  by (simp add: packet_version_def)

lemma header_sizes_take: "6 \<le> n \<Longrightarrow> header_sizes (take n s) = header_sizes s"
  by (simp add: header_sizes_def packet_version_take)

lemma reader_got_nth: "i < data_size r \<Longrightarrow> pr_buf r ! i = reader_got r ! i"
  by (simp add: reader_got_def)

text \<open>After a header has been read the buffer starts with it.\<close>

lemma header_sizes_got:
  "6 \<le> data_size r \<Longrightarrow> header_sizes (pr_buf r) = header_sizes (reader_got r)"
  by (simp add: header_sizes_take reader_got_def)

lemma packet_version_got:
  "6 \<le> data_size r \<Longrightarrow> packet_version (pr_buf r) = packet_version (reader_got r)"
  by (simp add: packet_version_take reader_got_def)

text \<open>Enough bytes for the rest of a packet: it is returned, and counted.\<close>

lemma read_packet_body:
  assumes "buf_ok r" "packet_size r = Some n" "n \<le> MTU" "data_size r \<le> n"
    "n \<le> data_size r + length (reader_left r)"
  shows "\<exists>r'. read_packet r = (Ok (Some (reader_got r @ take (n - data_size r) (reader_left r))), r') \<and>
    reader_ready r' \<and> reader_left r' = drop (n - data_size r) (reader_left r) \<and>
    reader_fin r' = reader_fin r \<and>
    pr_stat r' = on_packet_received (reader_got r @ take (n - data_size r) (reader_left r)) (pr_stat r)"
proof -
  from read_data_enough [OF assms(1,3,5)] obtain r1 where
    rd: "read_data n r = (Ok True, r1)" and ok: "buf_ok r1" and ds: "data_size r1 = n"
    and got: "reader_got r1 = reader_got r @ take (n - data_size r) (reader_left r)"
    and left: "reader_left r1 = drop (n - data_size r) (reader_left r)"
    and fin: "reader_fin r1 = reader_fin r"
    using assms(4) by (auto simp: max_def)
  have fr: "packet_size r1 = Some n" "pr_stat r1 = pr_stat r"
    using read_data_frame [OF rd] assms(2) by simp_all
  have pk: "take n (pr_buf r1) = reader_got r @ take (n - data_size r) (reader_left r)"
    using got ds by (simp add: reader_got_def)
  have "\<not> length (pr_buf r1) < n" using ok assms(3) by (simp add: buf_ok_def)
  with rd fr assms(2) pk have "read_packet r =
    (Ok (Some (reader_got r @ take (n - data_size r) (reader_left r))),
     r1\<lparr>packet_size := None, data_size := 0, pr_stat := on_packet_received
       (reader_got r @ take (n - data_size r) (reader_left r)) (pr_stat r)\<rparr>)"
    by (subst read_packet.simps) simp
  with ok left fin show ?thesis
    by (auto simp: reader_ready_def buf_ok_def source_ok_def reader_left_def reader_fin_def)
qed

lemma read_packet_body_short:
  assumes "buf_ok r" "packet_size r = Some n" "n \<le> MTU" "data_size r + length (reader_left r) < n"
  shows "\<exists>r'. read_packet r = (packet_end (reader_got r @ reader_left r = []) (reader_fin r), r')"
proof -
  from read_data_short [OF assms(1,3,4)] obtain r1 where
    rd: "read_data n r = (data_end (reader_got r @ reader_left r = []) (reader_fin r), r1)" by blast
  show ?thesis
    using rd assms(2) reader_fin_not_panic [of r]
    by (subst read_packet.simps, cases "reader_fin r") (auto simp del: reader_fin_not_panic)
qed

text \<open>The first round of a ready reader: six bytes of header.\<close>

lemma read_packet_header:
  assumes "reader_ready r" "6 \<le> length (reader_left r)"
  obtains r1 where "buf_ok r1" "data_size r1 = 6" "packet_size r1 = None" "pr_stat r1 = pr_stat r"
    "reader_got r1 = take 6 (reader_left r)" "reader_left r1 = drop 6 (reader_left r)"
    "reader_fin r1 = reader_fin r"
    "read_packet r =
      (if pr_buf r1 ! 0 = 0 then read_fake_response r1
       else case header_sizes (pr_buf r1) of
           None \<Rightarrow> (Err (InvalidHeader (take 6 (reader_left r))), r1)
         | Some (min_size, n) \<Rightarrow>
             if n < min_size \<or> MTU < n then (Err (InvalidPacketSize (packet_version (pr_buf r1)) n), r1)
             else read_packet (r1\<lparr>packet_size := Some n\<rparr>))"
proof -
  have b: "buf_ok r" and d: "data_size r = 0" and p: "packet_size r = None"
    using assms(1) by (simp_all add: reader_ready_def)
  have "6 \<le> data_size r + length (reader_left r)" using assms(2) by simp
  from read_data_enough [OF b _ this] d obtain r1 where
    rd: "read_data 6 r = (Ok True, r1)" and r1: "buf_ok r1" "data_size r1 = 6"
      "reader_got r1 = take 6 (reader_left r)" "reader_left r1 = drop 6 (reader_left r)"
      "reader_fin r1 = reader_fin r"
    by (auto simp: MTU_def reader_got_def)
  have fr: "packet_size r1 = None" "pr_stat r1 = pr_stat r"
    using read_data_frame [OF rd] p by simp_all
  have len: "length (pr_buf r1) = MTU" using r1(1) by (simp add: buf_ok_def)
  have "take (data_size r1) (pr_buf r1) = take 6 (reader_left r)"
    using r1(3) by (simp add: reader_got_def)
  moreover have "\<not> length (pr_buf r1) < 6" using len by (simp add: MTU_def)
  ultimately have "read_packet r =
      (if pr_buf r1 ! 0 = 0 then read_fake_response r1
       else case header_sizes (pr_buf r1) of
           None \<Rightarrow> (Err (InvalidHeader (take 6 (reader_left r))), r1)
         | Some (min_size, n) \<Rightarrow>
             if n < min_size \<or> MTU < n then (Err (InvalidPacketSize (packet_version (pr_buf r1)) n), r1)
             else read_packet (r1\<lparr>packet_size := Some n\<rparr>))"
    using rd p fr len by (subst read_packet.simps) (simp split: option.split)
  with that r1 fr show ?thesis by blast
qed

lemma got_header:
  assumes "data_size r1 = 6" "reader_got r1 = take 6 s" "6 \<le> length s"
  shows "i < 6 \<Longrightarrow> pr_buf r1 ! i = s ! i" "header_sizes (pr_buf r1) = header_sizes s"
    "packet_version (pr_buf r1) = packet_version s"
  using assms
  by (simp_all add: reader_got_nth header_sizes_got packet_version_got header_sizes_take
      packet_version_take)

lemma header_sizes_min: "header_sizes s = Some (m, n) \<Longrightarrow> 20 \<le> m"
  by (auto simp: header_sizes_def const_simps split: if_splits)

lemma resize_view [simp]:
  "buf_ok (r\<lparr>packet_size := x\<rparr>) = buf_ok r" "reader_got (r\<lparr>packet_size := x\<rparr>) = reader_got r"
  "reader_left (r\<lparr>packet_size := x\<rparr>) = reader_left r"
  "reader_fin (r\<lparr>packet_size := x\<rparr>) = reader_fin r"
  by (simp_all add: buf_ok_def reader_got_def reader_left_def reader_fin_def source_ok_def)

text \<open>The fake response after its first six bytes.\<close>

lemma read_fake_response_spec:
  assumes "buf_ok r1" "data_size r1 = 6" "reader_got r1 = take 6 s" "6 \<le> length s"
    "reader_left r1 = drop 6 s" "n = 3 + unat (from_be_bytes [s ! 1, s ! 2] :: u16)"
  shows "fst (read_fake_response r1) =
    (if MTU < n then Err (InvalidFakeResponseSize n)
     else if length s < n then packet_end False (reader_fin r1)
     else if max 6 n < length s then Err UnexpectedFakeResponse
     else packet_end True (reader_fin r1))"
proof -
  have n: "3 + unat (from_be_bytes [pr_buf r1 ! 1, pr_buf r1 ! 2] :: u16) = n"
    using got_header(1) [OF assms(2-4)] assms(6) by simp
  have len: "length (pr_buf r1) = MTU" using assms(1) by (simp add: buf_ok_def)
  note np = reader_fin_not_panic [of r1]
  show ?thesis
  proof (cases "MTU < n")
    case True
    with n len show ?thesis by (simp add: read_fake_response_def)
  next
    case fits: False
    show ?thesis
    proof (cases "length s < n")
      case True
      have "s \<noteq> []" using assms(4) by auto
      with read_data_short [OF assms(1), of n] fits True assms(2,3,4,5) obtain r2 where
        "read_data n r1 = (data_end False (reader_fin r1), r2)" by auto
      with n len fits True np show ?thesis
        by (cases "reader_fin r1") (auto simp: read_fake_response_def simp del: reader_fin_not_panic)
    next
      case False
      from read_data_enough [OF assms(1), of n] fits False assms(2,4,5) obtain r2 where
        rd: "read_data n r1 = (Ok True, r2)" and r2: "buf_ok r2"
        "reader_left r2 = drop (max 6 n) s" "reader_fin r2 = reader_fin r1"
        by (auto simp: max_def)
      let ?r3 = "r2\<lparr>data_size := 0\<rparr>"
      have r3: "buf_ok ?r3" "data_size ?r3 = 0" "reader_got ?r3 = []"
        "reader_left ?r3 = drop (max 6 n) s" "reader_fin ?r3 = reader_fin r1"
        using r2 by (simp_all add: buf_ok_def reader_got_def reader_left_def reader_fin_def source_ok_def)
      show ?thesis
      proof (cases "max 6 n < length s")
        case True
        then have "1 \<le> data_size ?r3 + length (reader_left ?r3)"
          unfolding r3(2,4) length_drop by linarith
        from read_data_enough [OF r3(1) _ this] obtain r4 where "read_data 1 ?r3 = (Ok True, r4)"
          by (auto simp: MTU_def)
        with n len fits rd True False show ?thesis by (simp add: read_fake_response_def)
      next
        case end_here: False
        with r3(2,4) have "data_size ?r3 + length (reader_left ?r3) < 1" by simp
        from read_data_short [OF r3(1) _ this] r3(3,4,5) end_here obtain r4 where
          "read_data 1 ?r3 = (data_end True (reader_fin r1), r4)" by (auto simp: MTU_def)
        with n len fits rd False end_here np show ?thesis
          by (cases "reader_fin r1") (auto simp: read_fake_response_def simp del: reader_fin_not_panic)
      qed
    qed
  qed
qed

lemma parse_frame_Packet_size: "parse_frame s = Packet p rest \<Longrightarrow>
    s = p @ rest \<and> 20 \<le> length p \<and> length p \<le> MTU"
  by (auto simp: parse_frame_def split: if_splits option.splits prod.splits dest: header_sizes_min)

lemma read_packet_Packet:
  assumes "reader_ready r" "parse_frame (reader_left r) = Packet p rest"
  shows "\<exists>r'. read_packet r = (Ok (Some p), r') \<and> reader_ready r' \<and> reader_left r' = rest \<and>
    reader_fin r' = reader_fin r \<and> pr_stat r' = on_packet_received p (pr_stat r)"
proof -
  let ?s = "reader_left r"
  from assms(2) obtain m where six: "6 \<le> length ?s" and nz: "?s ! 0 \<noteq> 0"
    and hs: "header_sizes ?s = Some (m, length p)" and m: "m \<le> length p" "length p \<le> MTU"
    and fits: "length p \<le> length ?s" and p: "p = take (length p) ?s" "rest = drop (length p) ?s"
    by (auto simp: parse_frame_def split: if_splits option.splits prod.splits)
  obtain r1 where r1: "buf_ok r1" "data_size r1 = 6" "packet_size r1 = None" "pr_stat r1 = pr_stat r"
    "reader_got r1 = take 6 ?s" "reader_left r1 = drop 6 ?s" "reader_fin r1 = reader_fin r"
    and eq: "read_packet r = (if pr_buf r1 ! 0 = 0 then read_fake_response r1
       else case header_sizes (pr_buf r1) of
           None \<Rightarrow> (Err (InvalidHeader (take 6 ?s)), r1)
         | Some (min_size, n) \<Rightarrow>
             if n < min_size \<or> MTU < n then (Err (InvalidPacketSize (packet_version (pr_buf r1)) n), r1)
             else read_packet (r1\<lparr>packet_size := Some n\<rparr>))"
    by (rule read_packet_header [OF assms(1) six])
  note hd = got_header [OF r1(2,5) six]
  let ?r2 = "r1\<lparr>packet_size := Some (length p)\<rparr>"
  have step: "read_packet r = read_packet ?r2"
    using eq hd nz hs m by simp
  have "20 \<le> length p" using m(1) header_sizes_min [OF hs] by simp
  then have k: "take 6 ?s @ take (length p - 6) (drop 6 ?s) = p"
    "drop (length p - 6) (drop 6 ?s) = rest"
    using p by (simp_all add: take_add [symmetric])
  have "\<exists>r'. read_packet ?r2 =
      (Ok (Some (reader_got ?r2 @ take (length p - data_size ?r2) (reader_left ?r2))), r') \<and>
    reader_ready r' \<and> reader_left r' = drop (length p - data_size ?r2) (reader_left ?r2) \<and>
    reader_fin r' = reader_fin ?r2 \<and> pr_stat r' = on_packet_received
      (reader_got ?r2 @ take (length p - data_size ?r2) (reader_left ?r2)) (pr_stat ?r2)"
    by (rule read_packet_body) (use r1 m fits \<open>20 \<le> length p\<close> six in simp_all)
  with step k r1 show ?thesis by simp
qed

lemma read_packet_short:
  assumes "reader_ready r" "length (reader_left r) < 6"
  shows "fst (read_packet r) = packet_end (reader_left r = []) (reader_fin r)"
proof -
  have b: "buf_ok r" and d: "data_size r = 0" "reader_got r = []" and p: "packet_size r = None"
    using assms(1) by (simp_all add: reader_ready_def reader_got_def)
  have "data_size r + length (reader_left r) < 6" using assms(2) d by simp
  from read_data_short [OF b _ this] d obtain r1 where
    "read_data 6 r = (data_end (reader_left r = []) (reader_fin r), r1)" by (auto simp: MTU_def)
  then show ?thesis
    using p reader_fin_not_panic [of r]
    by (subst read_packet.simps, cases "reader_fin r") (auto simp del: reader_fin_not_panic)
qed

text \<open>The refinement: a ready reader computes \<open>view_read\<close> of the bytes of its stream.\<close>

lemma read_packet_view:
  assumes "reader_ready r"
  shows "fst (read_packet r) = view_read (reader_left r) (reader_fin r)"
proof (cases "length (reader_left r) < 6")
  case True
  with read_packet_short [OF assms] show ?thesis by (simp add: view_read_def parse_frame_def)
next
  case False
  let ?s = "reader_left r"
  from False have six: "6 \<le> length ?s" by simp
  obtain r1 where r1: "buf_ok r1" "data_size r1 = 6" "packet_size r1 = None" "pr_stat r1 = pr_stat r"
    "reader_got r1 = take 6 ?s" "reader_left r1 = drop 6 ?s" "reader_fin r1 = reader_fin r"
    and eq: "read_packet r = (if pr_buf r1 ! 0 = 0 then read_fake_response r1
       else case header_sizes (pr_buf r1) of
           None \<Rightarrow> (Err (InvalidHeader (take 6 ?s)), r1)
         | Some (min_size, n) \<Rightarrow>
             if n < min_size \<or> MTU < n then (Err (InvalidPacketSize (packet_version (pr_buf r1)) n), r1)
             else read_packet (r1\<lparr>packet_size := Some n\<rparr>))"
    by (rule read_packet_header [OF assms six])
  note hd = got_header [OF r1(2,5) six]
  note fake = read_fake_response_spec [OF r1(1,2,5) six r1(6) refl]
  show ?thesis
  proof (cases "parse_frame ?s")
    case (Packet p rest)
    with read_packet_Packet [OF assms this] show ?thesis by (auto simp: view_read_def)
  next
    case (FakeResponse n)
    then have "?s ! 0 = 0" "n = 3 + unat (from_be_bytes [?s ! 1, ?s ! 2] :: u16)"
      by (auto simp: parse_frame_def split: if_splits option.splits prod.splits)
    with FakeResponse eq hd fake r1(7) show ?thesis by (simp add: view_read_def)
  next
    case BadHeader
    then have "?s ! 0 \<noteq> 0" "header_sizes ?s = None"
      by (auto simp: parse_frame_def split: if_splits option.splits prod.splits)
    with BadHeader eq hd show ?thesis by (simp add: view_read_def)
  next
    case (BadSize v n)
    then obtain m where "?s ! 0 \<noteq> 0" "header_sizes ?s = Some (m, n)" "n < m \<or> MTU < n"
      "v = packet_version ?s"
      by (auto simp: parse_frame_def split: if_splits option.splits prod.splits)
    with BadSize eq hd show ?thesis by (auto simp: view_read_def)
  next
    case Incomplete
    with six obtain m n where g: "?s ! 0 \<noteq> 0" "header_sizes ?s = Some (m, n)" "m \<le> n" "n \<le> MTU"
      "length ?s < n"
      by (auto simp: parse_frame_def split: if_splits option.splits prod.splits)
    let ?r2 = "r1\<lparr>packet_size := Some n\<rparr>"
    have "read_packet r = read_packet ?r2" using eq hd g by simp
    moreover have "\<exists>r'. read_packet ?r2 =
      (packet_end (reader_got ?r2 @ reader_left ?r2 = []) (reader_fin ?r2), r')"
      by (rule read_packet_body_short) (use r1 g six in simp_all)
    moreover have "?s \<noteq> []" using six by auto
    ultimately show ?thesis using Incomplete r1 by (auto simp: view_read_def)
  qed
qed

section \<open>Runs of packets\<close>

text \<open>A well-formed IP packet, as the tun devices exchange them: the size in its header is its
  length.\<close>

definition ip_packet :: "bytes \<Rightarrow> bool" where
  "ip_packet p \<longleftrightarrow> 6 \<le> length p \<and> length p \<le> MTU \<and>
     (case header_sizes p of Some (m, n) \<Rightarrow> m \<le> n \<and> n = length p | None \<Rightarrow> False)"

lemma header_sizes_append: "6 \<le> length p \<Longrightarrow> header_sizes (p @ t) = header_sizes p"
  by (cases p) (auto simp: header_sizes_def packet_version_def nth_append)

lemma header_sizes_nonzero: "header_sizes p = Some x \<Longrightarrow> p ! 0 \<noteq> 0"
  by (auto simp: header_sizes_def packet_version_def split: if_splits)

lemma parse_frame_ip_packet: "ip_packet p \<Longrightarrow> parse_frame (p @ t) = Packet p t"
  by (auto simp: parse_frame_def ip_packet_def header_sizes_append nth_append
      dest: header_sizes_nonzero split: option.splits)

text \<open>The packets at the front of a stream, and the rest, which does not start with one.\<close>

function packets_in :: "bytes \<Rightarrow> bytes list \<times> bytes" where
  "packets_in s =
     (case parse_frame s of
        Packet p rest \<Rightarrow> (let (ps, t) = packets_in rest in (p # ps, t))
      | _ \<Rightarrow> ([], s))"
  by pat_completeness auto
termination
  by (relation "measure length") (auto dest!: parse_frame_Packet_size)

declare packets_in.simps [simp del]

lemma packets_in_ip_packets:
  "\<forall>p \<in> set ps. ip_packet p \<Longrightarrow> packets_in (concat ps @ t) = (ps @ fst (packets_in t), snd (packets_in t))"
  by (induction ps)
    (auto simp: packets_in.simps [of "_ @ _"] parse_frame_ip_packet split: prod.splits)

lemma packets_in_concat: "concat (fst (packets_in s)) @ snd (packets_in s) = s"
proof (induction s rule: packets_in.induct)
  case (1 s)
  show ?case
  proof (cases "parse_frame s")
    case (Packet p rest)
    obtain ps t where r: "packets_in rest = (ps, t)" by fastforce
    with Packet have "packets_in s = (p # ps, t)" by (simp add: packets_in.simps [of s])
    with r "1.IH" [OF Packet] parse_frame_Packet_size [OF Packet] show ?thesis by simp
  qed (simp_all add: packets_in.simps [of s])
qed

section \<open>The reader never panics\<close>

text \<open>Between calls, whatever their outcome, the buffer keeps its size, the filled part stays
  inside it and the size of an announced packet fits: no slice is out of range, and the
  source's \<open>assert!\<close> holds.\<close>

definition reader_inv :: "packet_reader \<Rightarrow> bool" where
  "reader_inv r \<longleftrightarrow> buf_ok r \<and> (case packet_size r of Some n \<Rightarrow> n \<le> MTU | None \<Rightarrow> True)"

lemma new_reader_inv: "length junk = MTU \<Longrightarrow> reader_inv (new_reader junk pre c rx st)"
  using new_reader_ready [of junk pre c rx st] by (simp add: reader_inv_def reader_ready_def)

lemma read_data_total:
  assumes "buf_ok r" "sz \<le> MTU" "read_data sz r = (res, r')"
  shows "buf_ok r'" "res \<noteq> Panic" "res = Ok True \<Longrightarrow> sz \<le> data_size r'"
    "res = Ok False \<Longrightarrow> data_size r = 0"
proof -
  have "buf_ok r' \<and> res \<noteq> Panic \<and> (res = Ok True \<longrightarrow> sz \<le> data_size r') \<and>
    (res = Ok False \<longrightarrow> data_size r = 0)"
  proof (cases "sz \<le> data_size r + length (reader_left r)")
    case True
    with read_data_enough [OF assms(1,2)] assms(3) show ?thesis by auto
  next
    case False
    with read_data_short [OF assms(1,2)] assms(3) have
      "res = data_end (reader_got r @ reader_left r = []) (reader_fin r)" "buf_ok r'" by auto
    with reader_fin_not_panic [of r] length_reader_got [OF assms(1)] show ?thesis
      by (cases "reader_fin r") (auto simp del: reader_fin_not_panic)
  qed
  then show "buf_ok r'" "res \<noteq> Panic" "res = Ok True \<Longrightarrow> sz \<le> data_size r'"
    "res = Ok False \<Longrightarrow> data_size r = 0" by simp_all
qed

lemma read_fake_response_total:
  assumes "buf_ok r" "6 \<le> data_size r" "packet_size r = None" "read_fake_response r = (res, r')"
  shows "res \<noteq> Panic \<and> reader_inv r'"
proof -
  let ?n = "3 + unat (from_be_bytes [pr_buf r ! 1, pr_buf r ! 2] :: u16)"
  have len: "length (pr_buf r) = MTU" using assms(1) by (simp add: buf_ok_def)
  show ?thesis
  proof (cases "MTU < ?n")
    case True
    with assms len show ?thesis by (auto simp: read_fake_response_def reader_inv_def)
  next
    case False
    obtain x r1 where rd: "read_data ?n r = (x, r1)" by fastforce
    note t = read_data_total [OF assms(1) _ rd]
    have r1: "buf_ok r1" "x \<noteq> Panic" "x \<noteq> Ok False" using t False assms(2) by auto
    have p1: "packet_size r1 = None" using read_data_frame [OF rd] assms(3) by simp
    let ?r1 = "r1\<lparr>data_size := 0\<rparr>"
    have b: "buf_ok ?r1" using r1(1) by (simp add: buf_ok_def source_ok_def)
    obtain y r2 where rd2: "read_data 1 ?r1 = (y, r2)" by fastforce
    have r2: "buf_ok r2" "y \<noteq> Panic" "packet_size r2 = None"
      using read_data_total [OF b _ rd2] read_data_frame [OF rd2] p1 by (auto simp: MTU_def)
    show ?thesis
      using assms(4) False len rd rd2 r1 r2 p1
      by (auto simp: read_fake_response_def reader_inv_def split: outcome.splits bool.splits)
  qed
qed

text \<open>Once the size of a packet is known, and when it is not.\<close>

lemma read_packet_body_total:
  assumes "reader_inv r" "packet_size r = Some n" "read_packet r = (res, r')"
  shows "res \<noteq> Panic \<and> reader_inv r'"
proof -
  have n: "n \<le> MTU" and b: "buf_ok r" using assms(1,2) by (auto simp: reader_inv_def)
  obtain x r1 where rd: "read_data n r = (x, r1)" by fastforce
  note t = read_data_total [OF b n rd]
  have r1: "packet_size r1 = Some n" "length (pr_buf r1) = MTU"
    using read_data_frame [OF rd] assms(2) t(1) by (simp_all add: buf_ok_def)
  then have "reader_inv r1" using t(1) n by (simp add: reader_inv_def)
  with assms(3) t(2) r1 n show ?thesis
    by (cases x) (auto simp: read_packet.simps [of r] assms(2) rd reader_inv_def buf_ok_def source_ok_def split: bool.splits)
qed

lemma read_packet_total:
  assumes "reader_inv r" "read_packet r = (res, r')"
  shows "res \<noteq> Panic \<and> reader_inv r'"
proof (cases "packet_size r")
  case None
  obtain x r1 where rd: "read_data 6 r = (x, r1)" by fastforce
  have b: "buf_ok r" using assms(1) by (simp add: reader_inv_def)
  note t = read_data_total [OF b _ rd]
  have r1: "packet_size r1 = None" "length (pr_buf r1) = MTU" "buf_ok r1" "x \<noteq> Panic"
    using read_data_frame [OF rd] None t(1,2) by (auto simp: buf_ok_def MTU_def)
  then have inv1: "reader_inv r1" by (simp add: reader_inv_def)
  note eq = assms(2) [unfolded read_packet.simps [of r] None option.case rd]
  show ?thesis
  proof (cases "x = Ok True")
    case False
    with eq r1(4) inv1 show ?thesis by (auto split: outcome.splits bool.splits)
  next
    case True
    with t(3) have six: "6 \<le> data_size r1" by (simp add: MTU_def)
    have body: "res \<noteq> Panic \<and> reader_inv r'"
      if "read_packet (r1\<lparr>packet_size := Some k\<rparr>) = (res, r')" "k \<le> MTU" for k
      by (rule read_packet_body_total [OF _ _ that(1)]) (use r1(3) that(2) in \<open>simp_all add: reader_inv_def\<close>)
    show ?thesis
      using eq True r1(1,2) inv1 body read_fake_response_total [OF r1(3) six r1(1)]
      by (auto simp: MTU_def not_less split: if_splits option.splits prod.splits)
  qed
qed (use assms read_packet_body_total in blast)

section \<open>Properties\<close>

text \<open>C1: refinement of the framing.  A reader that stands between packets returns exactly what
  \<open>view_read\<close> reads off the bytes to come, however they are cut into chunks and however many
  of them an earlier stage had read ahead; after a packet it stands right behind that packet,
  with the packet counted.\<close>
theorem packet_reader_refinement:
  assumes "reader_ready r"
  shows "fst (read_packet r) = view_read (reader_left r) (reader_fin r) \<and>
    (\<forall>p rest. parse_frame (reader_left r) = Packet p rest \<longrightarrow>
      (\<exists>r'. read_packet r = (Ok (Some p), r') \<and> reader_ready r' \<and> reader_left r' = rest \<and>
        reader_fin r' = reader_fin r \<and> pr_stat r' = on_packet_received p (pr_stat r)))"
  using read_packet_view [OF assms] read_packet_Packet [OF assms] by blast

definition sample_packet :: bytes where
  "sample_packet = [69, 0, 0, 20, 0, 0, 0, 0, 64, 17, 0, 0, 10, 0, 0, 1, 10, 0, 0, 2]"

lemma header_sizes_sample: "header_sizes sample_packet = Some (20, 20)"
  by (simp add: header_sizes_def packet_version_def sample_packet_def from_be_bytes_def
      IPV4_HEADER_SIZE_def)

lemma ip_packet_sample: "ip_packet sample_packet"
  using header_sizes_sample by (simp add: ip_packet_def sample_packet_def MTU_def)

lemma packet_reader_refinement_witness:
  "fst (read_packet (new_reader (replicate MTU 0) [69, 0]
      [Recv [0, 20, 0, 0, 0], Recv [0, 64, 17, 0, 0, 10, 0, 0, 1, 10], Recv [0, 0, 2], Eof]
      Waiting (new_stat ''t'' ''c''))) = Ok (Some sample_packet)"
proof -
  let ?r = "new_reader (replicate MTU 0) [69, 0]
      [Recv [0, 20, 0, 0, 0], Recv [0, 64, 17, 0, 0, 10, 0, 0, 1, 10], Recv [0, 0, 2], Eof]
      Waiting (new_stat ''t'' ''c'')"
  have ready: "reader_ready ?r" by (simp add: new_reader_ready)
  have "reader_left ?r = sample_packet @ []" by (simp add: sample_packet_def)
  then have "parse_frame (reader_left ?r) = Packet sample_packet []"
    using parse_frame_ip_packet [OF ip_packet_sample] by metis
  with packet_reader_refinement [OF ready] show ?thesis by (simp add: view_read_def)
qed

text \<open>C34: the reader never panics.  From a new reader on, whatever arrives, no slice of the
  buffer is out of range and the assertion on the fake response holds.\<close>
theorem packet_reader_never_panics:
  assumes "reader_inv r"
  shows "fst (read_packet r) \<noteq> Panic \<and> reader_inv (snd (read_packet r))"
  using read_packet_total [OF assms, of "fst (read_packet r)" "snd (read_packet r)"] by simp

lemma packet_reader_never_panics_witness:
  "reader_inv (new_reader (replicate 1500 0) [] [Recv [0, 5, 217, 1, 2, 3]] Closed (new_stat ''t'' ''c'')) \<and>
   fst (read_packet (new_reader (replicate 1500 0) [] [Recv [0, 5, 217, 1, 2, 3]] Closed
     (new_stat ''t'' ''c''))) \<noteq> Panic"
proof -
  have "reader_inv (new_reader (replicate 1500 0) [] [Recv [0, 5, 217, 1, 2, 3]] Closed (new_stat ''t'' ''c''))"
    by (rule new_reader_inv) (simp add: MTU_def)
  with packet_reader_never_panics [OF this] show ?thesis by simp
qed

end
