(* ===== verification/PacketWriter.thy ===== *)
theory PacketWriter imports PacketReader Transport "HOL-Library.Sublist" begin

text \<open>
  The sending half of \<open>src/src/transport/http/common.rs\<close>: \<open>PacketWriter\<close>, which holds the
  current write half of a connection that can be replaced under it, and \<open>PacketWriterConnection\<close>.

  An \<open>Arc<PacketWriterConnection>\<close> is an index into \<open>pw_handles\<close>: a handle outlives its place in
  the writer, since a \<open>send\<close> under way and a shutdown task keep a clone.  Each operation is split
  where the code awaits: \<open>writer_current\<close> takes the clone, \<open>send_locked\<close> and \<open>shutdown_locked\<close> are
  what runs under the handle's lock.  The results of the socket operations are arguments.

  \<open>writer_step\<close> lets these parts interleave in any order.
\<close>

section \<open>State\<close>

text \<open>The write half of a connection: the bytes handed to it so far, and whether it is shut.  A
  failed \<open>write_all\<close> may have written any prefix of its data.\<close>

record write_half =
  written :: bytes
  shut :: bool

fun write_all :: "bytes \<Rightarrow> (string \<times> nat) option \<Rightarrow> write_half \<Rightarrow> (string, unit) outcome \<times> write_half" where
  "write_all data None c = (Ok (), c\<lparr>written := written c @ data\<rparr>)"
| "write_all data (Some (err, n)) c = (Err err, c\<lparr>written := written c @ take n data\<rparr>)"

fun shutdown_socket :: "string option \<Rightarrow> write_half \<Rightarrow> (string, unit) outcome \<times> write_half" where
  "shutdown_socket None c = (Ok (), c\<lparr>shut := True\<rparr>)"
| "shutdown_socket (Some err) c = (Err err, c)"

text \<open>\<open>has_sender\<close> is \<open>error_sender.is_some()\<close>; \<open>to_reader\<close> is the channel's other end, which the
  connection's reader holds.\<close>

record writer_connection =
  wc_fd :: int
  wc_name :: string
  wc_socket :: write_half
  has_sender :: bool
  to_reader :: oneshot

record packet_writer =
  pw_name :: string
  pw_handles :: "writer_connection list"
  pw_current :: "nat option"
  pw_stat :: conn_stat

definition new_writer :: "string \<Rightarrow> conn_stat \<Rightarrow> packet_writer" where
  "new_writer name st = \<lparr>pw_name = name, pw_handles = [], pw_current = None, pw_stat = st\<rparr>"

section \<open>Operations\<close>

text \<open>\<open>replace\<close> gives the new handle and the previous one, for which it spawns a shutdown.\<close>

definition new_connection :: "string \<Rightarrow> int \<Rightarrow> write_half \<Rightarrow> writer_connection" where
  "new_connection name fd connection =
     \<lparr>wc_fd = fd, wc_name = name, wc_socket = connection, has_sender = True, to_reader = Waiting\<rparr>"

definition writer_replace ::
  "string \<Rightarrow> int \<Rightarrow> write_half \<Rightarrow> packet_writer \<Rightarrow> (nat \<times> nat option) \<times> packet_writer" where
  "writer_replace name fd connection w =
     ((length (pw_handles w), pw_current w),
      w\<lparr>pw_handles := pw_handles w @ [new_connection name fd connection],
        pw_current := Some (length (pw_handles w))\<rparr>)"

text \<open>\<open>close_matching\<close> and \<open>close\<close> up to the shutdown: the handle to shut down, if any, with its
  payload.\<close>

definition writer_close_matching :: "nat \<Rightarrow> bool \<Rightarrow> packet_writer \<Rightarrow> (nat \<times> bytes option) option \<times> packet_writer" where
  "writer_close_matching h shutdown w =
     (if pw_current w = Some h
      then (if shutdown then Some (h, None) else None, w\<lparr>pw_current := None\<rparr>)
      else (None, w))"

definition writer_close :: "bytes option \<Rightarrow> packet_writer \<Rightarrow> (nat \<times> bytes option) option \<times> packet_writer" where
  "writer_close shutdown_with_payload w =
     ((case (pw_current w, shutdown_with_payload) of
         (Some h, Some payload) \<Rightarrow> Some (h, Some payload)
       | _ \<Rightarrow> None),
      w\<lparr>pw_current := None\<rparr>)"

text \<open>\<open>send\<close>: the clone of the current handle, or a dropped packet.\<close>

definition writer_current :: "packet_writer \<Rightarrow> (string, nat) outcome \<times> packet_writer" where
  "writer_current w =
     (case pw_current w of
        None \<Rightarrow> (Err ''Connection is closed'', w\<lparr>pw_stat := on_packet_dropped (pw_stat w)\<rparr>)
      | Some h \<Rightarrow> (Ok h, w))"

definition connection_send ::
  "bytes \<Rightarrow> (string \<times> nat) option \<Rightarrow> writer_connection \<Rightarrow> (string, unit) outcome \<times> writer_connection" where
  "connection_send packet io c =
     (if \<not> has_sender c then (Err ''Connection is closed'', c)
      else case write_all packet io (wc_socket c) of
          (Err e, s) \<Rightarrow> (Err e, c\<lparr>wc_socket := s, has_sender := False,
                                 to_reader := Sent (''The connection is broken: '' @ e)\<rparr>)
        | (r, s) \<Rightarrow> (r, c\<lparr>wc_socket := s\<rparr>))"

definition send_locked ::
  "nat \<Rightarrow> bytes \<Rightarrow> (string \<times> nat) option \<Rightarrow> packet_writer \<Rightarrow> (string, unit) outcome \<times> packet_writer" where
  "send_locked h packet io w =
     (let c = pw_handles w ! h in
      case connection_send packet io c of
        (r, c') \<Rightarrow>
          (r, w\<lparr>pw_handles := (pw_handles w)[h := c'],
                pw_stat := (if is_ok r then on_packet_sent packet (pw_stat w)
                            else if has_sender c then on_packet_dropped (pw_stat w)
                            else pw_stat w)\<rparr>))"

text \<open>\<open>PacketWriterConnectionHandle::shutdown\<close>.  A sender that is dropped unused closes the channel.\<close>

definition connection_shutdown ::
  "bytes option \<Rightarrow> (string \<times> nat) option \<Rightarrow> string option \<Rightarrow> writer_connection \<Rightarrow> writer_connection" where
  "connection_shutdown payload io io' c =
     (if \<not> has_sender c then c
      else
        let c1 = c\<lparr>has_sender := False, to_reader := Closed\<rparr>;
            (r, s) = (case payload of
                Some p \<Rightarrow> write_all p io (wc_socket c1) | None \<Rightarrow> (Ok (), wc_socket c1))
        in case r of
             Err e \<Rightarrow> c1\<lparr>wc_socket := s, to_reader := Sent (''The connection is broken: '' @ e)\<rparr>
           | _ \<Rightarrow>
             (case shutdown_socket io' s of
                (Err e, s') \<Rightarrow>
                  c1\<lparr>wc_socket := s', to_reader := Sent (''Failed to shutdown the socket: '' @ e)\<rparr>
              | (_, s') \<Rightarrow> c1\<lparr>wc_socket := s'\<rparr>))"

definition shutdown_locked ::
  "nat \<Rightarrow> bytes option \<Rightarrow> (string \<times> nat) option \<Rightarrow> string option \<Rightarrow> packet_writer \<Rightarrow> packet_writer" where
  "shutdown_locked h payload io io' w =
     w\<lparr>pw_handles := (pw_handles w)[h := connection_shutdown payload io io' (pw_handles w ! h)]\<rparr>"

text \<open>A shutdown without payload whose task is aborted while the socket is being shut down: the sender
  has been taken, and is dropped.\<close>

definition shutdown_aborted :: "nat \<Rightarrow> packet_writer \<Rightarrow> packet_writer" where
  "shutdown_aborted h w =
     (let c = pw_handles w ! h in
      w\<lparr>pw_handles := (pw_handles w)[h := (if has_sender c then c\<lparr>has_sender := False, to_reader := Closed\<rparr> else c)]\<rparr>)"

section \<open>The transport\<close>

definition writer_direction :: "packet_writer \<Rightarrow> transport_direction" where
  "writer_direction w = DIR_EGRESS"

definition writer_connected :: "packet_writer \<Rightarrow> bool" where
  "writer_connected w \<longleftrightarrow> pw_current w \<noteq> None"

definition writer_ready_for_sending :: "packet_writer \<Rightarrow> bool" where
  "writer_ready_for_sending w \<longleftrightarrow> writer_connected w"

definition writer_collect ::
  "(sample \<Rightarrow> 'enc \<Rightarrow> 'enc option) \<Rightarrow> tcp_ca_states \<Rightarrow> (int \<Rightarrow> socket_probe) \<Rightarrow> packet_writer \<Rightarrow> 'enc
    \<Rightarrow> 'enc option" where
  "writer_collect emit ca probe w enc =
     (case pw_current w of
        Some h \<Rightarrow> collect_tcp_socket emit ca (pw_stat w) (probe (wc_fd (pw_handles w ! h))) enc
      | None \<Rightarrow> Some enc)"

lemma contains_refl [simp]: "contains f f" by (simp add: contains_def)

interpretation writer: connection_transport writer_direction writer_ready_for_sending writer_connected
  by unfold_locales (simp_all add: writer_direction_def writer_ready_for_sending_def)

section \<open>Interleavings\<close>

text \<open>The writer with, for each handle, the packets whose \<open>send\<close> has succeeded, in the order in
  which they took the lock.\<close>

type_synonym writer_history = "packet_writer \<times> (nat \<Rightarrow> bytes list)"

inductive writer_step :: "writer_history \<Rightarrow> writer_history \<Rightarrow> bool" where
  replace: "writer_replace name fd \<lparr>written = [], shut = False\<rparr> w = (r, w') \<Longrightarrow>
    writer_step (w, acc) (w', acc(length (pw_handles w) := []))"
| close_matching: "writer_close_matching h sd w = (task, w') \<Longrightarrow> writer_step (w, acc) (w', acc)"
| close: "writer_close payload w = (task, w') \<Longrightarrow> writer_step (w, acc) (w', acc)"
| take: "writer_current w = (r, w') \<Longrightarrow> writer_step (w, acc) (w', acc)"
| send: "h < length (pw_handles w) \<Longrightarrow> send_locked h packet io w = (r, w') \<Longrightarrow>
    writer_step (w, acc) (w', if is_ok r then acc(h := acc h @ [packet]) else acc)"
| shutdown: "h < length (pw_handles w) \<Longrightarrow>
    writer_step (w, acc) (shutdown_locked h payload io io' w, acc)"
| aborted: "h < length (pw_handles w) \<Longrightarrow> writer_step (w, acc) (shutdown_aborted h w, acc)"

text \<open>A connection's stream is the packets accepted for it, then, once its sender is gone, at most
  one tail: the piece of a packet whose write failed, or the farewell.\<close>

definition handle_ok :: "writer_connection \<Rightarrow> bytes list \<Rightarrow> bool" where
  "handle_ok c ps \<longleftrightarrow>
     (if has_sender c then written (wc_socket c) = concat ps \<and> \<not> shut (wc_socket c) \<and> to_reader c = Waiting
      else prefix (concat ps) (written (wc_socket c)) \<and> to_reader c \<noteq> Waiting)"

definition writer_ok :: "writer_history \<Rightarrow> bool" where
  "writer_ok wh \<longleftrightarrow> (\<forall>h < length (pw_handles (fst wh)). handle_ok (pw_handles (fst wh) ! h) (snd wh h)) \<and>
     (\<forall>h. pw_current (fst wh) = Some h \<longrightarrow> h < length (pw_handles (fst wh)))"

lemma connection_send_ok:
  assumes "handle_ok c ps" "connection_send packet io c = (r, c')"
  shows "handle_ok c' (if is_ok r then ps @ [packet] else ps)" "r = Ok () \<or> (\<exists>e. r = Err e)"
proof -
  have "handle_ok c' (if is_ok r then ps @ [packet] else ps) \<and> (r = Ok () \<or> (\<exists>e. r = Err e))"
  proof (cases "has_sender c")
    case True
    then show ?thesis
      using assms by (cases io) (auto simp: connection_send_def handle_ok_def)
  next
    case False
    then show ?thesis using assms by (auto simp: connection_send_def)
  qed
  then show "handle_ok c' (if is_ok r then ps @ [packet] else ps)" "r = Ok () \<or> (\<exists>e. r = Err e)"
    by blast+
qed

lemma connection_shutdown_ok:
  "handle_ok c ps \<Longrightarrow> handle_ok (connection_shutdown payload io io' c) ps"
  "has_sender (connection_shutdown payload io io' c) = False"
  by (cases payload; cases io; cases io'; auto simp: connection_shutdown_def handle_ok_def)+

lemma send_locked_handles:
  assumes "send_locked h packet io w = (r, w')"
  shows "pw_handles w' = (pw_handles w)[h := snd (connection_send packet io (pw_handles w ! h))]"
    "r = fst (connection_send packet io (pw_handles w ! h))" "pw_current w' = pw_current w"
  using assms by (auto simp: send_locked_def Let_def split: prod.splits)

lemma connection_send_dead: "\<not> has_sender c \<Longrightarrow> connection_send packet io c = (Err ''Connection is closed'', c)"
  by (simp add: connection_send_def)

lemma writer_ok_step:
  assumes "writer_step a b" "writer_ok a"
  shows "writer_ok b"
  using assms
proof induction
  case (replace name fd w r w' acc)
  then show ?case
    by (auto simp: writer_replace_def writer_ok_def nth_append handle_ok_def new_connection_def)
next
  case (close_matching h sd w task w' acc)
  then show ?case by (auto simp: writer_close_matching_def writer_ok_def split: if_splits)
next
  case (close payload w task w' acc)
  then show ?case by (auto simp: writer_close_def writer_ok_def)
next
  case (take w r w' acc)
  then show ?case by (auto simp: writer_current_def writer_ok_def split: option.splits)
next
  case (send h w packet io r w' acc)
  let ?c = "connection_send packet io (pw_handles w ! h)"
  have "handle_ok (pw_handles w ! h) (acc h)" using send.hyps(1) send.prems by (simp add: writer_ok_def)
  from connection_send_ok(1) [OF this, of packet io "fst ?c" "snd ?c"]
  have "handle_ok (snd ?c) (if is_ok r then acc h @ [packet] else acc h)"
    using send_locked_handles(2) [OF send.hyps(2)] by simp
  with send.prems send.hyps(1) show ?case
    by (auto simp: writer_ok_def send_locked_handles [OF send.hyps(2)] nth_list_update)
next
  case (shutdown h w acc payload io io')
  then show ?case
    by (auto simp: writer_ok_def shutdown_locked_def nth_list_update intro: connection_shutdown_ok)
next
  case (aborted h w acc)
  then show ?case
    by (auto simp: writer_ok_def shutdown_aborted_def Let_def nth_list_update handle_ok_def)
qed

lemma writer_ok_reachable:
  "writer_step\<^sup>*\<^sup>* (new_writer name st, \<lambda>_. []) wh \<Longrightarrow> writer_ok wh"
proof (induction rule: rtranclp_induct)
  case base
  then show ?case by (simp add: writer_ok_def new_writer_def)
qed (rule writer_ok_step)

text \<open>A handle whose sender is gone is dead: nothing more is written to its socket.\<close>

lemma dead_step:
  assumes "writer_step a b" "h < length (pw_handles (fst a))" "\<not> has_sender (pw_handles (fst a) ! h)"
  shows "h < length (pw_handles (fst b)) \<and> pw_handles (fst b) ! h = pw_handles (fst a) ! h \<and>
    snd b h = snd a h"
  using assms
proof induction
  case (send k w packet io r w' acc)
  then show ?case
    by (cases "k = h") (simp_all add: send_locked_handles [OF send.hyps(2)] connection_send_dead)
next
  case (shutdown k w acc payload io io')
  then show ?case
    by (cases "k = h") (auto simp: shutdown_locked_def connection_shutdown_def nth_list_update)
next
  case (aborted k w acc)
  then show ?case by (cases "k = h") (auto simp: shutdown_aborted_def Let_def nth_list_update)
qed (auto simp: writer_replace_def writer_close_matching_def writer_close_def writer_current_def nth_append
      split: if_splits option.splits)

lemma dead_forever:
  assumes "writer_step\<^sup>*\<^sup>* a b" "h < length (pw_handles (fst a))" "\<not> has_sender (pw_handles (fst a) ! h)"
  shows "h < length (pw_handles (fst b)) \<and> pw_handles (fst b) ! h = pw_handles (fst a) ! h \<and>
    snd b h = snd a h"
  using assms(1)
proof (induction rule: rtranclp_induct)
  case base
  then show ?case using assms(2) by simp
next
  case (step b c)
  with dead_step [OF step(2), of h] assms(3) show ?case by simp
qed

section \<open>Properties\<close>

text \<open>C8: the stream of a connection.  Whatever sends, replacements, closes and shutdowns
  interleave, and wherever writes fail, the bytes written to a connection begin with the packets
  whose \<open>send\<close> succeeded, whole and in order, and are exactly these while it is open; so the
  peer's reader takes precisely these packets, in this order, off the stream first.\<close>
theorem writer_stream:
  assumes "writer_step\<^sup>*\<^sup>* (new_writer name st, \<lambda>_. []) (w, acc)" "h < length (pw_handles w)"
    "\<forall>p \<in> set (acc h). ip_packet p"
  shows "\<exists>tail. written (wc_socket (pw_handles w ! h)) = concat (acc h) @ tail \<and>
    (has_sender (pw_handles w ! h) \<longrightarrow> tail = []) \<and>
    packets_in (written (wc_socket (pw_handles w ! h))) =
      (acc h @ fst (packets_in tail), snd (packets_in tail))"
proof -
  have "handle_ok (pw_handles w ! h) (acc h)"
    using writer_ok_reachable [OF assms(1)] assms(2) by (simp add: writer_ok_def)
  then obtain tail where "written (wc_socket (pw_handles w ! h)) = concat (acc h) @ tail"
    "has_sender (pw_handles w ! h) \<longrightarrow> tail = []"
    by (auto simp: handle_ok_def prefix_def split: if_splits)
  then show ?thesis using packets_in_ip_packets [OF assms(3)] by auto
qed

text \<open>The run of the witnesses: a connection, and a packet sent over it.\<close>

definition demo_sent :: "string \<Rightarrow> conn_stat \<Rightarrow> bytes \<Rightarrow> packet_writer" where
  "demo_sent name st packet =
     snd (send_locked 0 packet None (snd (writer_replace ''a'' 3 \<lparr>written = [], shut = False\<rparr> (new_writer name st))))"

lemma demo_sent_run:
  "writer_step\<^sup>*\<^sup>* (new_writer name st, \<lambda>_. []) (demo_sent name st packet, (\<lambda>_. [])(0 := [packet]))"
  "length (pw_handles (demo_sent name st packet)) = 1" "has_sender (pw_handles (demo_sent name st packet) ! 0)"
proof -
  let ?w0 = "new_writer name st" and ?sent = "demo_sent name st packet"
  define w1 where "w1 = snd (writer_replace ''a'' 3 \<lparr>written = [], shut = False\<rparr> ?w0)"
  have w: "pw_handles w1 = [new_connection ''a'' 3 \<lparr>written = [], shut = False\<rparr>]"
    by (simp add: w1_def writer_replace_def new_writer_def)
  have sent: "?sent = snd (send_locked 0 packet None w1)" by (simp add: demo_sent_def w1_def)
  have "writer_step (?w0, \<lambda>_. []) (w1, (\<lambda>_. [])(0 := []))"
    using writer_step.replace [of "''a''" 3 ?w0 "fst (writer_replace ''a'' 3 \<lparr>written = [], shut = False\<rparr> ?w0)" w1 "\<lambda>_. []"]
    by (simp add: w1_def new_writer_def)
  moreover have "fst (send_locked 0 packet None w1) = Ok ()"
    by (simp add: send_locked_def w connection_send_def new_connection_def Let_def)
  then have "writer_step (w1, (\<lambda>_. [])(0 := [])) (?sent, (\<lambda>_. [])(0 := [packet]))"
    using writer_step.send [of 0 w1 packet None "Ok ()" ?sent "(\<lambda>_. [])(0 := [])"] w
    by (simp add: sent prod_eq_iff)
  ultimately show "writer_step\<^sup>*\<^sup>* (?w0, \<lambda>_. []) (?sent, (\<lambda>_. [])(0 := [packet]))"
    by (meson rtranclp.rtrancl_into_rtrancl rtranclp.rtrancl_refl)
  show "length (pw_handles ?sent) = 1" "has_sender (pw_handles ?sent ! 0)"
    by (simp_all add: sent send_locked_def w connection_send_def new_connection_def Let_def)
qed

definition demo_writer_sent :: packet_writer where
  "demo_writer_sent = demo_sent ''w'' (new_stat ''w'' ''w'') sample_packet"

lemmas demo_writer_run = demo_sent_run [of "''w''" "new_stat ''w'' ''w''" sample_packet, folded demo_writer_sent_def]

lemma writer_stream_witness:
  "\<exists>tail. written (wc_socket (pw_handles demo_writer_sent ! 0)) = sample_packet @ tail \<and> tail = []"
  using writer_stream [OF demo_writer_run(1), of 0] demo_writer_run(2,3) ip_packet_sample by auto

text \<open>A connection that has been shut down, or whose write has failed, stays that way: no
  later operation writes to it, and a packet for it is refused.\<close>
theorem writer_dead_stays_dead:
  assumes "writer_step\<^sup>*\<^sup>* (shutdown_locked h payload io io' w, acc) (w', acc')" "h < length (pw_handles w)"
  shows "pw_handles w' ! h = connection_shutdown payload io io' (pw_handles w ! h) \<and> acc' h = acc h \<and>
    fst (send_locked h packet io2 w') = Err ''Connection is closed''"
proof -
  have "\<not> has_sender (pw_handles (shutdown_locked h payload io io' w) ! h)"
    using assms(2) connection_shutdown_ok(2) by (simp add: shutdown_locked_def)
  then have "pw_handles w' ! h = pw_handles (shutdown_locked h payload io io' w) ! h" "acc' h = acc h"
    "\<not> has_sender (pw_handles w' ! h)"
    using dead_forever [OF assms(1), of h] assms(2) by (simp_all add: shutdown_locked_def)
  then show ?thesis
    using assms(2) by (simp add: shutdown_locked_def send_locked_def connection_send_def)
qed

lemma writer_dead_stays_dead_witness:
  "fst (send_locked 0 [69] None (shutdown_locked 0 None None None demo_writer_sent)) =
     Err ''Connection is closed''"
  using writer_dead_stays_dead [of 0 None None None demo_writer_sent "\<lambda>_. []" _ _ "[69]" None,
      OF rtranclp.rtrancl_refl] demo_writer_run(2) by simp

text \<open>What \<open>send\<close> counts.  A packet that is written is counted as sent; one that finds no
  connection, or whose write fails, is counted as dropped; but one that finds its connection shut
  down in the meantime is refused without being counted at all.\<close>
theorem writer_send_accounting:
  assumes "writer_ok (w, acc)" "h < length (pw_handles w)" "send_locked h packet io w = (r, w')"
  shows "(r = Ok () \<and> pw_stat w' = on_packet_sent packet (pw_stat w)) \<or>
    (\<exists>e. r = Err e \<and> has_sender (pw_handles w ! h) \<and> pw_stat w' = on_packet_dropped (pw_stat w)) \<or>
    (r = Err ''Connection is closed'' \<and> \<not> has_sender (pw_handles w ! h) \<and> w' = w)"
proof -
  obtain c' where c: "connection_send packet io (pw_handles w ! h) = (r, c')"
    and w': "w' = w\<lparr>pw_handles := (pw_handles w)[h := c'],
      pw_stat := (if is_ok r then on_packet_sent packet (pw_stat w)
        else if has_sender (pw_handles w ! h) then on_packet_dropped (pw_stat w) else pw_stat w)\<rparr>"
    using assms(3) by (auto simp: send_locked_def Let_def split: prod.splits)
  have "handle_ok (pw_handles w ! h) (acc h)" using assms(1,2) by (simp add: writer_ok_def)
  from connection_send_ok(2) [OF this c] show ?thesis
  proof (cases "has_sender (pw_handles w ! h)")
    case False
    then have "c' = pw_handles w ! h" "r = Err ''Connection is closed''"
      using c by (simp_all add: connection_send_def)
    with w' False show ?thesis by simp
  qed (use w' in auto)
qed

lemma writer_send_accounting_witness:
  "\<exists>e w'. send_locked 0 [69, 1] (Some (''broken'', 1)) demo_writer_sent = (Err e, w') \<and>
     pw_stat w' = on_packet_dropped (pw_stat demo_writer_sent)"
proof -
  obtain r w' where eq: "send_locked 0 [69, 1] (Some (''broken'', 1)) demo_writer_sent = (r, w')"
    by fastforce
  then have "r \<noteq> Ok ()"
    using demo_writer_run(3) by (auto simp: send_locked_def connection_send_def Let_def)
  then show ?thesis
    using writer_send_accounting [OF writer_ok_reachable [OF demo_writer_run(1)] _ eq] eq
      demo_writer_run(2,3) by auto
qed

end
