(* ===== verification/HiddenlinkConnection.thy ===== *)
theory HiddenlinkConnection imports PacketWriter Hiddenlink Net begin

unbundle bit_operations_syntax

text \<open>
  An established hiddenlink connection at both ends: \<open>HiddenlinkConnection\<close> of the server
  (\<open>src/src/transport/http/server/hiddenlink_connection.rs\<close>) and \<open>Connection\<close> of the client
  (\<open>src/src/transport/http/client/connection.rs\<close>, the part behind the handshake).

  \<open>packet_loop\<close> is the loop both run on their reader.  It may wait for ever, and an unexpected
  packet reader could keep it going, so it is a partial function; \<open>packet_loop_packets\<close> says that it
  returns, and what.  The statistics, which reader and writer share in the code, are a component of
  each: the reader touches the counters of what was received only, the writer the others.
\<close>

section \<open>The loop\<close>

partial_function (option) packet_loop ::
  "packet_reader \<Rightarrow> (bytes list \<times> (read_error, unit) outcome \<times> packet_reader) option" where
  "packet_loop r =
     (case read_packet r of
        (Ok (Some packet), r') \<Rightarrow>
          Option.bind (packet_loop r') (\<lambda>(packets, end_result, r''). Some (packet # packets, end_result, r''))
      | (Ok None, r') \<Rightarrow> Some ([], Ok (), r')
      | (Err e, r') \<Rightarrow> Some ([], Err e, r')
      | (Panic, r') \<Rightarrow> Some ([], Panic, r')
      | (Pending, r') \<Rightarrow> Some ([], Pending, r'))"

text \<open>How the stream ends for the loop: what a read of its tail gives.\<close>

definition loop_end :: "bytes \<Rightarrow> (read_error, bytes) outcome \<Rightarrow> (read_error, unit) outcome" where
  "loop_end tail fin = and_then (view_read tail fin) (\<lambda>_. Ok ())"

lemma packets_in_tail:
  "packets_in s = (ps, t) \<Longrightarrow> \<forall>p rest. parse_frame t \<noteq> Packet p rest"
proof (induction s arbitrary: ps rule: packets_in.induct)
  case (1 s)
  show ?case
  proof (cases "parse_frame s")
    case (Packet p rest)
    obtain qs u where r: "packets_in rest = (qs, u)" by fastforce
    with Packet "1.prems" have "t = u" by (simp add: packets_in.simps [of s])
    with "1.IH" [OF Packet] r show ?thesis by simp
  qed (use "1.prems" in \<open>auto simp: packets_in.simps [of s]\<close>)
qed

lemma packet_loop_packets:
  "reader_ready r \<Longrightarrow> \<exists>r'. packet_loop r =
     Some (fst (packets_in (reader_left r)), loop_end (snd (packets_in (reader_left r))) (reader_fin r), r')"
proof (induction "length (reader_left r)" arbitrary: r rule: less_induct)
  case less
  let ?s = "reader_left r"
  show ?case
  proof (cases "\<exists>p rest. parse_frame ?s = Packet p rest")
    case True
    then obtain p rest where p: "parse_frame ?s = Packet p rest" by blast
    from read_packet_Packet [OF less.prems p] obtain r' where
      r': "read_packet r = (Ok (Some p), r')" "reader_ready r'" "reader_left r' = rest"
      "reader_fin r' = reader_fin r" by blast
    have "length rest < length ?s" using parse_frame_Packet_size [OF p] by auto
    with less.hyps [of r'] r' obtain r'' where
      "packet_loop r' = Some (fst (packets_in rest), loop_end (snd (packets_in rest)) (reader_fin r), r'')"
      by auto
    moreover have "packets_in ?s = (p # fst (packets_in rest), snd (packets_in rest))"
      using p by (simp add: packets_in.simps [of ?s] split: prod.splits)
    ultimately show ?thesis by (subst packet_loop.simps) (simp add: r'(1))
  next
    case False
    then have s: "packets_in ?s = ([], ?s)"
      by (cases "parse_frame ?s") (auto simp: packets_in.simps [of ?s])
    obtain res r' where r': "read_packet r = (res, r')" by fastforce
    have res: "res = view_read ?s (reader_fin r)" using read_packet_view [OF less.prems] r' by simp
    have "\<forall>q. res \<noteq> Ok (Some q)"
      using False unfolding res view_read_def
      by (cases "parse_frame ?s"; cases "reader_fin r") (auto split: if_splits)
    then show ?thesis
      by (subst packet_loop.simps, cases res) (auto simp: r' s loop_end_def res [symmetric] split: option.splits)
  qed
qed

section \<open>The server's end\<close>

record hl_connection =
  hl_name :: string
  hl_flags :: connection_flags
  hl_writer :: packet_writer
  hl_reader :: packet_reader

text \<open>\<open>new\<close>: the two halves of the connection, joined by the error channel.  \<open>junk\<close> is the
  uninitialised buffer of the reader.\<close>

definition new_hl_connection ::
  "string \<Rightarrow> connection_flags \<Rightarrow> bytes \<Rightarrow> int \<Rightarrow> socket \<Rightarrow> bytes \<Rightarrow> conn_stat \<Rightarrow> hl_connection" where
  "new_hl_connection name flags preread fd read_half junk st =
     \<lparr>hl_name = name, hl_flags = flags,
      hl_writer = snd (writer_replace name fd \<lparr>written = [], shut = False\<rparr> (new_writer name st)),
      hl_reader = new_reader junk preread read_half Waiting st\<rparr>"

definition fake_http_response :: "bytes \<Rightarrow> bytes" where
  "fake_http_response payload = [0] @ u16_to_be_bytes (word_of_nat (length payload)) @ payload"

text \<open>\<open>handle\<close>: the packets that go to the tunnel, and the argument of the final \<open>close\<close>.  The
  packets of a connection that must not send are dropped.  \<open>payload_size.to_u16().unwrap()\<close> would
  panic above 65535.\<close>

definition hl_handle ::
  "bytes \<Rightarrow> hl_connection \<Rightarrow> (bytes list \<times> (unit, bytes option) outcome) option" where
  "hl_handle payload c =
     (case packet_loop (hl_reader c) of
        None \<Rightarrow> None
      | Some (packets, end_result, r') \<Rightarrow>
          Some (if contains (hl_flags c) FLAG_EGRESS then packets else [],
                case end_result of
                  Ok u \<Rightarrow> if length payload < 2 ^ 16 then Ok (Some (fake_http_response payload)) else Panic
                | Err e \<Rightarrow> Ok None
                | Panic \<Rightarrow> Panic
                | Pending \<Rightarrow> Pending))"

text \<open>The client's flags say what it does with the link: its ingress is this end's egress.\<close>

definition hl_direction :: "hl_connection \<Rightarrow> transport_direction" where
  "hl_direction c =
     (let d = dir_empty;
          d = (if contains (hl_flags c) FLAG_INGRESS then d OR DIR_EGRESS else d)
      in if contains (hl_flags c) FLAG_EGRESS then d OR DIR_INGRESS else d)"

definition hl_connected :: "hl_connection \<Rightarrow> bool" where
  "hl_connected c = writer_connected (hl_writer c)"

definition hl_ready_for_sending :: "hl_connection \<Rightarrow> bool" where
  "hl_ready_for_sending c \<longleftrightarrow>
     contains (hl_flags c) FLAG_INGRESS \<and> writer_ready_for_sending (hl_writer c)"

interpretation hl: connection_transport hl_direction hl_ready_for_sending hl_connected
  by unfold_locales
    (auto simp: hl_direction_def hl_ready_for_sending_def hl_connected_def writer_ready_for_sending_def
      Let_def intro: contains_or_left)

section \<open>The client's end\<close>

record client_config =
  cc_endpoint :: string
  cc_domain :: string
  cc_flags :: connection_flags
  cc_secret :: bytes
  cc_min_ttl :: duration
  cc_max_ttl :: "duration option"

record client_connection =
  cl_name :: string
  cl_config :: client_config
  cl_writer :: packet_writer
  cl_stat :: conn_stat

definition new_client_connection :: "string \<Rightarrow> client_config \<Rightarrow> conn_stat \<Rightarrow> client_connection" where
  "new_client_connection name config st =
     \<lparr>cl_name = name, cl_config = config, cl_writer = new_writer name st, cl_stat = st\<rparr>"

text \<open>\<open>process_connection\<close>: the packets that go to the tunnel, and whether the connection was closed
  gracefully.\<close>

definition process_connection ::
  "bytes \<Rightarrow> socket \<Rightarrow> oneshot \<Rightarrow> client_connection \<Rightarrow> (bytes list \<times> (unit, bool) outcome) option" where
  "process_connection junk connection error_rx c =
     (case packet_loop (new_reader junk [] connection error_rx (cl_stat c)) of
        None \<Rightarrow> None
      | Some (packets, end_result, r') \<Rightarrow>
          Some (if contains (cc_flags (cl_config c)) FLAG_INGRESS then packets else [],
                case end_result of
                  Ok u \<Rightarrow> Ok True | Err e \<Rightarrow> Ok False | Panic \<Rightarrow> Panic | Pending \<Rightarrow> Pending))"

definition cl_direction :: "client_connection \<Rightarrow> transport_direction" where
  "cl_direction c =
     (let d = dir_empty;
          d = (if contains (cc_flags (cl_config c)) FLAG_INGRESS then d OR DIR_INGRESS else d)
      in if contains (cc_flags (cl_config c)) FLAG_EGRESS then d OR DIR_EGRESS else d)"

definition cl_connected :: "client_connection \<Rightarrow> bool" where
  "cl_connected c = writer_connected (cl_writer c)"

definition cl_ready_for_sending :: "client_connection \<Rightarrow> bool" where
  "cl_ready_for_sending c \<longleftrightarrow>
     contains (cc_flags (cl_config c)) FLAG_EGRESS \<and> writer_connected (cl_writer c)"

definition cl_collect ::
  "(sample \<Rightarrow> 'enc \<Rightarrow> 'enc option) \<Rightarrow> tcp_ca_states \<Rightarrow> (int \<Rightarrow> socket_probe) \<Rightarrow> client_connection \<Rightarrow> 'enc
    \<Rightarrow> 'enc option" where
  "cl_collect emit ca probe c enc =
     Option.bind (collect_stat emit (cl_stat c) enc) (writer_collect emit ca probe (cl_writer c))"

interpretation cl: connection_transport cl_direction cl_ready_for_sending cl_connected
  by unfold_locales
    (auto simp: cl_direction_def cl_ready_for_sending_def cl_connected_def Let_def)

section \<open>The farewell\<close>

lemma parse_fake_response:
  assumes "3 \<le> length payload" "length payload + 3 \<le> MTU"
  shows "parse_frame (fake_http_response payload) = FakeResponse (3 + length payload)"
proof -
  let ?n = "word_of_nat (length payload) :: u16"
  have "length payload < 2 ^ 16" using assms(2) by (simp add: MTU_def)
  then have "unat ?n = length payload" by (simp add: unat_of_nat take_bit_nat_eq_self)
  moreover have "[fake_http_response payload ! 1, fake_http_response payload ! 2] = u16_to_be_bytes ?n"
    by (simp add: fake_http_response_def u16_to_be_bytes_Cons)
  then have "(from_be_bytes [fake_http_response payload ! 1, fake_http_response payload ! 2] :: u16) = ?n"
    by (metis from_to_be_bytes(1))
  moreover have "length (fake_http_response payload) = 3 + length payload"
    by (simp add: fake_http_response_def)
  moreover have "fake_http_response payload ! 0 = 0" by (simp add: fake_http_response_def)
  ultimately show ?thesis using assms(1) by (simp add: parse_frame_def)
qed

lemma farewell_end:
  assumes "3 \<le> length payload" "length payload + 3 \<le> MTU"
  shows "packets_in (fake_http_response payload) = ([], fake_http_response payload)"
    "loop_end (fake_http_response payload) (Ok []) = Ok ()"
proof -
  note p = parse_fake_response [OF assms]
  show "packets_in (fake_http_response payload) = ([], fake_http_response payload)"
    by (simp add: packets_in.simps [of "fake_http_response payload"] p)
  have "length (fake_http_response payload) = 3 + length payload"
    by (simp add: fake_http_response_def)
  then show "loop_end (fake_http_response payload) (Ok []) = Ok ()"
    using assms by (simp add: loop_end_def view_read_def p)
qed

lemma shutdown_with_farewell:
  assumes "has_sender c"
  shows "written (wc_socket (connection_shutdown (Some payload) None None c)) = written (wc_socket c) @ payload"
  using assms by (simp add: connection_shutdown_def)

lemma packets_before_tail:
  assumes "\<forall>p \<in> set ps. ip_packet p" "packets_in t = ([], t)"
  shows "packets_in (concat ps @ t) = (ps, t)"
  using packets_in_ip_packets [OF assms(1), of t] assms(2) by simp

text \<open>The server's end on its client's stream.\<close>

lemma server_handles_stream:
  assumes "length junk = MTU" "length payload < 2 ^ 16"
  shows "\<exists>farewell. hl_handle payload (new_hl_connection name flags preread fd s junk st) =
      Some (if contains flags FLAG_EGRESS then fst (packets_in (preread @ arriving s)) else [], farewell) \<and>
    (farewell = Ok (Some (fake_http_response payload)) \<longleftrightarrow>
       loop_end (snd (packets_in (preread @ arriving s))) (reader_end (ending s) Waiting) = Ok ())"
proof -
  obtain r' where "packet_loop (new_reader junk preread s Waiting st) =
    Some (fst (packets_in (preread @ arriving s)),
      loop_end (snd (packets_in (preread @ arriving s))) (reader_end (ending s) Waiting), r')"
    using packet_loop_packets [OF new_reader_ready [OF assms(1)], of preread s Waiting st] by auto
  then show ?thesis
    using assms(2) by (auto simp: hl_handle_def new_hl_connection_def split: outcome.splits)
qed

section \<open>Properties\<close>

text \<open>C16: from one end's tunnel to the other's.  The packets whose \<open>send\<close> has succeeded at the server's
  end, under whatever interleaving of its tasks, are exactly the packets that the client puts into
  its tunnel, whole and in order, however the network cuts the stream; when the server then says
  farewell the client takes that as a graceful end, although it is shaped like a packet.\<close>
theorem session_delivers:
  assumes "writer_step\<^sup>*\<^sup>* (new_writer name st, \<lambda>_. []) (w, acc)" "h < length (pw_handles w)"
    "has_sender (pw_handles w ! h)" "\<forall>p \<in> set (acc h). ip_packet p"
    "random_payload 200 (MTU - 3) payload"
    "arriving s = written (wc_socket
      (connection_shutdown (Some (fake_http_response payload)) None None (pw_handles w ! h)))"
    "ending s = Ok []" "length junk = MTU" "contains (cc_flags (cl_config c)) FLAG_INGRESS"
  shows "process_connection junk s rx c = Some (acc h, Ok True)"
proof -
  have len: "3 \<le> length payload" "length payload + 3 \<le> MTU"
    using assms(5) by (auto simp: random_payload_def MTU_def)
  have "handle_ok (pw_handles w ! h) (acc h)"
    using writer_ok_reachable [OF assms(1)] assms(2) by (simp add: writer_ok_def)
  then have "arriving s = concat (acc h) @ fake_http_response payload"
    using assms(3,6) by (simp add: handle_ok_def shutdown_with_farewell)
  moreover note packets_before_tail [OF assms(4) farewell_end(1) [OF len]]
  moreover note packet_loop_packets [OF new_reader_ready [OF assms(8)], of "[]" s rx "cl_stat c"]
  ultimately show ?thesis
    using assms(7,9) farewell_end(2) [OF len] by (auto simp: process_connection_def)
qed

definition demo_client :: client_connection where
  "demo_client = new_client_connection ''c''
     \<lparr>cc_endpoint = ''e'', cc_domain = ''d'', cc_flags = FLAG_INGRESS, cc_secret = [], cc_min_ttl = from_secs 1,
      cc_max_ttl = None\<rparr> (new_stat ''c'' ''c'')"

lemma session_delivers_witness:
  "process_connection (replicate MTU 0) [Recv sample_packet, Recv (fake_http_response (replicate 200 97)), Eof]
     Waiting demo_client = Some ([sample_packet], Ok True)"
proof -
  have "handle_ok (pw_handles demo_writer_sent ! 0) [sample_packet]"
    using writer_ok_reachable [OF demo_writer_run(1)] demo_writer_run(2) by (simp add: writer_ok_def)
  then have "arriving [Recv sample_packet, Recv (fake_http_response (replicate 200 97)), Eof] =
      written (wc_socket (connection_shutdown (Some (fake_http_response (replicate 200 97))) None None
        (pw_handles demo_writer_sent ! 0)))"
    using demo_writer_run(3) by (simp add: shutdown_with_farewell handle_ok_def)
  moreover have "random_payload 200 (MTU - 3) (replicate 200 97)"
    by (simp add: random_payload_replicate MTU_def)
  moreover have "contains (cc_flags (cl_config demo_client)) FLAG_INGRESS"
    by (simp add: demo_client_def new_client_connection_def)
  ultimately show ?thesis
    using session_delivers [OF demo_writer_run(1), of 0 "replicate 200 97"
        "[Recv sample_packet, Recv (fake_http_response (replicate 200 97)), Eof]" "replicate MTU 0" demo_client Waiting]
      demo_writer_run(2,3) ip_packet_sample by simp
qed

text \<open>C22: the server's end.  Of a client's stream the server tunnels exactly the packets in it, the
  bytes read ahead included, and none at all if the client has declared no egress; it says farewell
  if and only if the client's stream ended between packets.\<close>
theorem server_end_handles:
  assumes "length junk = MTU" "length payload < 2 ^ 16"
  shows "\<exists>farewell. hl_handle payload (new_hl_connection name flags preread fd s junk st) =
      Some (if contains flags FLAG_EGRESS then fst (packets_in (preread @ arriving s)) else [], farewell) \<and>
    (farewell = Ok (Some (fake_http_response payload)) \<longleftrightarrow>
       loop_end (snd (packets_in (preread @ arriving s))) (reader_end (ending s) Waiting) = Ok ())"
  using assms by (rule server_handles_stream)

lemma server_end_handles_witness:
  "\<exists>farewell. hl_handle (replicate 200 97)
      (new_hl_connection ''c'' FLAG_EGRESS (take 3 sample_packet) 4 [Recv (drop 3 sample_packet), Eof]
         (replicate MTU 0) (new_stat ''c'' ''c'')) = Some ([sample_packet], farewell)"
proof -
  have "packets_in (concat [sample_packet] @ []) = ([sample_packet], [])"
    by (rule packets_before_tail) (simp_all add: ip_packet_sample packets_in.simps [of "[]"] parse_frame_def)
  then have "packets_in (take 3 sample_packet @ drop 3 sample_packet) = ([sample_packet], [])" by simp
  then show ?thesis
    using server_end_handles [of "replicate MTU 0" "replicate 200 97" "''c''" FLAG_EGRESS "take 3 sample_packet"
        4 "[Recv (drop 3 sample_packet), Eof]" "new_stat ''c'' ''c''"] by auto
qed

end
