(* ===== verification/Connections.thy ===== *)
theory Connections imports Transport "HOL-Library.AList" begin

unbundle bit_operations_syntax

text \<open>
  \<open>src/src/transport/connections.rs\<close>: a pool of connections by name, which picks one of those
  that are ready for each packet, the same one for all packets between two hosts.

  A pooled connection is an \<open>Arc\<close>, identified with its pointer: \<open>Arc::ptr_eq\<close> is equality on
  \<open>'a\<close>.  What the pool asks a connection (\<open>name\<close>, \<open>ready_for_sending\<close>) is a function argument.
  The map is an association list, in the order in which it is iterated; the properties do not
  depend on that order.  \<open>random_state\<close> is the hash function of the pool's \<open>RandomState\<close>.
\<close>

record 'a transport_connections =
  random_state :: "bytes \<Rightarrow> u64"
  connections :: "(string \<times> 'a) list"

definition new_connections :: "(bytes \<Rightarrow> u64) \<Rightarrow> 'a transport_connections" where
  "new_connections hash_one = \<lparr>random_state = hash_one, connections = []\<rparr>"

definition add ::
  "('a \<Rightarrow> string) \<Rightarrow> 'a \<Rightarrow> 'a transport_connections \<Rightarrow> bool \<times> 'a transport_connections" where
  "add name c pool =
     (map_of (connections pool) (name c) = None,
      pool\<lparr>connections := AList.update (name c) c (connections pool)\<rparr>)"

definition remove :: "('a \<Rightarrow> string) \<Rightarrow> 'a \<Rightarrow> 'a transport_connections \<Rightarrow> 'a transport_connections" where
  "remove name c pool =
     (if map_of (connections pool) (name c) = Some c
      then pool\<lparr>connections := AList.delete (name c) (connections pool)\<rparr> else pool)"

definition pool_len :: "'a transport_connections \<Rightarrow> nat" where
  "pool_len pool = length (connections pool)"

definition pool_values :: "'a transport_connections \<Rightarrow> 'a list" where
  "pool_values pool = map snd (connections pool)"

definition pool_ready :: "('a \<Rightarrow> bool) \<Rightarrow> 'a transport_connections \<Rightarrow> bool" where
  "pool_ready ready pool = list_ex ready (pool_values pool)"

text \<open>The source and destination addresses of an IP packet with a whole header.\<close>

definition flow_addresses :: "bytes \<Rightarrow> bytes option" where
  "flow_addresses packet =
     (if drop_bit 4 (packet ! 0) = 4 \<and> 20 \<le> length packet then Some (subslice 12 20 packet)
      else if drop_bit 4 (packet ! 0) = 6 \<and> 40 \<le> length packet then Some (subslice 8 40 packet)
      else None)"

text \<open>With one ready connection or none the packet is not looked at; \<open>packet[0]\<close> would panic on an
  empty one.\<close>

definition select ::
  "('a \<Rightarrow> bool) \<Rightarrow> bytes \<Rightarrow> 'a transport_connections \<Rightarrow> (unit, 'a option) outcome" where
  "select ready packet pool =
     (let ready_connections = filter ready (pool_values pool) in
      case ready_connections of
        [] \<Rightarrow> Ok None
      | [c] \<Rightarrow> Ok (Some c)
      | c # _ \<Rightarrow>
          if packet = [] then Panic
          else case flow_addresses packet of
            None \<Rightarrow> Ok (Some c)
          | Some addresses \<Rightarrow>
              let hash = random_state pool addresses;
                  index = hash mod word_of_nat (length ready_connections)
              in Ok (Some (ready_connections ! unat index)))"

section \<open>The map\<close>

definition pool_ok :: "('a \<Rightarrow> string) \<Rightarrow> 'a transport_connections \<Rightarrow> bool" where
  "pool_ok name pool \<longleftrightarrow> distinct (map fst (connections pool)) \<and>
     (\<forall>(n, c) \<in> set (connections pool). n = name c)"

lemma pool_ok_new: "pool_ok name (new_connections h)"
  by (simp add: pool_ok_def new_connections_def)

lemma set_update_subset: "set (AList.update k v al) \<subseteq> insert (k, v) (set al)"
  by (induction al) auto

lemma pool_ok_add: "pool_ok name pool \<Longrightarrow> pool_ok name (snd (add name c pool))"
  using set_update_subset [of "name c" c "connections pool"]
  by (fastforce simp: pool_ok_def add_def distinct_update)

lemma pool_ok_remove: "pool_ok name pool \<Longrightarrow> pool_ok name (remove name c pool)"
  by (auto simp: pool_ok_def remove_def distinct_delete) (auto simp: AList.delete_eq)

lemma map_of_add: "map_of (connections (snd (add name c pool))) = (map_of (connections pool))(name c \<mapsto> c)"
  by (simp add: add_def update_conv')

lemma map_of_remove:
  "map_of (connections (remove name c pool)) =
     (if map_of (connections pool) (name c) = Some c then (map_of (connections pool))(name c := None)
      else map_of (connections pool))"
  by (simp add: remove_def delete_conv')

lemma pool_values_map_of:
  "pool_ok name pool \<Longrightarrow> c \<in> set (pool_values pool) \<longleftrightarrow> map_of (connections pool) (name c) = Some c"
  by (force simp: pool_ok_def pool_values_def image_iff dest: map_of_SomeD)

lemma pool_values_distinct: "pool_ok name pool \<Longrightarrow> distinct (pool_values pool)"
proof -
  assume ok: "pool_ok name pool"
  then have "map fst (connections pool) = map name (pool_values pool)"
    by (auto simp: pool_ok_def pool_values_def)
  with ok show ?thesis by (simp add: pool_ok_def distinct_map)
qed

section \<open>Selection\<close>

lemma unat_mod_less: "0 < n \<Longrightarrow> n < 2 ^ 64 \<Longrightarrow> unat ((h :: u64) mod word_of_nat n) < n"
  by (simp add: unat_mod unat_of_nat take_bit_nat_eq_self)

lemma select_cases:
  assumes "select ready packet pool = r" "length (pool_values pool) < 2 ^ 64"
  obtains (none) "filter ready (pool_values pool) = []" "r = Ok None"
    | (panic) "packet = []" "r = Panic" "2 \<le> length (filter ready (pool_values pool))"
    | (one) c where "r = Ok (Some c)" "c \<in> set (pool_values pool)" "ready c"
proof -
  let ?rs = "filter ready (pool_values pool)"
  have len: "length ?rs < 2 ^ 64" using assms(2) by (meson length_filter_le order.strict_trans1)
  show thesis
  proof (cases ?rs rule: remdups_adj.cases)
    case 1
    then show ?thesis using assms(1) none by (simp add: select_def)
  next
    case (2 c)
    then have "c \<in> set ?rs" by simp
    then have "c \<in> set (pool_values pool)" "ready c" by simp_all
    moreover have "r = Ok (Some c)" using assms(1) 2 by (simp add: select_def)
    ultimately show ?thesis by (rule one [rotated])
  next
    case (3 c d rest)
    then have c: "c \<in> set ?rs" "0 < length ?rs" by simp_all
    then have cs: "c \<in> set (pool_values pool)" "ready c" by simp_all
    show ?thesis
    proof (cases "packet = [] \<or> flow_addresses packet = None")
      case True
      then have "packet = [] \<and> r = Panic \<or> r = Ok (Some c)"
        using assms(1) 3 by (cases "packet = []") (simp_all add: select_def)
      then show ?thesis using panic 3 one [OF _ cs] by auto
    next
      case False
      then obtain a where a: "packet \<noteq> []" "flow_addresses packet = Some a" by auto
      let ?i = "unat (random_state pool a mod word_of_nat (length ?rs))"
      have "?rs ! ?i \<in> set ?rs" using unat_mod_less [OF c(2) len] by (rule nth_mem)
      moreover have "r = Ok (Some (?rs ! ?i))" using assms(1) 3 a by (auto simp: select_def Let_def)
      ultimately show ?thesis using one by simp
    qed
  qed
qed

lemma select_flow:
  assumes "flow_addresses p = Some a" "flow_addresses q = Some a" "p \<noteq> []" "q \<noteq> []"
  shows "select ready p pool = select ready q pool"
  using assms by (auto simp: select_def Let_def split: list.splits)

lemma select_ready:
  assumes "length (pool_values pool) < 2 ^ 64" "packet \<noteq> []"
  shows "(if pool_ready ready pool
     then \<exists>c. select ready packet pool = Ok (Some c) \<and> c \<in> set (pool_values pool) \<and> ready c
     else select ready packet pool = Ok None)"
  by (rule select_cases [OF refl assms(1), of ready packet])
    (use assms(2) in \<open>auto simp: pool_ready_def list_ex_iff filter_empty_conv\<close>)

text \<open>IP packets by their fields: \<open>flow_low\<close> is the lower half of the first byte, \<open>flow_middle\<close> what is between it and
  the addresses (of an IPv4 header: its length fields, identification, time to live, protocol and checksum),
  \<open>rest\<close> the options and the data.  \<open>flow_header_ok\<close> are the sizes of the two formats.\<close>

record flow_header =
  flow_v6 :: bool
  flow_low :: u8
  flow_middle :: bytes
  flow_source :: bytes
  flow_destination :: bytes

definition flow_header_ok :: "flow_header \<Rightarrow> bool" where
  "flow_header_ok h \<longleftrightarrow> flow_low h < 16 \<and>
     (if flow_v6 h then length (flow_middle h) = 7 \<and> length (flow_source h) = 16 \<and> length (flow_destination h) = 16
      else length (flow_middle h) = 11 \<and> length (flow_source h) = 4 \<and> length (flow_destination h) = 4)"

definition flow_packet :: "flow_header \<Rightarrow> bytes \<Rightarrow> bytes" where
  "flow_packet h rest =
     ((if flow_v6 h then 0x60 else 0x40) + flow_low h) # flow_middle h @ flow_source h @ flow_destination h @ rest"

lemma flow_version:
  assumes "n < (16 :: u8)"
  shows "drop_bit 4 (0x40 + n) = (4 :: u8)" "drop_bit 4 (0x60 + n) = (6 :: u8)"
proof -
  have n: "unat n < 16" using assms by (simp add: word_less_nat_alt)
  then have "unat (0x40 + n) = 64 + unat n" "unat (0x60 + n) = 96 + unat n"
    by (simp_all add: unat_word_ariths)
  with n show "drop_bit 4 (0x40 + n) = (4 :: u8)" "drop_bit 4 (0x60 + n) = (6 :: u8)"
    by (simp_all add: word_unat_eq_iff unat_drop_bit_eq drop_bit_eq_div unat_div)
qed

lemma flow_addresses_packet:
  assumes "flow_header_ok h"
  shows "flow_addresses (flow_packet h rest) = Some (flow_source h @ flow_destination h)"
proof (cases "flow_v6 h")
  case True
  with assms have "flow_low h < 16" "length (flow_middle h) = 7" "length (flow_source h) = 16" "length (flow_destination h) = 16"
    by (simp_all add: flow_header_ok_def)
  with True show ?thesis by (simp add: flow_addresses_def flow_packet_def flow_version subslice_def)
next
  case False
  with assms have "flow_low h < 16" "length (flow_middle h) = 11" "length (flow_source h) = 4" "length (flow_destination h) = 4"
    by (simp_all add: flow_header_ok_def)
  with False show ?thesis by (simp add: flow_addresses_def flow_packet_def flow_version subslice_def)
qed

lemma select_hashed:
  assumes "packet \<noteq> []" "flow_addresses packet = Some a" "2 \<le> length (filter ready (pool_values pool))"
  shows "select ready packet pool = Ok (Some (filter ready (pool_values pool) !
    unat (random_state pool a mod word_of_nat (length (filter ready (pool_values pool))))))"
  using assms by (auto simp: select_def Let_def split: list.splits)

text \<open>What the pool promises of the connection it selects is what the connections' contract says
  of a ready one.\<close>

context connection_transport begin

lemma select_carries:
  assumes "select ready_for_sending packet pool = Ok (Some c)" "length (pool_values pool) < 2 ^ 64"
  shows "c \<in> set (pool_values pool) \<and> contains (direction c) DIR_EGRESS \<and> connected c"
  by (rule select_cases [OF assms]) (auto intro: ready_egress ready_connected)

lemma pool_ready_connected:
  "pool_ready ready_for_sending pool \<Longrightarrow>
     \<exists>c \<in> set (pool_values pool). connected c \<and> contains (direction c) DIR_EGRESS"
  by (auto simp: pool_ready_def list_ex_iff intro: ready_egress ready_connected)

end

section \<open>Properties\<close>

text \<open>Selection.  A packet with at least one byte gets a connection if and only if one is
  ready, and then one that is in the pool and ready; it never panics.\<close>
theorem select_total:
  assumes "length (pool_values pool) < 2 ^ 64" "packet \<noteq> []"
  shows "(if pool_ready ready pool
     then \<exists>c. select ready packet pool = Ok (Some c) \<and> c \<in> set (pool_values pool) \<and> ready c
     else select ready packet pool = Ok None)"
  using assms by (rule select_ready)

definition demo_pool :: "nat transport_connections" where
  "demo_pool = \<lparr>random_state = (\<lambda>a. of_nat (length a)), connections = [(''a'', 1), (''b'', 2), (''c'', 3)]\<rparr>"

lemma select_total_witness:
  "\<exists>c. select (\<lambda>c. c \<noteq> 2) [0x45] demo_pool = Ok (Some c) \<and> c \<in> {1, 2, 3} \<and> c \<noteq> 2"
  using select_total [of demo_pool "[0x45]" "\<lambda>c. c \<noteq> 2"]
  by (simp add: demo_pool_def pool_values_def pool_ready_def)

text \<open>C37: affinity.  All IP packets from one host to another go through the same connection as long as
  the set of ready connections stays as it is, whatever else their headers and data hold; and among
  several ready connections that is the one that the hash of the two addresses, of nothing else, picks.\<close>
theorem select_same_flow:
  assumes "flow_header_ok h" "flow_header_ok h'" "flow_source h = flow_source h'" "flow_destination h = flow_destination h'"
    "filter ready (pool_values pool) = filter ready' (pool_values pool)"
  shows "select ready (flow_packet h rest) pool = select ready' (flow_packet h' rest') pool \<and>
    (let cs = filter ready (pool_values pool) in 2 \<le> length cs \<longrightarrow>
       select ready (flow_packet h rest) pool =
         Ok (Some (cs ! unat (random_state pool (flow_source h @ flow_destination h) mod word_of_nat (length cs)))))"
proof -
  have ne: "flow_packet k b \<noteq> []" for k b by (simp add: flow_packet_def)
  note a = flow_addresses_packet [OF assms(1), of rest]
  have "flow_addresses (flow_packet h' rest') = Some (flow_source h @ flow_destination h)"
    using flow_addresses_packet [OF assms(2), of rest'] assms(3,4) by simp
  from select_flow [OF a this ne ne, of ready pool] assms(5) select_hashed [OF ne a, of ready pool]
  show ?thesis by (simp add: select_def)
qed

lemma select_same_flow_witness:
  "select (\<lambda>c. True) (flow_packet \<lparr>flow_v6 = False, flow_low = 5, flow_middle = replicate 11 1,
       flow_source = [10, 0, 0, 1], flow_destination = [10, 0, 0, 2]\<rparr> [9, 9]) demo_pool
   = select (\<lambda>c. c < 9) (flow_packet \<lparr>flow_v6 = False, flow_low = 6, flow_middle = replicate 11 2,
       flow_source = [10, 0, 0, 1], flow_destination = [10, 0, 0, 2]\<rparr> []) demo_pool"
proof -
  have "filter (\<lambda>c. True) (pool_values demo_pool) = filter (\<lambda>c. c < 9) (pool_values demo_pool)"
    by (simp add: demo_pool_def pool_values_def)
  from select_same_flow [OF _ _ _ _ this] show ?thesis by (simp add: flow_header_ok_def Let_def)
qed

text \<open>Ownership.  In a pool every connection is filed under its own name, once; adding one
  replaces the one of that name and says so, and a connection that is removed after it was
  replaced leaves its successor in place.\<close>
theorem pool_ownership:
  assumes "pool_ok name pool"
  shows "pool_ok name (snd (add name c pool)) \<and> pool_ok name (remove name d pool) \<and>
    (fst (add name c pool) \<longleftrightarrow> name c \<notin> name ` set (pool_values pool)) \<and>
    set (pool_values (snd (add name c pool))) =
      insert c {e \<in> set (pool_values pool). name e \<noteq> name c} \<and>
    set (pool_values (remove name d pool)) = set (pool_values pool) - {d}"
proof (intro conjI)
  note add_ok = pool_ok_add [OF assms, of c] and rem_ok = pool_ok_remove [OF assms, of d]
  show "pool_ok name (snd (add name c pool))" "pool_ok name (remove name d pool)" by fact+
  have "map_of (connections pool) (name c) = Some e \<Longrightarrow> name e = name c" for e
    using assms by (auto simp: pool_ok_def dest: map_of_SomeD)
  then have "map_of (connections pool) (name c) \<noteq> None \<longleftrightarrow>
      (\<exists>e. e \<in> set (pool_values pool) \<and> name e = name c)"
    using pool_values_map_of [OF assms] by (metis not_Some_eq)
  then show "fst (add name c pool) \<longleftrightarrow> name c \<notin> name ` set (pool_values pool)"
    by (auto simp: add_def image_iff)
  show "set (pool_values (snd (add name c pool))) =
      insert c {e \<in> set (pool_values pool). name e \<noteq> name c}"
    by (auto simp: pool_values_map_of [OF assms] pool_values_map_of [OF add_ok] map_of_add split: if_splits)
  show "set (pool_values (remove name d pool)) = set (pool_values pool) - {d}"
  proof (rule set_eqI)
    fix e
    show "e \<in> set (pool_values (remove name d pool)) \<longleftrightarrow> e \<in> set (pool_values pool) - {d}"
      by (cases "map_of (connections pool) (name d) = Some d"; cases "name e = name d")
        (simp_all add: pool_values_map_of [OF assms] pool_values_map_of [OF rem_ok] map_of_remove, auto)
  qed
qed

lemma pool_ownership_witness:
  "set (pool_values (remove (\<lambda>c. ''x'') (1::nat) (snd (add (\<lambda>c. ''x'') 2
     (snd (add (\<lambda>c. ''x'') 1 (new_connections (\<lambda>_. 0)))))))) = {2} - {1}"
  using pool_ownership [of "\<lambda>c. ''x''" "snd (add (\<lambda>c. ''x'') 2
     (snd (add (\<lambda>c. ''x'') (1::nat) (new_connections (\<lambda>_. 0)))))" 1 1]
  by (simp add: pool_ok_add pool_ok_new) (simp add: add_def new_connections_def pool_values_def)

end
