(* ===== verification/HttpServer.thy ===== *)
theory HttpServer imports HiddenlinkConnection Connections ServerConnection begin

unbundle bit_operations_syntax

text \<open>
  \<open>src/src/transport/http/server/mod.rs\<close>: the server's HTTPS transport, which accepts connections up
  to a limit and keeps the hiddenlink ones among them in a pool.

  A hiddenlink connection's \<open>Arc\<close> is its index in \<open>hs_heap\<close>.  The statistics that outlive a
  connection are a map by connection name.  The accept loop and the connections' tasks interleave
  as the steps of \<open>accept_step\<close>.
\<close>

section \<open>The pool of hiddenlink connections\<close>

record http_server =
  hs_name :: string
  hs_labels :: labels
  hs_active :: "nat transport_connections"
  hs_stat :: "(string \<times> conn_stat) list"
  hs_heap :: "hl_connection list"

definition new_http_server :: "(bytes \<Rightarrow> u64) \<Rightarrow> string \<Rightarrow> http_server" where
  "new_http_server hash_one name =
     \<lparr>hs_name = name, hs_labels = transport_labels name, hs_active = new_connections hash_one,
      hs_stat = [], hs_heap = []\<rparr>"

definition hs_nm :: "http_server \<Rightarrow> nat \<Rightarrow> string" where
  "hs_nm hs i = (if i < length (hs_heap hs) then hl_name (hs_heap hs ! i) else [])"

text \<open>The statistics of a name, created with its first connection.\<close>

definition stat_entry :: "string \<Rightarrow> http_server \<Rightarrow> conn_stat \<times> http_server" where
  "stat_entry name hs =
     (case map_of (hs_stat hs) name of
        Some st \<Rightarrow> (st, hs)
      | None \<Rightarrow> let st = new_stat (hs_name hs) name in (st, hs\<lparr>hs_stat := (name, st) # hs_stat hs\<rparr>))"

text \<open>A request is admitted: the handle of its connection, and whether it replaced no other one.\<close>

definition admit ::
  "hiddenlink_request \<Rightarrow> int \<Rightarrow> socket \<Rightarrow> bytes \<Rightarrow> http_server \<Rightarrow> (nat \<times> bool) \<times> http_server" where
  "admit request fd connection junk hs =
     (let (st, hs1) = stat_entry (req_name request) hs;
          c = new_hl_connection (req_name request) (req_flags request) (req_preread_data request) fd connection junk st;
          h = length (hs_heap hs1);
          hs2 = hs1\<lparr>hs_heap := hs_heap hs1 @ [c]\<rparr>;
          (fresh, pool) = add (hs_nm hs2) h (hs_active hs2)
      in ((h, fresh), hs2\<lparr>hs_active := pool\<rparr>))"

definition retire :: "nat \<Rightarrow> http_server \<Rightarrow> http_server" where
  "retire h hs = hs\<lparr>hs_active := remove (hs_nm hs) h (hs_active hs)\<rparr>"

section \<open>The transport\<close>

definition hs_direction :: "http_server \<Rightarrow> transport_direction" where
  "hs_direction hs = dir_all"

definition hs_connected :: "http_server \<Rightarrow> bool" where
  "hs_connected hs =
     contains
       (fold (\<lambda>i directions. if hl_connected (hs_heap hs ! i) then directions OR hl_direction (hs_heap hs ! i)
              else directions) (pool_values (hs_active hs)) dir_empty)
       (hs_direction hs)"

definition hs_ready :: "http_server \<Rightarrow> nat \<Rightarrow> bool" where
  "hs_ready hs i = hl_ready_for_sending (hs_heap hs ! i)"

definition hs_ready_for_sending :: "http_server \<Rightarrow> bool" where
  "hs_ready_for_sending hs = pool_ready (hs_ready hs) (hs_active hs)"

definition hs_send_via :: "bytes \<Rightarrow> http_server \<Rightarrow> (string, nat) outcome" where
  "hs_send_via packet hs =
     (case select (hs_ready hs) packet (hs_active hs) of
        Ok (Some i) \<Rightarrow> Ok i
      | Ok None \<Rightarrow> Err ''There is no open connections''
      | Panic \<Rightarrow> Panic
      | _ \<Rightarrow> Pending)"

interpretation hs: egress_transport hs_direction hs_ready_for_sending
  by unfold_locales (simp add: hs_direction_def)

text \<open>The handles of the pool keep the contract of the connections they stand for.\<close>

interpretation hs_handle: connection_transport
  "\<lambda>i. hl_direction (hs_heap hs ! i)" "hs_ready hs" "\<lambda>i. hl_connected (hs_heap hs ! i)" for hs
  by unfold_locales (auto simp: hs_ready_def intro: hl.ready_egress hl.ready_connected)

section \<open>The limit on connections\<close>

text \<open>\<open>max_open_files\<close> is the soft limit of the process, \<open>max_permits\<close> the semaphore's own limit.\<close>

definition max_proxied_connections :: "nat \<Rightarrow> nat \<Rightarrow> nat" where
  "max_proxied_connections max_open_files max_permits = min (max_open_files div 2) max_permits"

record acceptor =
  free_permits :: nat
  holds_permit :: bool
  running :: nat
  connections_gauge :: int

definition new_acceptor :: "nat \<Rightarrow> acceptor" where
  "new_acceptor permits =
     \<lparr>free_permits = permits, holds_permit = False, running = 0, connections_gauge = 0\<rparr>"

text \<open>A permit is taken before a connection is accepted, is given back if that fails, and goes with
  the connection's task, which gives it back when the connection has been served or has become a
  hiddenlink connection.\<close>

inductive accept_step :: "acceptor \<Rightarrow> acceptor \<Rightarrow> bool" where
  acquire: "\<not> holds_permit a \<Longrightarrow> 0 < free_permits a \<Longrightarrow>
    accept_step a (a\<lparr>holds_permit := True, free_permits := free_permits a - 1\<rparr>)"
| accept_error: "holds_permit a \<Longrightarrow>
    accept_step a (a\<lparr>holds_permit := False, free_permits := free_permits a + 1\<rparr>)"
| accepted: "holds_permit a \<Longrightarrow>
    accept_step a (a\<lparr>holds_permit := False, running := running a + 1,
      connections_gauge := connections_gauge a + 1\<rparr>)"
| finished: "0 < running a \<Longrightarrow>
    accept_step a (a\<lparr>running := running a - 1, connections_gauge := connections_gauge a - 1,
      free_permits := free_permits a + 1\<rparr>)"

section \<open>Construction\<close>

record http_server_config =
  hsc_bind_address :: socket_addr
  hsc_default_domain :: "string \<times> string"
  hsc_additional_domains :: "(string \<times> string) list"
  hsc_upstreams :: upstreams_config

record ('cfg, 'ccfg) http_server_transport =
  hst_pool :: http_server
  hst_domains :: "'cfg tls_domains"
  hst_routing_rules :: "protocol_spec list"
  hst_upstreams :: upstreams_config
  hst_tls_client_config :: 'ccfg
  hst_acceptor :: acceptor

datatype server_error =
    TlsDomainsFailed tls_error
  | RootsFailed string
  | OpenFilesLimit string
  | ServerBindFailed string

text \<open>\<open>load\<close> loads a certificate with its key; the root certificates, the TLS client configuration
  made of them, the limit of open files and the result of \<open>bind\<close> are the system's.\<close>

definition new_http_server_transport ::
  "(string \<Rightarrow> string) \<Rightarrow> (string \<Rightarrow> string) \<Rightarrow> (string \<Rightarrow> string \<Rightarrow> (tls_error, string list \<times> 'cfg) outcome)
    \<Rightarrow> string + 'roots \<Rightarrow> ('roots \<Rightarrow> 'ccfg) \<Rightarrow> string + nat \<Rightarrow> nat \<Rightarrow> (socket_addr \<Rightarrow> string option) \<Rightarrow> (bytes \<Rightarrow> u64)
    \<Rightarrow> string \<Rightarrow> http_server_config \<Rightarrow> (server_error, ('cfg, 'ccfg) http_server_transport) outcome" where
  "new_http_server_transport urlencode sha224_hex load roots client_config open_files max_permits bind hash_one name c =
     and_then (map_err TlsDomainsFailed (new_tls_domains load (hsc_default_domain c) (hsc_additional_domains c))) (\<lambda>ds.
       case roots of
         Inl e \<Rightarrow> Err (RootsFailed e)
       | Inr store \<Rightarrow>
           (case open_files of
              Inl e \<Rightarrow> Err (OpenFilesLimit e)
            | Inr max_open_files \<Rightarrow>
                (case bind (hsc_bind_address c) of
                   Some e \<Rightarrow> Err (ServerBindFailed e)
                 | None \<Rightarrow>
                     Ok \<lparr>hst_pool = new_http_server hash_one name, hst_domains = ds,
                         hst_routing_rules = as_routing_rules urlencode sha224_hex (hsc_upstreams c),
                         hst_upstreams = hsc_upstreams c, hst_tls_client_config = client_config store,
                         hst_acceptor = new_acceptor (max_proxied_connections max_open_files max_permits)\<rparr>)))"

definition hst_connection ::
  "(socket_addr \<Rightarrow> string) \<Rightarrow> socket_addr \<Rightarrow> socket_addr \<Rightarrow> ('cfg, 'ccfg) http_server_transport
    \<Rightarrow> ('cfg, 'ccfg) server_connection" where
  "hst_connection show_addr peer loc t =
     new_server_connection show_addr peer loc (hst_domains t) (hst_routing_rules t) (hst_upstreams t)
       (hst_tls_client_config t)"

section \<open>Invariant of the limit\<close>

definition acceptor_ok :: "nat \<Rightarrow> acceptor \<Rightarrow> bool" where
  "acceptor_ok permits a \<longleftrightarrow>
     free_permits a + running a + (if holds_permit a then 1 else 0) = permits \<and>
     connections_gauge a = int (running a)"

lemma acceptor_ok_step: "accept_step a b \<Longrightarrow> acceptor_ok permits a \<Longrightarrow> acceptor_ok permits b"
  by (induction rule: accept_step.induct) (auto simp: acceptor_ok_def)

lemma acceptor_ok_reachable: "accept_step\<^sup>*\<^sup>* (new_acceptor permits) a \<Longrightarrow> acceptor_ok permits a"
proof (induction rule: rtranclp_induct)
  case base
  then show ?case by (simp add: acceptor_ok_def new_acceptor_def)
qed (rule acceptor_ok_step)

section \<open>Invariant of the pool\<close>

definition server_ok :: "http_server \<Rightarrow> bool" where
  "server_ok hs \<longleftrightarrow> pool_ok (hs_nm hs) (hs_active hs) \<and>
     (\<forall>i \<in> set (pool_values (hs_active hs)). i < length (hs_heap hs)) \<and>
     distinct (map fst (hs_stat hs)) \<and>
     (\<forall>c \<in> set (hs_heap hs). hl_name c \<in> fst ` set (hs_stat hs))"

lemma server_ok_new: "server_ok (new_http_server h name)"
  by (simp add: server_ok_def new_http_server_def pool_ok_def new_connections_def pool_values_def)

text \<open>A transport that is constructed starts with an empty pool; its connections route by the
  configured rules, and can always choose a certificate.\<close>

lemma new_http_server_transport_cases:
  assumes "hex_digest sha224_hex"
  shows "case new_http_server_transport urlencode sha224_hex (load_certs read_certs read_keys single_cert) roots
      client_config open_files max_permits bind hash_one name c of
    Ok t \<Rightarrow> server_ok (hst_pool t) \<and>
      (\<forall>show_addr peer loc. configured urlencode sha224_hex (hst_connection show_addr peer loc t)) \<and>
      (\<forall>show_addr peer loc requested alpn. is_ok (negotiate_tls requested alpn (hst_connection show_addr peer loc t)))
  | Err e \<Rightarrow> True | _ \<Rightarrow> False"
proof (cases "new_tls_domains (load_certs read_certs read_keys single_cert) (hsc_default_domain c) (hsc_additional_domains c)")
  case (Ok ds)
  then have ds: "loaded ds"
    using new_tls_domains_cases [of read_certs read_keys single_cert "hsc_default_domain c" "hsc_additional_domains c"]
    by simp
  then show ?thesis using Ok assms
    by (auto simp: new_http_server_transport_def server_ok_new configured_def hst_connection_def
        new_server_connection_def negotiate_tls_loaded split: sum.split option.split)
next
  case (Err e)
  then show ?thesis by (simp add: new_http_server_transport_def)
qed (use new_tls_domains_cases [of read_certs read_keys single_cert "hsc_default_domain c" "hsc_additional_domains c"] in simp_all)


lemma stat_entry_simps:
  assumes "stat_entry name hs = (st, hs')"
  shows "hs_active hs' = hs_active hs" "hs_heap hs' = hs_heap hs" "hs_name hs' = hs_name hs"
    "fst ` set (hs_stat hs') = insert name (fst ` set (hs_stat hs))"
    "distinct (map fst (hs_stat hs)) \<Longrightarrow> distinct (map fst (hs_stat hs'))"
    "map_of (hs_stat hs') name = Some st"
    "\<And>n s. map_of (hs_stat hs) n = Some s \<Longrightarrow> map_of (hs_stat hs') n = Some s"
  using assms
  by (auto simp: stat_entry_def Let_def map_of_eq_None_iff rev_image_eqI split: option.splits dest: map_of_SomeD)
    (force dest: map_of_SomeD)+

text \<open>Growing the heap changes no name of a handle in the pool.\<close>

lemma pool_ok_grow:
  assumes "pool_ok nm pool" "\<forall>i \<in> set (pool_values pool). nm' i = nm i"
  shows "pool_ok nm' pool"
  using assms by (fastforce simp: pool_ok_def pool_values_def)

lemma admit_pool:
  assumes "admit request fd connection junk hs = ((h, fresh), hs')"
  obtains st hs1 c where "stat_entry (req_name request) hs = (st, hs1)" "h = length (hs_heap hs)"
    "c = new_hl_connection (req_name request) (req_flags request) (req_preread_data request) fd connection junk st"
    "hs_heap hs' = hs_heap hs @ [c]" "hs_stat hs' = hs_stat hs1"
    "(fresh, hs_active hs') = add (hs_nm hs') h (hs_active hs)"
    "hs_nm hs' h = req_name request" "\<And>i. i < h \<Longrightarrow> hs_nm hs' i = hs_nm hs i"
proof -
  obtain st hs1 where s: "stat_entry (req_name request) hs = (st, hs1)" by fastforce
  note e = stat_entry_simps [OF s]
  let ?c = "new_hl_connection (req_name request) (req_flags request) (req_preread_data request) fd connection junk st"
  let ?hs2 = "hs1\<lparr>hs_heap := hs_heap hs1 @ [?c]\<rparr>"
  obtain fr pool where a: "add (hs_nm ?hs2) (length (hs_heap hs)) (hs_active hs) = (fr, pool)" by fastforce
  then have hs': "h = length (hs_heap hs)" "fresh = fr" "hs' = ?hs2\<lparr>hs_active := pool\<rparr>"
    using assms by (auto simp: admit_def s e(1,2) Let_def)
  have nm: "hs_nm hs' = hs_nm ?hs2" by (rule ext) (simp add: hs_nm_def hs'(3))
  show ?thesis
  proof (rule that [OF s hs'(1) refl])
    show "hs_heap hs' = hs_heap hs @ [?c]" "hs_stat hs' = hs_stat hs1" by (simp_all add: hs' e(2))
    show "(fresh, hs_active hs') = add (hs_nm hs') h (hs_active hs)"
      unfolding nm by (simp add: hs'(1,2) a) (simp add: hs'(3))
    show "hs_nm hs' h = req_name request" by (simp add: nm hs_nm_def hs'(1) e(2) new_hl_connection_def)
    show "hs_nm hs' i = hs_nm hs i" if "i < h" for i
      using that by (simp add: nm hs_nm_def hs'(1) e(2) nth_append)
  qed
qed

lemma server_ok_admit:
  assumes "server_ok hs" "admit request fd connection junk hs = ((h, fresh), hs')"
  shows "server_ok hs'"
    "set (pool_values (hs_active hs')) = insert h {i \<in> set (pool_values (hs_active hs)). hs_nm hs i \<noteq> req_name request}"
proof -
  from admit_pool [OF assms(2)] obtain st hs1 c where a: "stat_entry (req_name request) hs = (st, hs1)"
    "h = length (hs_heap hs)"
    "c = new_hl_connection (req_name request) (req_flags request) (req_preread_data request) fd connection junk st"
    "hs_heap hs' = hs_heap hs @ [c]" "hs_stat hs' = hs_stat hs1"
    "(fresh, hs_active hs') = add (hs_nm hs') h (hs_active hs)"
    "hs_nm hs' h = req_name request" "\<And>i. i < h \<Longrightarrow> hs_nm hs' i = hs_nm hs i" by blast
  have bound: "\<forall>i \<in> set (pool_values (hs_active hs)). i < h"
    using assms(1) a(2) by (simp add: server_ok_def)
  have same: "\<forall>i \<in> set (pool_values (hs_active hs)). hs_nm hs' i = hs_nm hs i"
    using bound a(8) by blast
  have "pool_ok (hs_nm hs) (hs_active hs)" using assms(1) by (simp add: server_ok_def)
  from pool_ok_grow [OF this same] have p: "pool_ok (hs_nm hs') (hs_active hs)" .
  have act: "hs_active hs' = snd (add (hs_nm hs') h (hs_active hs))" using a(6) by (metis snd_conv)
  have p': "pool_ok (hs_nm hs') (hs_active hs')" using pool_ok_add [OF p] act by simp
  have "e \<in> set (pool_values (hs_active hs')) \<longleftrightarrow>
      e = h \<or> e \<in> set (pool_values (hs_active hs)) \<and> hs_nm hs' e \<noteq> req_name request" for e
    unfolding act pool_values_map_of [OF pool_ok_add [OF p]] pool_values_map_of [OF p] map_of_add a(7)
    by (cases "hs_nm hs' e = req_name request") (use a(7) in auto)
  then show vals: "set (pool_values (hs_active hs')) =
      insert h {i \<in> set (pool_values (hs_active hs)). hs_nm hs i \<noteq> req_name request}"
    using same by auto
  have "hl_name c = req_name request" by (simp add: a(3) new_hl_connection_def)
  then show "server_ok hs'"
    using assms(1) p' vals bound a(2,4,5) stat_entry_simps(4,5) [OF a(1)]
    by (auto simp: server_ok_def)
qed

lemma server_ok_retire:
  assumes "server_ok hs"
  shows "server_ok (retire h hs)"
    "set (pool_values (hs_active (retire h hs))) = set (pool_values (hs_active hs)) - {h}"
proof -
  have p: "pool_ok (hs_nm hs) (hs_active hs)" using assms by (simp add: server_ok_def)
  note p' = pool_ok_remove [OF p, of h]
  have nm: "hs_nm (retire h hs) = hs_nm hs" by (rule ext) (simp add: hs_nm_def retire_def)
  show vals: "set (pool_values (hs_active (retire h hs))) = set (pool_values (hs_active hs)) - {h}"
  proof (rule set_eqI)
    fix e
    show "e \<in> set (pool_values (hs_active (retire h hs))) \<longleftrightarrow> e \<in> set (pool_values (hs_active hs)) - {h}"
      using pool_values_map_of [OF p, of e] pool_values_map_of [OF p', of e]
      by (cases "map_of (connections (hs_active hs)) (hs_nm hs h) = Some h"; cases "hs_nm hs e = hs_nm hs h")
        (simp_all add: retire_def map_of_remove, auto)
  qed
  show "server_ok (retire h hs)"
    using assms p' vals nm unfolding server_ok_def by (simp add: retire_def)
qed

section \<open>Directions\<close>

lemma hl_direction_flags:
  "contains (hl_direction c) DIR_EGRESS \<longleftrightarrow> contains (hl_flags c) FLAG_INGRESS"
  "contains (hl_direction c) DIR_INGRESS \<longleftrightarrow> contains (hl_flags c) FLAG_EGRESS"
  by (auto simp: hl_direction_def Let_def dir_defs contains_def bit_simps)

lemma contains_fold_or:
  assumes "\<And>d e. contains (d OR e) f \<longleftrightarrow> contains d f \<or> contains e f" "\<not> contains 0 f"
  shows "contains (fold (\<lambda>i d. if P i then d OR g i else d) xs d0) f \<longleftrightarrow>
    contains d0 f \<or> (\<exists>i \<in> set xs. P i \<and> contains (g i) f)"
  by (induction xs arbitrary: d0) (auto simp: assms(1))

text \<open>A flag of one bit is in a union if it is in one of its parts.\<close>

lemma contains_flag:
  assumes "n < LENGTH('a)"
  shows "contains s (push_bit n 1 :: 'a::len word) \<longleftrightarrow> bit s n"
proof -
  have "bit (push_bit n 1 :: 'a word) m \<longleftrightarrow> m = n" for m
    unfolding bit_push_bit_iff using assms by (auto simp: bit_1_iff)
  then show ?thesis unfolding contains_iff_bits by simp
qed

lemma contains_direction_or:
  "contains (d OR e) DIR_EGRESS \<longleftrightarrow> contains d DIR_EGRESS \<or> contains e DIR_EGRESS"
  "contains (d OR e) DIR_INGRESS \<longleftrightarrow> contains d DIR_INGRESS \<or> contains e DIR_INGRESS"
proof -
  have "contains s DIR_EGRESS \<longleftrightarrow> bit s 1" "contains s DIR_INGRESS \<longleftrightarrow> bit s 0" for s
    unfolding DIR_EGRESS_def DIR_INGRESS_def by (rule contains_flag; simp)+
  then show "contains (d OR e) DIR_EGRESS \<longleftrightarrow> contains d DIR_EGRESS \<or> contains e DIR_EGRESS"
    "contains (d OR e) DIR_INGRESS \<longleftrightarrow> contains d DIR_INGRESS \<or> contains e DIR_INGRESS"
    by (simp_all only: bit_or_iff)
qed

lemma hs_connected_iff:
  "hs_connected hs \<longleftrightarrow>
     (\<exists>i \<in> set (pool_values (hs_active hs)). hl_connected (hs_heap hs ! i) \<and> contains (hl_flags (hs_heap hs ! i)) FLAG_INGRESS) \<and>
     (\<exists>i \<in> set (pool_values (hs_active hs)). hl_connected (hs_heap hs ! i) \<and> contains (hl_flags (hs_heap hs ! i)) FLAG_EGRESS)"
proof -
  have n: "\<not> contains 0 DIR_INGRESS" "\<not> contains 0 DIR_EGRESS"
    by (simp_all add: contains_def dir_defs)
  show ?thesis
    unfolding hs_connected_def hs_direction_def dir_all_def contains_or_iff dir_empty_def
      contains_fold_or [OF contains_direction_or(1) n(2)] contains_fold_or [OF contains_direction_or(2) n(1)]
      hl_direction_flags
    using n by blast
qed

section \<open>Properties\<close>

text \<open>Reconnections.  A client that connects again under its name replaces its former connection
  in the pool at once, and only that one; when the former connection's task ends later, the new
  one stays; and the pool's invariant holds throughout.\<close>
theorem reconnect_replaces:
  assumes "server_ok hs" "admit request fd connection junk hs = ((h, fresh), hs')"
    "i \<in> set (pool_values (hs_active hs))" "hs_nm hs i = req_name request"
  shows "server_ok (retire i hs') \<and> h \<in> set (pool_values (hs_active (retire i hs'))) \<and>
    i \<notin> set (pool_values (hs_active hs')) \<and>
    set (pool_values (hs_active (retire i hs'))) =
      insert h {j \<in> set (pool_values (hs_active hs)). hs_nm hs j \<noteq> req_name request}"
proof -
  note a = server_ok_admit [OF assms(1,2)]
  have "i < length (hs_heap hs)" using assms(1,3) by (simp add: server_ok_def)
  moreover have "h = length (hs_heap hs)" using admit_pool [OF assms(2)] by metis
  ultimately have "i \<notin> set (pool_values (hs_active hs'))" using a(2) assms(4) by auto
  then show ?thesis using a server_ok_retire [OF a(1), of i] by auto
qed

definition demo_hl_request :: hiddenlink_request where
  "demo_hl_request = \<lparr>req_name = ''home'', req_flags = FLAG_INGRESS, req_preread_data = []\<rparr>"

definition demo_http_server :: http_server where
  "demo_http_server = snd (admit demo_hl_request 3 [] [] (new_http_server (\<lambda>_. 0) ''s''))"

lemma demo_http_server_ok:
  "server_ok demo_http_server" "pool_values (hs_active demo_http_server) = [0]" "hs_nm demo_http_server 0 = ''home''"
proof -
  obtain h fresh where a: "admit demo_hl_request 3 [] [] (new_http_server (\<lambda>_. 0) ''s'') = ((h, fresh), demo_http_server)"
    unfolding demo_http_server_def by (metis prod.collapse)
  show "server_ok demo_http_server" by (rule server_ok_admit(1) [OF server_ok_new a])
  show "pool_values (hs_active demo_http_server) = [0]" "hs_nm demo_http_server 0 = ''home''"
    by (simp_all add: demo_http_server_def admit_def new_http_server_def stat_entry_def Let_def add_def
        new_connections_def pool_values_def hs_nm_def new_hl_connection_def demo_hl_request_def)
qed

lemma demo_http_server_ready: "hs_ready_for_sending demo_http_server"
  by (simp add: hs_ready_for_sending_def pool_ready_def demo_http_server_ok hs_ready_def)
    (simp add: demo_http_server_def admit_def new_http_server_def stat_entry_def Let_def add_def
      demo_hl_request_def new_hl_connection_def hl_ready_for_sending_def writer_ready_for_sending_def
      writer_connected_def writer_replace_def)

lemma reconnect_replaces_witness:
  "\<exists>h fresh hs'. admit demo_hl_request 4 [] [] demo_http_server = ((h, fresh), hs') \<and>
     set (pool_values (hs_active (retire 0 hs'))) = {h}"
proof -
  obtain h fresh hs' where a: "admit demo_hl_request 4 [] [] demo_http_server = ((h, fresh), hs')"
    by (metis prod.collapse)
  have "0 \<in> set (pool_values (hs_active demo_http_server))" "hs_nm demo_http_server 0 = req_name demo_hl_request"
    by (simp_all add: demo_http_server_ok demo_hl_request_def)
  from reconnect_replaces [OF demo_http_server_ok(1) a this] a show ?thesis
    by (auto simp: demo_http_server_ok demo_hl_request_def)
qed

text \<open>When the server is connected.  Exactly if it has, among its open hiddenlink connections, one
  to a client that takes packets in and one to a client that sends packets out.\<close>
theorem server_connected_iff:
  "hs_connected hs \<longleftrightarrow>
     (\<exists>i \<in> set (pool_values (hs_active hs)). hl_connected (hs_heap hs ! i) \<and> contains (hl_flags (hs_heap hs ! i)) FLAG_INGRESS) \<and>
     (\<exists>i \<in> set (pool_values (hs_active hs)). hl_connected (hs_heap hs ! i) \<and> contains (hl_flags (hs_heap hs ! i)) FLAG_EGRESS)"
  by (rule hs_connected_iff)

text \<open>The limit on connections.  However accepting and serving interleave, the number of
  connections served at a time, handshakes included, stays within the limit, the gauge shows it,
  and no permit is lost: when nothing runs all of them are free again.\<close>
theorem accept_limit:
  assumes "accept_step\<^sup>*\<^sup>* (new_acceptor permits) a"
  shows "running a \<le> permits \<and> connections_gauge a = int (running a) \<and>
    (running a = 0 \<and> \<not> holds_permit a \<longrightarrow> free_permits a = permits) \<and>
    (running a = permits \<longrightarrow> \<not> holds_permit a \<and> free_permits a = 0)"
  using acceptor_ok_reachable [OF assms] by (auto simp: acceptor_ok_def split: if_splits)

lemma accept_limit_witness:
  "\<exists>a. accept_step\<^sup>*\<^sup>* (new_acceptor 1) a \<and> running a = 1 \<and> free_permits a = 0"
proof -
  define a1 where "a1 = (new_acceptor 1)\<lparr>holds_permit := True, free_permits := 0\<rparr>"
  define a2 where "a2 = a1\<lparr>holds_permit := False, running := 1, connections_gauge := 1\<rparr>"
  have "accept_step (new_acceptor 1) a1"
    using accept_step.acquire [of "new_acceptor 1"] by (simp add: a1_def new_acceptor_def)
  moreover have "accept_step a1 a2"
    using accept_step.accepted [of a1] by (simp add: a1_def a2_def new_acceptor_def)
  ultimately have run: "accept_step\<^sup>*\<^sup>* (new_acceptor 1) a2"
    by (meson rtranclp.rtrancl_into_rtrancl rtranclp.rtrancl_refl)
  moreover have "running a2 = 1" by (simp add: a2_def)
  ultimately show ?thesis using accept_limit [OF run] by auto
qed

text \<open>Sending through the server.  A packet is sent over a connection of the pool that is open and
  whose client takes packets in, if there is one, and refused with an error otherwise.\<close>
theorem server_send:
  assumes "length (pool_values (hs_active hs)) < 2 ^ 64" "packet \<noteq> []"
  shows "if hs_ready_for_sending hs
    then \<exists>i \<in> set (pool_values (hs_active hs)). hs_send_via packet hs = Ok i \<and>
      hl_connected (hs_heap hs ! i) \<and> contains (hl_flags (hs_heap hs ! i)) FLAG_INGRESS
    else hs_send_via packet hs = Err ''There is no open connections''"
proof -
  have pick: "if hs_ready_for_sending hs
     then \<exists>i. select (hs_ready hs) packet (hs_active hs) = Ok (Some i)
     else select (hs_ready hs) packet (hs_active hs) = Ok None"
    using select_ready [OF assms, of "hs_ready hs"] by (auto simp: hs_ready_for_sending_def split: if_splits)
  show ?thesis
  proof (cases "hs_ready_for_sending hs")
    case True
    with pick obtain i where i: "select (hs_ready hs) packet (hs_active hs) = Ok (Some i)" by auto
    from hs_handle.select_carries [OF this assms(1)] i True show ?thesis
      by (auto simp: hs_send_via_def hl_direction_flags)
  qed (use pick in \<open>simp add: hs_send_via_def\<close>)
qed

lemma server_send_witness:
  "\<exists>i. hs_send_via [69] demo_http_server = Ok i \<and> contains (hl_flags (hs_heap demo_http_server ! i)) FLAG_INGRESS"
proof -
  have "length (pool_values (hs_active demo_http_server)) < 2 ^ 64" by (simp add: demo_http_server_ok)
  then show ?thesis using server_send [of demo_http_server "[69]"] demo_http_server_ready by auto
qed

end
