(* ===== verification/ServerLife.thy ===== *)
theory ServerLife imports ServerSession HttpServer begin

text \<open>
  The server's transport as it runs: the accept loop with its limit, the tasks it spawns, and what becomes
  of each of their connections (\<open>HttpServerTransport::handle\<close> of \<open>src/src/transport/http/server/mod.rs\<close>).

  A task serves its connection (\<open>ServerSession\<close>), and gives its permit back; if the client has passed the
  handshake it then files the connection in the pool, tunnels its packets to the end, and removes it.
  A task carries the stream of its client, as a witness of where it comes from.
\<close>

section \<open>Tasks\<close>

datatype task_state = Serving | Admitting hiddenlink_request | Tunneling nat | TaskDone

record server_life =
  life_acceptor :: acceptor
  life_server :: http_server
  life_tasks :: "(socket \<times> task_state) list"

definition start_life :: "('cfg, 'ccfg) http_server_transport \<Rightarrow> server_life" where
  "start_life t = \<lparr>life_acceptor = hst_acceptor t, life_server = hst_pool t, life_tasks = []\<rparr>"

text \<open>What the task of a connection does next.\<close>

fun after_serving :: "served \<Rightarrow> task_state" where
  "after_serving v = (case served_request v of Some request \<Rightarrow> Admitting request | None \<Rightarrow> TaskDone)"

text \<open>The loop waits for a permit or a connection; it accepts one; a task has served its connection; files
  it; it ends; and meanwhile connections send and receive, which changes neither their names nor the
  pool.\<close>

inductive life_step ::
  "(socket_addr \<Rightarrow> string) \<Rightarrow> (bytes \<Rightarrow> 'ccfg \<Rightarrow> 'ccfg) \<Rightarrow> ('cfg, 'ccfg) http_server_transport
    \<Rightarrow> server_life \<Rightarrow> server_life \<Rightarrow> bool"
  for show_addr push_alpn t where
  waits: "accept_step (life_acceptor s) a \<Longrightarrow> running a = running (life_acceptor s) \<Longrightarrow>
    life_step show_addr push_alpn t s (s\<lparr>life_acceptor := a\<rparr>)"
| accepts: "accept_step (life_acceptor s) a \<Longrightarrow> running a = running (life_acceptor s) + 1 \<Longrightarrow>
    life_step show_addr push_alpn t s (s\<lparr>life_acceptor := a, life_tasks := life_tasks s @ [(stream, Serving)]\<rparr>)"
| serves: "i < length (life_tasks s) \<Longrightarrow> life_tasks s ! i = (stream, Serving) \<Longrightarrow>
    handle_connection show_addr push_alpn x env pe in_time sent (hst_connection show_addr peer loc t) stream = (Ok v, rest) \<Longrightarrow>
    accept_step (life_acceptor s) a \<Longrightarrow> running a + 1 = running (life_acceptor s) \<Longrightarrow>
    life_step show_addr push_alpn t s
      (s\<lparr>life_acceptor := a, life_tasks := (life_tasks s)[i := (stream, after_serving v)]\<rparr>)"
| files: "i < length (life_tasks s) \<Longrightarrow> life_tasks s ! i = (stream, Admitting request) \<Longrightarrow>
    admit request fd connection junk (life_server s) = ((h, fresh), hs) \<Longrightarrow>
    life_step show_addr push_alpn t s
      (s\<lparr>life_server := hs, life_tasks := (life_tasks s)[i := (stream, Tunneling h)]\<rparr>)"
| works: "map hl_name (hs_heap hs) = map hl_name (hs_heap (life_server s)) \<Longrightarrow> hs_active hs = hs_active (life_server s) \<Longrightarrow>
    map fst (hs_stat hs) = map fst (hs_stat (life_server s)) \<Longrightarrow>
    life_step show_addr push_alpn t s (s\<lparr>life_server := hs\<rparr>)"
| ends: "i < length (life_tasks s) \<Longrightarrow> life_tasks s ! i = (stream, Tunneling h) \<Longrightarrow>
    life_step show_addr push_alpn t s
      (s\<lparr>life_server := retire h (life_server s), life_tasks := (life_tasks s)[i := (stream, TaskDone)]\<rparr>)"

section \<open>Invariant\<close>

definition serving :: "server_life \<Rightarrow> nat" where
  "serving s = length (filter (\<lambda>x. snd x = Serving) (life_tasks s))"

definition tunneling :: "server_life \<Rightarrow> nat list" where
  "tunneling s = concat (map (\<lambda>x. case snd x of Tunneling h \<Rightarrow> [h] | _ \<Rightarrow> []) (life_tasks s))"

text \<open>No connection of the same name has been filed later.\<close>

definition latest :: "http_server \<Rightarrow> nat \<Rightarrow> bool" where
  "latest hs h \<longleftrightarrow> (\<forall>h' < length (hs_heap hs). h < h' \<longrightarrow> hs_nm hs h' \<noteq> hs_nm hs h)"

fun admitted :: "task_state \<Rightarrow> bool" where
  "admitted (Admitting request) = True"
| "admitted (Tunneling h) = True"
| "admitted st = False"

definition life_ok :: "bytes \<Rightarrow> nat \<Rightarrow> server_life \<Rightarrow> bool" where
  "life_ok secret permits s \<longleftrightarrow>
     acceptor_ok permits (life_acceptor s) \<and> running (life_acceptor s) = serving s \<and>
     server_ok (life_server s) \<and> distinct (tunneling s) \<and>
     (\<forall>h \<in> set (tunneling s). h < length (hs_heap (life_server s))) \<and>
     (\<forall>h. h \<in> set (pool_values (hs_active (life_server s))) \<longleftrightarrow> h \<in> set (tunneling s) \<and> latest (life_server s) h) \<and>
     (\<forall>(stream, st) \<in> set (life_tasks s). admitted st \<longrightarrow> prefix secret (arriving stream))"

text \<open>The tasks around one of them, and what becomes of them when its state is replaced.\<close>

lemma task_split:
  assumes "i < length (life_tasks s)" "life_tasks s ! i = x"
  obtains before after where "life_tasks s = before @ x # after" "\<And>y. (life_tasks s)[i := y] = before @ y # after"
proof (rule that)
  show "life_tasks s = take i (life_tasks s) @ x # drop (Suc i) (life_tasks s)"
    using id_take_nth_drop [OF assms(1)] assms(2) by simp
  show "(life_tasks s)[i := y] = take i (life_tasks s) @ y # drop (Suc i) (life_tasks s)" for y
    by (rule upd_conv_take_nth_drop [OF assms(1)])
qed

lemma handle_connection_request:
  assumes "configured urlencode sha224_hex sc"
    "handle_connection show_addr push_alpn x env pe in_time sent sc s = (Ok v, rest)" "served_request v = Some request"
  shows "prefix (encode_secret_for_http1 urlencode (hiddenlink_secret (sc_upstreams sc))) (arriving s)"
proof -
  have proxied: "served_request w = None" if "proxy_request pe preread s' spec = Ok w" for preread s' spec w
    using that by (auto simp: proxy_request_def served_nothing_def split: outcome.splits prod.splits)
  have nothing: "served_request (served_nothing\<lparr>served_reply := bs\<rparr>) = None" for bs by (simp add: served_nothing_def)
  from assms(2,3) obtain s' where "process_handshake show_addr push_alpn x env sc s = (Ok (Some (RouteHiddenlink request)), s')"
    by (auto simp: handle_connection_def Let_def nothing dest!: proxied
        split: prod.splits outcome.splits if_splits option.splits routing_decision.splits) (auto simp: served_nothing_def)
  then obtain domain negotiated where "process_routing_decision show_addr push_alpn env domain negotiated sc s = (Ok (RouteHiddenlink request), s')"
    by (auto simp: process_handshake_def split: prod.splits outcome.splits tls_result.splits)
  from decision_cases [OF assms(1) this] show ?thesis by auto
qed

section \<open>The invariant holds\<close>

lemma life_ok_start:
  assumes "hst_acceptor t = new_acceptor permits" "hst_pool t = new_http_server hash_one name"
  shows "life_ok secret permits (start_life t)"
proof -
  have "acceptor_ok permits (new_acceptor permits)" using acceptor_ok_reachable by blast
  then show ?thesis
    using assms server_ok_new [of hash_one name]
    by (simp add: life_ok_def start_life_def serving_def tunneling_def new_acceptor_def)
      (simp add: new_http_server_def pool_values_def new_connections_def)
qed

lemma latest_same:
  "map hl_name (hs_heap hs') = map hl_name (hs_heap hs) \<Longrightarrow> latest hs' = latest hs"
  "map hl_name (hs_heap hs') = map hl_name (hs_heap hs) \<Longrightarrow> hs_nm hs' = hs_nm hs"
proof -
  assume a: "map hl_name (hs_heap hs') = map hl_name (hs_heap hs)"
  then have len: "length (hs_heap hs') = length (hs_heap hs)" using map_eq_imp_length_eq by blast
  show nm: "hs_nm hs' = hs_nm hs"
    by (rule ext) (metis a len hs_nm_def nth_map)
  show "latest hs' = latest hs" by (rule ext) (simp add: latest_def nm len)
qed

text \<open>The states of the tasks when one of them is replaced.\<close>

lemma replaced_task:
  assumes "i < length (life_tasks s)" "life_tasks s ! i = (stream, st)" "life_tasks s' = (life_tasks s)[i := (stream, st')]"
  shows "serving s' + (if st = Serving then 1 else 0) = serving s + (if st' = Serving then 1 else 0)"
    "st = Tunneling h \<Longrightarrow> \<forall>h'. st' \<noteq> Tunneling h' \<Longrightarrow> distinct (tunneling s) \<Longrightarrow>
       set (tunneling s') = set (tunneling s) - {h} \<and> distinct (tunneling s')"
    "\<forall>h. st \<noteq> Tunneling h \<Longrightarrow> st' = Tunneling h \<Longrightarrow> h \<notin> set (tunneling s) \<Longrightarrow> distinct (tunneling s) \<Longrightarrow>
       set (tunneling s') = insert h (set (tunneling s)) \<and> distinct (tunneling s')"
    "\<forall>h. st \<noteq> Tunneling h \<Longrightarrow> \<forall>h. st' \<noteq> Tunneling h \<Longrightarrow> tunneling s' = tunneling s"
    "\<forall>(stream, st) \<in> set (life_tasks s). admitted st \<longrightarrow> prefix secret (arriving stream) \<Longrightarrow>
       admitted st' \<longrightarrow> prefix secret (arriving stream) \<Longrightarrow>
       \<forall>(stream, st) \<in> set (life_tasks s'). admitted st \<longrightarrow> prefix secret (arriving stream)"
proof -
  obtain before after where t: "life_tasks s = before @ (stream, st) # after" "life_tasks s' = before @ (stream, st') # after"
    using task_split [OF assms(1,2)] assms(3) by metis
  show "serving s' + (if st = Serving then 1 else 0) = serving s + (if st' = Serving then 1 else 0)"
    by (simp add: serving_def t)
  show "st = Tunneling h \<Longrightarrow> \<forall>h'. st' \<noteq> Tunneling h' \<Longrightarrow> distinct (tunneling s) \<Longrightarrow>
       set (tunneling s') = set (tunneling s) - {h} \<and> distinct (tunneling s')"
    by (cases st') (auto simp: tunneling_def t)
  show "\<forall>h. st \<noteq> Tunneling h \<Longrightarrow> st' = Tunneling h \<Longrightarrow> h \<notin> set (tunneling s) \<Longrightarrow> distinct (tunneling s) \<Longrightarrow>
       set (tunneling s') = insert h (set (tunneling s)) \<and> distinct (tunneling s')"
    by (cases st) (auto simp: tunneling_def t)
  show "\<forall>h. st \<noteq> Tunneling h \<Longrightarrow> \<forall>h. st' \<noteq> Tunneling h \<Longrightarrow> tunneling s' = tunneling s"
    by (cases st; cases st') (simp_all add: tunneling_def t)
  show "\<forall>(stream, st) \<in> set (life_tasks s'). admitted st \<longrightarrow> prefix secret (arriving stream)"
    if "\<forall>(stream, st) \<in> set (life_tasks s). admitted st \<longrightarrow> prefix secret (arriving stream)"
      "admitted st' \<longrightarrow> prefix secret (arriving stream)"
    using that by (auto simp: t)
qed

text \<open>Filing a connection replaces the one of its name; and it is the latest of its name then.\<close>

lemma latest_files:
  assumes "server_ok hs" "admit request fd connection junk hs = ((h, fresh), hs')"
  shows "h = length (hs_heap hs)" "length (hs_heap hs') = Suc h" "latest hs' h"
    "i < h \<Longrightarrow> latest hs' i \<longleftrightarrow> latest hs i \<and> hs_nm hs i \<noteq> req_name request"
proof -
  from admit_pool [OF assms(2)] have a: "h = length (hs_heap hs)" "length (hs_heap hs') = Suc h"
    "hs_nm hs' h = req_name request" "\<And>i. i < h \<Longrightarrow> hs_nm hs' i = hs_nm hs i"
    by (metis length_append_singleton)+
  then show "h = length (hs_heap hs)" "length (hs_heap hs') = Suc h" by blast+
  show "latest hs' h" by (simp add: latest_def a(2))
  show "latest hs' i \<longleftrightarrow> latest hs i \<and> hs_nm hs i \<noteq> req_name request" if "i < h"
    unfolding latest_def a(2) using that a(1,3,4) by (auto simp: less_Suc_eq)
qed

lemma life_ok_waits:
  assumes "life_ok secret permits s" "accept_step (life_acceptor s) a" "running a = running (life_acceptor s)"
  shows "life_ok secret permits (s\<lparr>life_acceptor := a\<rparr>)"
  using assms acceptor_ok_step [OF assms(2)] by (simp add: life_ok_def serving_def tunneling_def)

lemma life_ok_accepts:
  assumes "life_ok secret permits s" "accept_step (life_acceptor s) a" "running a = running (life_acceptor s) + 1"
  shows "life_ok secret permits (s\<lparr>life_acceptor := a, life_tasks := life_tasks s @ [(stream, Serving)]\<rparr>)"
  using assms acceptor_ok_step [OF assms(2)] by (simp add: life_ok_def serving_def tunneling_def)

lemma life_ok_serves:
  assumes "life_ok secret permits s" "i < length (life_tasks s)" "life_tasks s ! i = (stream, Serving)"
    "accept_step (life_acceptor s) a" "running a + 1 = running (life_acceptor s)"
    "st = Admitting request \<and> prefix secret (arriving stream) \<or> st = TaskDone"
  shows "life_ok secret permits (s\<lparr>life_acceptor := a, life_tasks := (life_tasks s)[i := (stream, st)]\<rparr>)"
proof -
  let ?s = "s\<lparr>life_acceptor := a, life_tasks := (life_tasks s)[i := (stream, st)]\<rparr>"
  have t: "life_tasks ?s = (life_tasks s)[i := (stream, st)]" by simp
  note r = replaced_task [OF assms(2,3) t]
  have "serving ?s + 1 = serving s" "tunneling ?s = tunneling s" using r(1,4) assms(6) by auto
  moreover have "\<forall>(stream, st) \<in> set (life_tasks ?s). admitted st \<longrightarrow> prefix secret (arriving stream)"
    using assms(1,6) by (intro r(5)) (auto simp: life_ok_def)
  ultimately show ?thesis using assms(1,5) acceptor_ok_step [OF assms(4)] by (simp add: life_ok_def del: set_list_update)
qed

lemma life_ok_files:
  assumes "life_ok secret permits s" "i < length (life_tasks s)" "life_tasks s ! i = (stream, Admitting request)"
    "admit request fd connection junk (life_server s) = ((h, fresh), hs)"
  shows "life_ok secret permits (s\<lparr>life_server := hs, life_tasks := (life_tasks s)[i := (stream, Tunneling h)]\<rparr>)"
proof -
  let ?s = "s\<lparr>life_server := hs, life_tasks := (life_tasks s)[i := (stream, Tunneling h)]\<rparr>"
  have t: "life_tasks ?s = (life_tasks s)[i := (stream, Tunneling h)]" by simp
  note r = replaced_task [OF assms(2,3) t]
  have ok: "server_ok (life_server s)" "distinct (tunneling s)"
    "\<forall>h \<in> set (tunneling s). h < length (hs_heap (life_server s))"
    "\<forall>h. h \<in> set (pool_values (hs_active (life_server s))) \<longleftrightarrow> h \<in> set (tunneling s) \<and> latest (life_server s) h"
    using assms(1) by (simp_all add: life_ok_def)
  note l = latest_files [OF ok(1) assms(4)] and admitted = server_ok_admit [OF ok(1) assms(4)]
  have new: "h \<notin> set (tunneling s)" using ok(3) l(1) by auto
  have tun: "set (tunneling ?s) = insert h (set (tunneling s))" "distinct (tunneling ?s)"
    using r(3) [OF _ refl new ok(2)] by auto
  have "serving ?s = serving s" using r(1) by simp
  moreover have old: "k < h" if "k \<in> set (tunneling s)" for k using ok(3) l(1) that by simp
  have "k \<in> set (pool_values (hs_active hs)) \<longleftrightarrow> k \<in> set (tunneling ?s) \<and> latest hs k" for k
    unfolding tun(1) admitted(2) using ok(4) l(3) l(4) [of k] old [of k] by auto
  moreover have "\<forall>k \<in> set (tunneling ?s). k < length (hs_heap hs)" using ok(3) l(1,2) tun(1) by auto
  moreover have "prefix secret (arriving stream)"
    using assms(1-3) nth_mem [OF assms(2)] by (force simp: life_ok_def)
  then have "\<forall>(stream, st) \<in> set (life_tasks ?s). admitted st \<longrightarrow> prefix secret (arriving stream)"
    using assms(1) by (intro r(5)) (auto simp: life_ok_def)
  ultimately show ?thesis using assms(1) admitted(1) tun(2) by (simp add: life_ok_def del: set_list_update)
qed

lemma life_ok_works:
  assumes "life_ok secret permits s" "map hl_name (hs_heap hs) = map hl_name (hs_heap (life_server s))"
    "hs_active hs = hs_active (life_server s)" "map fst (hs_stat hs) = map fst (hs_stat (life_server s))"
  shows "life_ok secret permits (s\<lparr>life_server := hs\<rparr>)"
proof -
  note same = latest_same [OF assms(2)] and len = map_eq_imp_length_eq [OF assms(2)]
  have ok: "server_ok (life_server s)" using assms(1) by (simp add: life_ok_def)
  have stat: "fst ` set (hs_stat hs) = fst ` set (hs_stat (life_server s))" using assms(4) by (metis set_map)
  have "hl_name ` set (hs_heap hs) = hl_name ` set (hs_heap (life_server s))" using assms(2) by (metis set_map)
  also have "\<dots> \<subseteq> fst ` set (hs_stat hs)" unfolding stat using ok by (auto simp: server_ok_def)
  finally have "\<forall>c \<in> set (hs_heap hs). hl_name c \<in> fst ` set (hs_stat hs)" by blast
  then have "server_ok hs"
    using ok unfolding server_ok_def same(2) assms(3,4) len by blast
  then show ?thesis using assms(1,3) by (simp add: life_ok_def serving_def tunneling_def same(1) len)
qed

lemma life_ok_ends:
  assumes "life_ok secret permits s" "i < length (life_tasks s)" "life_tasks s ! i = (stream, Tunneling h)"
  shows "life_ok secret permits
    (s\<lparr>life_server := retire h (life_server s), life_tasks := (life_tasks s)[i := (stream, TaskDone)]\<rparr>)"
proof -
  let ?s = "s\<lparr>life_server := retire h (life_server s), life_tasks := (life_tasks s)[i := (stream, TaskDone)]\<rparr>"
  have t: "life_tasks ?s = (life_tasks s)[i := (stream, TaskDone)]" by simp
  note r = replaced_task [OF assms(2,3) t]
  have ok: "server_ok (life_server s)" "distinct (tunneling s)" using assms(1) by (simp_all add: life_ok_def)
  have tun: "set (tunneling ?s) = set (tunneling s) - {h}" "distinct (tunneling ?s)" using r(2) [OF refl _ ok(2)] by auto
  have heap: "hs_heap (retire h (life_server s)) = hs_heap (life_server s)" by (simp add: retire_def)
  have "latest (retire h (life_server s)) = latest (life_server s)" by (rule latest_same(1)) (simp add: heap)
  moreover have "\<forall>(stream, st) \<in> set (life_tasks ?s). admitted st \<longrightarrow> prefix secret (arriving stream)"
    using assms(1) by (intro r(5)) (auto simp: life_ok_def)
  ultimately show ?thesis
    using assms(1) r(1) tun server_ok_retire [OF ok(1), of h] by (auto simp: life_ok_def heap simp del: set_list_update)
qed

lemma life_ok_step:
  assumes "life_step show_addr push_alpn t s s'" "life_ok secret permits s"
    "\<And>peer loc. configured urlencode sha224_hex (hst_connection show_addr peer loc t)"
    "secret = encode_secret_for_http1 urlencode (hiddenlink_secret (hst_upstreams t))"
  shows "life_ok secret permits s'"
  using assms(1,2)
proof (induction rule: life_step.induct)
  case (serves i s stream x env pe in_time sent peer loc v rest a)
  have "sc_upstreams (hst_connection show_addr peer loc t) = hst_upstreams t"
    by (simp add: hst_connection_def new_server_connection_def)
  then have "served_request v = Some request \<Longrightarrow> prefix secret (arriving stream)" for request
    using handle_connection_request [OF assms(3) serves.hyps(3)] assms(4) by metis
  then have "\<exists>request. after_serving v = Admitting request \<and> prefix secret (arriving stream) \<or> after_serving v = TaskDone"
    by (auto split: option.split)
  then show ?case using life_ok_serves [OF serves.prems serves.hyps(1,2,4,5)] by blast
qed (simp_all add: life_ok_waits life_ok_accepts life_ok_files life_ok_works life_ok_ends)

section \<open>Properties\<close>

lemma tunneling_tasks: "h \<in> set (tunneling s) \<longleftrightarrow> (\<exists>stream. (stream, Tunneling h) \<in> set (life_tasks s))"
  by (force simp: tunneling_def split: task_state.splits)

lemma new_transport_start:
  assumes "new_http_server_transport urlencode sha224_hex (load_certs read_certs read_keys single_cert) roots client_config
      (Inr max_open_files) max_permits bind hash_one name c = Ok t"
  shows "hst_acceptor t = new_acceptor (max_proxied_connections max_open_files max_permits)"
    "hst_pool t = new_http_server hash_one name" "hst_upstreams t = hsc_upstreams c"
  using assms
  by (cases roots; cases "bind (hsc_bind_address c)";
      cases "new_tls_domains (load_certs read_certs read_keys single_cert) (hsc_default_domain c) (hsc_additional_domains c)";
      auto simp: new_http_server_transport_def)+

lemma new_transport_serves:
  assumes "new_http_server_transport urlencode sha224_hex (load_certs read_certs read_keys single_cert) roots client_config
      open_files max_permits bind hash_one name c = Ok t" "hex_digest sha224_hex"
  shows "configured urlencode sha224_hex (hst_connection show_addr peer loc t)"
    "is_ok (negotiate_tls requested alpn (hst_connection show_addr peer loc t))"
  using new_http_server_transport_cases [OF assms(2), of urlencode read_certs read_keys single_cert roots client_config
      open_files max_permits bind hash_one name c] assms(1) by simp_all

text \<open>C23: the life of a server.  However accepting, serving, filing, sending and ending interleave: at most
  as many connections are served at a time as the limit says, the gauge shows their number, and no
  permit is lost; the pool holds exactly the connections whose tasks are still tunneling and whose
  client has not connected again under its name, so none is left behind and none is lost; and the
  client of every connection that tunnels has shown the secret.\<close>
theorem server_life:
  assumes "new_http_server_transport urlencode sha224_hex (load_certs read_certs read_keys single_cert) roots client_config
      (Inr max_open_files) max_permits bind hash_one name c = Ok t" "hex_digest sha224_hex"
    "(life_step show_addr push_alpn t)\<^sup>*\<^sup>* (start_life t) s"
    "limit = max_proxied_connections max_open_files max_permits"
  shows "serving s \<le> limit \<and> connections_gauge (life_acceptor s) = int (serving s) \<and>
    (serving s = 0 \<and> \<not> holds_permit (life_acceptor s) \<longrightarrow> free_permits (life_acceptor s) = limit) \<and>
    (\<forall>h. h \<in> set (pool_values (hs_active (life_server s))) \<longleftrightarrow>
       (\<exists>stream. (stream, Tunneling h) \<in> set (life_tasks s)) \<and> latest (life_server s) h) \<and>
    (\<forall>stream h. (stream, Tunneling h) \<in> set (life_tasks s) \<longrightarrow>
       prefix (encode_secret_for_http1 urlencode (hiddenlink_secret (hsc_upstreams c))) (arriving stream))"
proof -
  let ?secret = "encode_secret_for_http1 urlencode (hiddenlink_secret (hsc_upstreams c))"
  note start = new_transport_start [OF assms(1)]
  note conf = new_transport_serves(1) [OF assms(1,2)]
  have "life_ok ?secret limit s"
    using assms(3)
  proof (induction rule: rtranclp_induct)
    case base
    show ?case unfolding assms(4) by (rule life_ok_start [OF start(1,2)])
  next
    case (step s s')
    from life_ok_step [OF step.hyps(2) step.IH conf] show ?case by (simp add: start(3))
  qed
  then show ?thesis
    by (auto simp: life_ok_def acceptor_ok_def tunneling_tasks split: if_splits)
qed

definition life_config :: http_server_config where
  "life_config = \<lparr>hsc_bind_address = V4 0 443, hsc_default_domain = (''cert'', ''key''), hsc_additional_domains = [],
     hsc_upstreams = demo_config\<rparr>"

lemma life_transport:
  "\<exists>t. new_http_server_transport id (\<lambda>_. replicate 56 CHR ''a'') (load_certs (\<lambda>p. Inr [demo_cert ''a'']) (\<lambda>p. Inr [()]) (\<lambda>c k. Inr 5))
      (Inr ()) (\<lambda>_. 0) (Inr 4) 100 (\<lambda>a. None) (\<lambda>_. 0) ''s'' life_config = Ok (t :: (nat, nat) http_server_transport)"
proof -
  have "plain_dns_name ''a''"
    by (simp add: plain_dns_name_def suffix_def sublist_def append_eq_Cons_conv Cons_eq_append_conv)
  from demo_load [OF this] have cert: "load_cert [demo_cert ''a''] = Ok [''a'']" by (simp add: demo_domain_def)
  show ?thesis
    by (simp add: new_http_server_transport_def life_config_def new_tls_domains_def new_tls_domain_def load_certs_def cert load_key_def)
qed

text \<open>A client that shows the secret is let in.\<close>

lemma life_let_in:
  assumes "configured id sha224_hex sc" "is_ok (negotiate_tls None None sc)" "hiddenlink_secret (sc_upstreams sc) = ''0123456789''"
  shows "\<exists>stream x v rest request. handle_connection show_addr push_alpn x demo_env demo_proxy True 0 sc stream = (Ok v, rest) \<and>
    served_request v = Some request \<and> req_name request = ''home''"
proof -
  let ?secret = "encode_secret_for_http1 id (hiddenlink_secret (sc_upstreams sc))"
  obtain request where req: "client_request ?secret 3 ''home'' (replicate 100 97) = Ok request"
    by (simp add: client_request_def)
  obtain domain config protocols where tls: "negotiate_tls None None sc = Ok (domain, config, protocols)"
    using assms(2) by (cases "negotiate_tls None None sc") auto
  let ?x = "\<lparr>tls_accept = Ok (None, None), tls_io_returned = True, tls_finish = (\<lambda>config protocols. Ok None), tls_shutdown = ShutdownDone\<rparr>"
  have x: "process_tls_handshake ?x sc = Ok (TlsEstablished domain None)" by (simp add: process_tls_handshake_def tls)
  have "flags_from_bits 3 = Some 3" by (simp add: flags_from_bits_def FLAG_INGRESS_def FLAG_EGRESS_def)
  moreover have "connection_name (as_bytes ''home'') = Some ''home''"
    by (simp add: connection_name_def Let_def str_trim_self is_ascii_alphanumeric_def is_whitespace_def)
  moreover have "random_payload 100 2000 (replicate 100 97)" by (simp add: random_payload_replicate)
  ultimately obtain preread s' where d: "process_routing_decision show_addr push_alpn demo_env domain None sc [Recv request] =
      (Ok (RouteHiddenlink \<lparr>req_name = ''home'', req_flags = 3, req_preread_data = preread\<rparr>), s')"
    using server_admits_stream [OF assms(1) _ req, of None "[Recv request]" "[]" demo_env show_addr push_alpn domain] demo_env_fine
    by auto
  have "handle_connection show_addr push_alpn ?x demo_env demo_proxy True 0 sc [Recv request] =
      (Ok (served_nothing\<lparr>served_request := Some \<lparr>req_name = ''home'', req_flags = 3, req_preread_data = preread\<rparr>,
        served_reply := handshake_reply ?x demo_env True 0 sc [Recv request]\<rparr>), s')"
    by (simp add: handle_connection_def process_handshake_def x d Let_def)
  moreover have "served_request (served_nothing\<lparr>served_request := Some r, served_reply := bs\<rparr>) = Some r" for r bs by simp
  moreover have "req_name \<lparr>req_name = ''home'', req_flags = 3, req_preread_data = preread\<rparr> = ''home''" by simp
  ultimately show ?thesis by blast
qed

text \<open>The loop takes a permit and accepts the client's connection; its task serves it and files it.\<close>

lemma life_run:
  fixes t :: "('cfg, 'ccfg) http_server_transport"
  assumes "hst_acceptor t = new_acceptor 2" "hst_pool t = new_http_server hash_one name"
    "handle_connection show_addr push_alpn x env pe in_time sent (hst_connection show_addr peer loc t) stream = (Ok v, rest)"
    "served_request v = Some request"
  shows "\<exists>s. (life_step show_addr push_alpn t)\<^sup>*\<^sup>* (start_life t) s \<and> life_tasks s = [(stream, Tunneling 0)] \<and>
    latest (life_server s) 0 \<and> \<not> holds_permit (life_acceptor s)"
proof -
  let ?step = "life_step show_addr push_alpn t"
  define a0 where "a0 = \<lparr>free_permits = 2, holds_permit = False, running = 0, connections_gauge = 0\<rparr>"
  define a1 where "a1 = a0\<lparr>holds_permit := True, free_permits := free_permits a0 - 1\<rparr>"
  define a2 where "a2 = a1\<lparr>holds_permit := False, running := running a1 + 1, connections_gauge := connections_gauge a1 + 1\<rparr>"
  define a3 where "a3 = a2\<lparr>running := running a2 - 1, connections_gauge := connections_gauge a2 - 1, free_permits := free_permits a2 + 1\<rparr>"
  have acc: "accept_step a0 a1" "accept_step a1 a2" "accept_step a2 a3"
    unfolding a1_def a2_def a3_def by (rule acquire accepted finished; simp add: a0_def)+
  let ?hs = "new_http_server hash_one name"
  have s0: "start_life t = \<lparr>life_acceptor = a0, life_server = ?hs, life_tasks = []\<rparr>"
    by (simp add: start_life_def assms(1,2) new_acceptor_def a0_def)
  let ?s1 = "\<lparr>life_acceptor = a1, life_server = ?hs, life_tasks = []\<rparr>"
    and ?s2 = "\<lparr>life_acceptor = a2, life_server = ?hs, life_tasks = [(stream, Serving)]\<rparr>"
    and ?s3 = "\<lparr>life_acceptor = a3, life_server = ?hs, life_tasks = [(stream, Admitting request)]\<rparr>"
  have e1: "?step (start_life t) ?s1" using waits [of "start_life t" a1] acc(1) by (simp add: s0 a1_def)
  have e2: "?step ?s1 ?s2" using accepts [of ?s1 a2] acc(2) by (simp add: a2_def)
  have e3: "?step ?s2 ?s3" using serves [of 0 ?s2, OF _ _ assms(3), of a3] acc(3) by (simp add: assms(4) a3_def a2_def)
  obtain h fresh hs where adm: "admit request 3 [] [] ?hs = ((h, fresh), hs)" by (metis prod.collapse)
  have "h = 0" using latest_files(1) [OF server_ok_new adm] by (simp add: new_http_server_def)
  then have e4: "?step ?s3 \<lparr>life_acceptor = a3, life_server = hs, life_tasks = [(stream, Tunneling 0)]\<rparr>"
    using files [of 0 ?s3] adm by fastforce
  have "?step\<^sup>*\<^sup>* (start_life t) \<lparr>life_acceptor = a3, life_server = hs, life_tasks = [(stream, Tunneling 0)]\<rparr>"
    using e1 e2 e3 e4 by (meson rtranclp.rtrancl_into_rtrancl rtranclp.rtrancl_refl)
  moreover have "latest hs 0" using latest_files(3) [OF server_ok_new adm] \<open>h = 0\<close> by simp
  ultimately show ?thesis by (intro exI conjI) (assumption, simp_all add: a3_def a2_def)
qed

lemma server_life_witness:
  "\<exists>(t :: (nat, nat) http_server_transport) s. (life_step (\<lambda>_. []) (\<lambda>p c. c + 1) t)\<^sup>*\<^sup>* (start_life t) s \<and>
     serving s = 0 \<and> set (pool_values (hs_active (life_server s))) = {0} \<and> free_permits (life_acceptor s) = 2"
proof -
  obtain t :: "(nat, nat) http_server_transport" where t: "new_http_server_transport id (\<lambda>_. replicate 56 CHR ''a'')
      (load_certs (\<lambda>p. Inr [demo_cert ''a'']) (\<lambda>p. Inr [()]) (\<lambda>c k. Inr 5))
      (Inr ()) (\<lambda>_. 0) (Inr 4) 100 (\<lambda>a. None) (\<lambda>_. 0) ''s'' life_config = Ok t"
    using life_transport by blast
  note start = new_transport_start [OF t]
  let ?sc = "hst_connection (\<lambda>_. []) (V4 7 8) (V4 9 10) t"
  have "hiddenlink_secret (sc_upstreams ?sc) = ''0123456789''"
    by (simp add: hst_connection_def new_server_connection_def start(3) life_config_def demo_config_def)
  from life_let_in [OF new_transport_serves [OF t demo_hex_digest] this, of "\<lambda>_. []" "\<lambda>p c. c + 1"]
  obtain stream x v rest request where
    v: "handle_connection (\<lambda>_. []) (\<lambda>p c. c + 1) x demo_env demo_proxy True 0 ?sc stream = (Ok v, rest)"
      "served_request v = Some request" by blast
  have "max_proxied_connections 4 100 = 2" by (simp add: max_proxied_connections_def)
  with life_run [OF _ start(2) v] start(1) obtain s where
    s: "(life_step (\<lambda>_. []) (\<lambda>p c. c + 1) t)\<^sup>*\<^sup>* (start_life t) s" "life_tasks s = [(stream, Tunneling 0)]"
      "latest (life_server s) 0" "\<not> holds_permit (life_acceptor s)" by auto
  have "serving s = 0" by (simp add: serving_def s(2))
  with server_life [OF t demo_hex_digest s(1) refl] s show ?thesis
    by (intro exI [of _ t] exI [of _ s]) (auto simp: max_proxied_connections_def)
qed

end
