(* ===== verification/HttpClient.thy ===== *)
theory HttpClient imports HiddenlinkConnection Connections begin

unbundle bit_operations_syntax

text \<open>
  \<open>src/src/transport/http/client/mod.rs\<close>: the client's HTTP transport, a pool of connections with
  one configuration; and the schedule of reconnections of \<open>Connection::handle\<close>
  (\<open>src/src/transport/http/client/connection.rs\<close>).

  Parsing an endpoint and a DNS name is a crate's: the argument \<open>parse_endpoint\<close> gives a domain or
  \<open>None\<close>.  A connection's \<open>Arc\<close> is its index in \<open>ht_clients\<close>.  The tasks that \<open>new\<close> spawns run
  \<open>connect_begin\<close>, \<open>connect_done\<close> and \<open>connect_wait\<close> in turn, one round per connection attempt.
\<close>

section \<open>Configuration\<close>

record http_client_config =
  hcc_endpoint :: string
  hcc_secret :: string
  hcc_ingress :: bool
  hcc_egress :: bool
  hcc_connections :: nat
  hcc_min_ttl :: "duration option"
  hcc_max_ttl :: "duration option"

text \<open>The \<open>validate\<close> attributes; a control character is an argument's business, since the secret is
  Unicode text.\<close>

definition http_client_config_valid :: "(string \<Rightarrow> bool) \<Rightarrow> (string \<Rightarrow> nat) \<Rightarrow> http_client_config \<Rightarrow> bool" where
  "http_client_config_valid no_control char_count c \<longleftrightarrow>
     no_control (hcc_secret c) \<and> MIN_SECRET_LEN \<le> char_count (hcc_secret c) \<and>
     1 \<le> hcc_connections c \<and> hcc_connections c \<le> 10"

datatype client_error =
    TooSmallMinTtl duration
  | TooSmallMaxTtl duration duration
  | InvalidEndpoint string
  | RootCertificates string

definition client_flags :: "http_client_config \<Rightarrow> connection_flags" where
  "client_flags c = flags_set FLAG_EGRESS (hcc_egress c) (flags_set FLAG_INGRESS (hcc_ingress c) 0)"

record http_client =
  ht_name :: string
  ht_labels :: labels
  ht_pool :: "nat transport_connections"
  ht_clients :: "client_connection list"

definition client_connection_name :: "string \<Rightarrow> nat \<Rightarrow> nat \<Rightarrow> string" where
  "client_connection_name name count k = (if 1 < count then name @ '' #'' @ show_nat k else name)"

text \<open>The loop over \<open>1..=connections\<close>; \<open>assert!\<close> panics if a name is taken.\<close>

definition http_client_nm :: "client_connection list \<Rightarrow> nat \<Rightarrow> string" where
  "http_client_nm cs i = (if i < length cs then cl_name (cs ! i) else [])"

fun add_clients ::
  "string \<Rightarrow> nat \<Rightarrow> client_config \<Rightarrow> nat list \<Rightarrow> nat transport_connections \<times> client_connection list
    \<Rightarrow> (client_error, nat transport_connections \<times> client_connection list) outcome" where
  "add_clients name count config [] st = Ok st"
| "add_clients name count config (k # ks) (pool, cs) =
     (let n = client_connection_name name count k;
          cs' = cs @ [new_client_connection n config (new_stat name n)]
      in case add (http_client_nm cs') (length cs) pool of
           (True, pool') \<Rightarrow> add_clients name count config ks (pool', cs')
         | (False, pool') \<Rightarrow> Panic)"

definition new_http_client ::
  "(string \<Rightarrow> string) \<Rightarrow> (string \<Rightarrow> string option) \<Rightarrow> string option \<Rightarrow> (bytes \<Rightarrow> u64) \<Rightarrow> string
    \<Rightarrow> http_client_config \<Rightarrow> (client_error, http_client) outcome" where
  "new_http_client urlencode parse_endpoint roots hash_one name c =
     (let min_ttl = (case hcc_min_ttl c of Some t \<Rightarrow> t | None \<Rightarrow> from_secs 1);
          max_ok = (case hcc_max_ttl c of Some max_ttl \<Rightarrow> min_ttl \<le> max_ttl | None \<Rightarrow> True)
      in if min_ttl < from_secs 1 then Err (TooSmallMinTtl min_ttl)
         else if \<not> max_ok then Err (TooSmallMaxTtl (the (hcc_max_ttl c)) min_ttl)
         else case parse_endpoint (hcc_endpoint c) of
             None \<Rightarrow> Err (InvalidEndpoint (hcc_endpoint c))
           | Some domain \<Rightarrow>
               (case roots of
                  Some e \<Rightarrow> Err (RootCertificates e)
                | None \<Rightarrow>
                    and_then
                      (add_clients name (hcc_connections c)
                         \<lparr>cc_endpoint = hcc_endpoint c, cc_domain = domain, cc_flags = client_flags c,
                          cc_secret = encode_secret_for_http1 urlencode (hcc_secret c),
                          cc_min_ttl = min_ttl, cc_max_ttl = hcc_max_ttl c\<rparr>
                         [1..<hcc_connections c + 1] (new_connections hash_one, []))
                      (\<lambda>(pool, cs). Ok \<lparr>ht_name = name, ht_labels = transport_labels name,
                                       ht_pool = pool, ht_clients = cs\<rparr>)))"

section \<open>The transport\<close>

definition ht_ready :: "http_client \<Rightarrow> nat \<Rightarrow> bool" where
  "ht_ready h i = cl_ready_for_sending (ht_clients h ! i)"

text \<open>The first connection's direction; \<open>unwrap\<close> panics without connections.\<close>

definition ht_direction :: "http_client \<Rightarrow> (unit, transport_direction) outcome" where
  "ht_direction h =
     (case pool_values (ht_pool h) of
        [] \<Rightarrow> Panic
      | i # _ \<Rightarrow> Ok (cl_direction (ht_clients h ! i)))"

definition ht_connected :: "http_client \<Rightarrow> bool" where
  "ht_connected h = list_all (\<lambda>i. cl_connected (ht_clients h ! i)) (pool_values (ht_pool h))"

definition ht_ready_for_sending :: "http_client \<Rightarrow> bool" where
  "ht_ready_for_sending h = pool_ready (ht_ready h) (ht_pool h)"

text \<open>The connection \<open>send\<close> uses, and how it reports that connection's error.\<close>

definition ht_send_via :: "bytes \<Rightarrow> http_client \<Rightarrow> (string, nat) outcome" where
  "ht_send_via packet h =
     (case select (ht_ready h) packet (ht_pool h) of
        Ok (Some i) \<Rightarrow> Ok i
      | Ok None \<Rightarrow> Err ''There is no open connections''
      | Panic \<Rightarrow> Panic
      | _ \<Rightarrow> Pending)"

definition ht_send_error :: "http_client \<Rightarrow> nat \<Rightarrow> string \<Rightarrow> string" where
  "ht_send_error h i e =
     (if 1 < pool_len (ht_pool h) then cl_name (ht_clients h ! i) @ '': '' @ e else e)"

fun ht_collect_all ::
  "(client_connection \<Rightarrow> 'enc \<Rightarrow> 'enc option) \<Rightarrow> client_connection list \<Rightarrow> 'enc \<Rightarrow> 'enc option" where
  "ht_collect_all collect [] enc = Some enc"
| "ht_collect_all collect (c # cs) enc = Option.bind (collect c enc) (ht_collect_all collect cs)"

section \<open>Reconnections\<close>

text \<open>A connection's task: its last connection number, the connection that has outlived its time,
  and when the next attempt may start.\<close>

record client_task =
  ct_id :: nat
  ct_previous :: "(string \<times> nat) option"
  ct_next_reconnect :: instant

definition new_client_task :: "instant \<Rightarrow> client_task" where
  "new_client_task now = \<lparr>ct_id = 0, ct_previous = None, ct_next_reconnect = now\<rparr>"

definition connect_begin :: "string \<Rightarrow> client_task \<Rightarrow> string \<times> client_task" where
  "connect_begin name t =
     (name @ ''|#'' @ show_nat (ct_id t + 1),
      t\<lparr>ct_id := ct_id t + 1, ct_next_reconnect := ct_next_reconnect t + from_secs 3\<rparr>)"

text \<open>After a connection was established as \<open>h\<close> and has ended or, if \<open>expired\<close>, lives on: the
  previous connection, which is killed now if it is still there.  A failed attempt changes nothing.\<close>

definition connect_done ::
  "string \<Rightarrow> nat \<Rightarrow> bool \<Rightarrow> client_task \<Rightarrow> (string \<times> nat) option \<times> client_task" where
  "connect_done name h expired t =
     (ct_previous t, t\<lparr>ct_previous := (if expired then Some (name, h) else None)\<rparr>)"

definition connect_wait :: "instant \<Rightarrow> client_task \<Rightarrow> client_task" where
  "connect_wait now t =
     (let nearest_reconnect_at = now + from_secs 1 in
      if ct_next_reconnect t < nearest_reconnect_at
      then t\<lparr>ct_next_reconnect := nearest_reconnect_at\<rparr> else t)"

text \<open>The lifetime of a connection is random in a range; the handle's time to live is \<open>None\<close> without
  a maximum.\<close>

definition ttl_ok :: "client_config \<Rightarrow> duration option \<Rightarrow> bool" where
  "ttl_ok c ttl \<longleftrightarrow>
     (case (cc_max_ttl c, ttl) of
        (None, None) \<Rightarrow> True
      | (Some hi, Some t) \<Rightarrow> cc_min_ttl c \<le> t \<and> t \<le> hi
      | _ \<Rightarrow> False)"

text \<open>The starts of the attempts, given when each of them ends; the task sleeps until the time
  \<open>connect_wait\<close> has set, if that is not past.\<close>

fun attempt_starts :: "instant \<Rightarrow> client_task \<Rightarrow> instant list \<Rightarrow> instant list" where
  "attempt_starts start t [] = [start]"
| "attempt_starts start t (stop # stops) =
     (let t' = connect_wait stop (snd (connect_begin [] t)) in
      start # attempt_starts (max stop (ct_next_reconnect t')) t' stops)"

section \<open>The connections of a client\<close>

lemma alist_update_new: "k \<notin> fst ` set al \<Longrightarrow> AList.update k v al = al @ [(k, v)]"
  by (induction al) auto

definition clients_filed :: "nat transport_connections \<Rightarrow> client_connection list \<Rightarrow> bool" where
  "clients_filed pool cs \<longleftrightarrow> connections pool = map (\<lambda>i. (cl_name (cs ! i), i)) [0..<length cs]"

lemma clients_filed_values: "clients_filed pool cs \<Longrightarrow> pool_values pool = [0..<length cs]"
  by (simp add: clients_filed_def pool_values_def comp_def)

lemma add_client:
  assumes "clients_filed pool cs" "n \<notin> cl_name ` set cs" "cs' = cs @ [c]" "cl_name c = n"
  shows "fst (add (http_client_nm cs') (length cs) pool)"
    "clients_filed (snd (add (http_client_nm cs') (length cs) pool)) cs'"
proof -
  have new: "n \<notin> fst ` set (connections pool)"
    using assms(1,2) by (auto simp: clients_filed_def)
  have nm: "http_client_nm cs' (length cs) = n" by (simp add: http_client_nm_def assms(3,4))
  show "fst (add (http_client_nm cs') (length cs) pool)"
    using new by (simp add: add_def nm map_of_eq_None_iff)
  have "connections (snd (add (http_client_nm cs') (length cs) pool)) = connections pool @ [(n, length cs)]"
    using new by (simp add: add_def nm alist_update_new)
  then show "clients_filed (snd (add (http_client_nm cs') (length cs) pool)) cs'"
    using assms(1,4) by (auto simp: clients_filed_def assms(3) nth_append)
qed

lemma add_clients_ok:
  assumes "clients_filed pool cs" "distinct (map cl_name cs @ map (client_connection_name name count) ks)"
  shows "\<exists>pool' cs'. add_clients name count config ks (pool, cs) = Ok (pool', cs') \<and> clients_filed pool' cs' \<and>
    cs' = cs @ map (\<lambda>k. new_client_connection (client_connection_name name count k) config
      (new_stat name (client_connection_name name count k))) ks"
  using assms
proof (induction ks arbitrary: pool cs)
  case (Cons k ks)
  let ?n = "client_connection_name name count k"
  let ?c = "new_client_connection ?n config (new_stat name ?n)"
  have nm: "cl_name ?c = ?n" by (simp add: new_client_connection_def)
  have "?n \<notin> cl_name ` set cs" using Cons.prems(2) by auto
  note step = add_client [OF Cons.prems(1) this refl nm]
  have "distinct (map cl_name (cs @ [?c]) @ map (client_connection_name name count) ks)"
    using Cons.prems(2) nm by auto
  from Cons.IH [OF step(2) this] step(1) show ?case
    by (cases "add (http_client_nm (cs @ [?c])) (length cs) pool") (auto simp: Let_def)
qed simp

lemma client_connection_names_distinct:
  "distinct (map (client_connection_name name n) [1..<n + 1])"
proof (cases "1 < n")
  case True
  then show ?thesis
    by (auto simp: distinct_map client_connection_name_def inj_on_def dest: show_nat_inj simp del: upt_Suc)
next
  case False
  then have "n = 0 \<or> n = 1" by linarith
  then show ?thesis by auto
qed

definition http_client_ok :: "http_client \<Rightarrow> bool" where
  "http_client_ok h \<longleftrightarrow> clients_filed (ht_pool h) (ht_clients h) \<and>
     0 < length (ht_clients h) \<and> length (ht_clients h) < 2 ^ 64 \<and> distinct (map cl_name (ht_clients h)) \<and>
     (\<exists>flags. \<forall>c \<in> set (ht_clients h). cc_flags (cl_config c) = flags)"

lemma new_http_client_cases:
  assumes "1 \<le> hcc_connections c" "hcc_connections c < 2 ^ 64"
  shows "(\<exists>e. new_http_client urlencode parse_endpoint roots hash_one name c = Err e) \<or>
    (\<exists>h. new_http_client urlencode parse_endpoint roots hash_one name c = Ok h \<and> http_client_ok h \<and>
      ht_name h = name \<and>
      map cl_name (ht_clients h) = map (client_connection_name name (hcc_connections c)) [1..<hcc_connections c + 1] \<and>
      (\<forall>cl \<in> set (ht_clients h). cc_flags (cl_config cl) = client_flags c \<and>
         cc_secret (cl_config cl) = encode_secret_for_http1 urlencode (hcc_secret c) \<and>
         from_secs 1 \<le> cc_min_ttl (cl_config cl) \<and>
         (\<forall>t. cc_max_ttl (cl_config cl) = Some t \<longrightarrow> cc_min_ttl (cl_config cl) \<le> t)))"
proof (cases "\<exists>e. new_http_client urlencode parse_endpoint roots hash_one name c = Err e")
  case False
  let ?n = "hcc_connections c" and ?min = "case hcc_min_ttl c of Some t \<Rightarrow> t | None \<Rightarrow> from_secs 1"
  from False obtain domain where pre: "from_secs 1 \<le> ?min"
    "case hcc_max_ttl c of Some max_ttl \<Rightarrow> ?min \<le> max_ttl | None \<Rightarrow> True"
    "parse_endpoint (hcc_endpoint c) = Some domain" "roots = None"
    by (auto simp: new_http_client_def Let_def not_less split: if_splits option.splits)
  define config where "config = \<lparr>cc_endpoint = hcc_endpoint c, cc_domain = domain, cc_flags = client_flags c,
    cc_secret = encode_secret_for_http1 urlencode (hcc_secret c), cc_min_ttl = ?min, cc_max_ttl = hcc_max_ttl c\<rparr>"
  have f: "clients_filed (new_connections hash_one) []"
    by (simp add: clients_filed_def new_connections_def)
  have "distinct (map cl_name [] @ map (client_connection_name name ?n) [1..<?n + 1])"
    using client_connection_names_distinct by simp
  from add_clients_ok [OF f this, where config = config] obtain pool cs where a: "add_clients name ?n config [1..<?n + 1] (new_connections hash_one, []) = Ok (pool, cs)"
    "clients_filed pool cs" "cs = map (\<lambda>k. new_client_connection (client_connection_name name ?n k) config
      (new_stat name (client_connection_name name ?n k))) [1..<?n + 1]"
    unfolding append_Nil by blast
  let ?h = "\<lparr>ht_name = name, ht_labels = transport_labels name, ht_pool = pool, ht_clients = cs\<rparr>"
  have ok: "new_http_client urlencode parse_endpoint roots hash_one name c = Ok ?h"
    using pre a(1) by (simp add: new_http_client_def Let_def not_less config_def [symmetric])
  have names: "map cl_name cs = map (client_connection_name name ?n) [1..<?n + 1]"
    by (simp add: a(3) new_client_connection_def comp_def del: upt_Suc)
  have cfg: "cl_config cl = config" if "cl \<in> set cs" for cl
    using that by (auto simp: a(3) new_client_connection_def simp del: upt_Suc)
  have "length cs = ?n" by (simp add: a(3) del: upt_Suc)
  then have "http_client_ok ?h"
    using a(2) assms names client_connection_names_distinct [of name ?n] cfg
    by (auto simp: http_client_ok_def)
  moreover have "\<forall>t. cc_max_ttl config = Some t \<longrightarrow> cc_min_ttl config \<le> t"
    using pre(2) by (auto simp: config_def)
  ultimately show ?thesis
    using ok names cfg pre(1) by (intro disjI2 exI [of _ ?h]) (auto simp: config_def)
qed blast

lemma ht_select:
  assumes "http_client_ok h" "packet \<noteq> []"
  shows "if ht_ready_for_sending h
    then \<exists>i < length (ht_clients h). ht_send_via packet h = Ok i \<and> cl_ready_for_sending (ht_clients h ! i)
    else ht_send_via packet h = Err ''There is no open connections''"
proof -
  have vals: "pool_values (ht_pool h) = [0..<length (ht_clients h)]"
    using assms(1) clients_filed_values by (simp add: http_client_ok_def)
  then have "length (pool_values (ht_pool h)) < 2 ^ 64" using assms(1) by (simp add: http_client_ok_def)
  from select_ready [OF this assms(2), of "ht_ready h"] vals show ?thesis
    by (auto simp: ht_ready_for_sending_def ht_send_via_def ht_ready_def split: if_splits)
qed

text \<open>All connections have the direction of the first one.\<close>

lemma ht_direction_ok:
  assumes "http_client_ok h"
  shows "\<exists>d. ht_direction h = Ok d \<and> (\<forall>i < length (ht_clients h). cl_direction (ht_clients h ! i) = d)"
proof -
  have vals: "pool_values (ht_pool h) = [0..<length (ht_clients h)]" and pos: "0 < length (ht_clients h)"
    using assms clients_filed_values by (simp_all add: http_client_ok_def)
  obtain flags where "\<forall>c \<in> set (ht_clients h). cc_flags (cl_config c) = flags"
    using assms by (auto simp: http_client_ok_def)
  then have "cl_direction (ht_clients h ! i) = cl_direction (ht_clients h ! 0)" if "i < length (ht_clients h)" for i
    using that pos by (simp add: cl_direction_def)
  moreover have "ht_direction h = Ok (cl_direction (ht_clients h ! 0))"
    using vals pos by (simp add: ht_direction_def upt_rec)
  ultimately show ?thesis by blast
qed

section \<open>The schedule\<close>

lemma attempt_starts_pace:
  "ct_next_reconnect t \<le> start \<Longrightarrow> k \<le> length stops \<Longrightarrow>
     length (attempt_starts start t stops) = length stops + 1 \<and>
     ct_next_reconnect t + k * from_secs 3 \<le> attempt_starts start t stops ! k \<and>
     (0 < k \<longrightarrow> stops ! (k - 1) + from_secs 1 \<le> attempt_starts start t stops ! k)"
proof (induction stops arbitrary: start t k)
  case (Cons stop stops)
  let ?t = "connect_wait stop (snd (connect_begin [] t))"
  let ?s = "max stop (ct_next_reconnect ?t)"
  have nx: "ct_next_reconnect t + from_secs 3 \<le> ct_next_reconnect ?t" "stop + from_secs 1 \<le> ct_next_reconnect ?t"
    by (auto simp: connect_wait_def connect_begin_def Let_def)
  show ?case
  proof (cases k)
    case 0
    with Cons.prems Cons.IH [of ?t ?s 0] show ?thesis by (simp add: Let_def)
  next
    case (Suc j)
    with Cons.prems Cons.IH [of ?t ?s j] nx show ?thesis
      by (cases j) (auto simp: Let_def max_def)
  qed
qed simp

section \<open>Properties\<close>

text \<open>Setting up a client.  For a valid configuration the constructor fails with an error or gives
  a transport whose connections have distinct names, which is what its assertion asks, so it
  never panics; they share the configured direction and secret, and their lifetimes have a sound range.\<close>
theorem new_http_client_sound:
  assumes "http_client_config_valid no_control char_count c"
  shows "(\<exists>e. new_http_client urlencode parse_endpoint roots hash_one name c = Err e) \<or>
    (\<exists>h. new_http_client urlencode parse_endpoint roots hash_one name c = Ok h \<and> http_client_ok h \<and>
      ht_name h = name \<and>
      map cl_name (ht_clients h) = map (client_connection_name name (hcc_connections c)) [1..<hcc_connections c + 1] \<and>
      (\<forall>cl \<in> set (ht_clients h). cc_flags (cl_config cl) = client_flags c \<and>
         cc_secret (cl_config cl) = encode_secret_for_http1 urlencode (hcc_secret c) \<and>
         from_secs 1 \<le> cc_min_ttl (cl_config cl) \<and>
         (\<forall>t. cc_max_ttl (cl_config cl) = Some t \<longrightarrow> cc_min_ttl (cl_config cl) \<le> t)))"
  using assms by (intro new_http_client_cases) (auto simp: http_client_config_valid_def)

lemma show_small: "show_nat (Suc 0) = ''1''" "show_nat 2 = ''2''"
  by code_simp+

definition demo_client_config :: http_client_config where
  "demo_client_config = \<lparr>hcc_endpoint = ''h:1'', hcc_secret = ''0123456789'', hcc_ingress = True, hcc_egress = True,
     hcc_connections = 2, hcc_min_ttl = None, hcc_max_ttl = Some (from_secs 5)\<rparr>"

lemma demo_client_valid: "http_client_config_valid (\<lambda>_. True) length demo_client_config"
  by (simp add: http_client_config_valid_def demo_client_config_def MIN_SECRET_LEN_def)

lemma demo_new_client: "\<exists>h. new_http_client id (\<lambda>_. Some ''h'') None (\<lambda>_. 0) ''c'' demo_client_config = Ok h"
proof -
  have "[1..<2 + 1] = [1, 2::nat]" by (simp add: upt_rec)
  then show ?thesis
    by (simp add: new_http_client_def demo_client_config_def add_def new_connections_def http_client_nm_def
        new_client_connection_def client_connection_name_def show_nat.simps digit_def Let_def del: upt_Suc)
qed

lemma demo_client_names:
  "map (client_connection_name ''c'' (hcc_connections demo_client_config)) [1..<hcc_connections demo_client_config + 1]
     = [''c #1'', ''c #2'']"
proof -
  have "[1..<2 + 1] = [1, 2::nat]" by (simp add: upt_rec)
  then show ?thesis by (simp add: demo_client_config_def client_connection_name_def show_small del: upt_Suc)
qed

lemma new_http_client_sound_witness:
  "\<exists>h. new_http_client id (\<lambda>_. Some ''h'') None (\<lambda>_. 0) ''c'' demo_client_config = Ok h \<and>
     map cl_name (ht_clients h) = [''c #1'', ''c #2'']"
  using new_http_client_sound [OF demo_client_valid, of id "\<lambda>_. Some ''h''" None "\<lambda>_. 0" "''c''"]
    demo_new_client demo_client_names by (auto simp del: upt_Suc)

text \<open>Sending through a client.  A transport that is ready picks a connection that is established
  and may send, and its own direction says so too; one that is not gives an error; neither panics.\<close>
theorem http_client_send:
  assumes "http_client_ok h" "packet \<noteq> []"
  shows "\<exists>d. ht_direction h = Ok d \<and>
    (if ht_ready_for_sending h
     then contains d DIR_EGRESS \<and> (\<exists>i < length (ht_clients h). ht_send_via packet h = Ok i \<and>
       cl_connected (ht_clients h ! i) \<and> contains (cl_direction (ht_clients h ! i)) DIR_EGRESS)
     else ht_send_via packet h = Err ''There is no open connections'')"
proof -
  obtain d where d: "ht_direction h = Ok d"
    "\<forall>i < length (ht_clients h). cl_direction (ht_clients h ! i) = d"
    using ht_direction_ok [OF assms(1)] by blast
  show ?thesis
    using ht_select [OF assms] d cl.ready_egress cl.ready_connected by (auto split: if_splits)
qed

lemma http_client_send_witness:
  "\<exists>h i. http_client_ok h \<and> ht_ready_for_sending h \<and> ht_send_via [69] h = Ok i \<and> cl_connected (ht_clients h ! i)"
proof -
  define c where "c = demo_client\<lparr>cl_config := (cl_config demo_client)\<lparr>cc_flags := FLAG_EGRESS\<rparr>,
    cl_writer := demo_writer_sent\<rparr>"
  define h where "h = \<lparr>ht_name = ''c'', ht_labels = [], ht_pool = \<lparr>random_state = (\<lambda>_. 0), connections = [(cl_name c, 0)]\<rparr>,
    ht_clients = [c]\<rparr>"
  have ok: "http_client_ok h" by (simp add: http_client_ok_def h_def clients_filed_def)
  have "pw_current demo_writer_sent = Some 0"
    by (simp add: demo_writer_sent_def demo_sent_def writer_replace_def new_writer_def send_locked_def Let_def
        split: prod.splits)
  then have r: "ht_ready_for_sending h"
    by (simp add: ht_ready_for_sending_def pool_ready_def pool_values_def ht_ready_def h_def
        cl_ready_for_sending_def writer_connected_def c_def)
  with http_client_send [OF ok, of "[69]"] ok show ?thesis by auto
qed

text \<open>The pace of reconnections, of the loop alone.  However quickly connections fail, the \<open>k\<close>-th attempt after the
  first one starts no earlier than three seconds times \<open>k\<close> after it, and at least one second after
  the attempt before has ended.\<close>
theorem reconnect_pace:
  assumes "k \<le> length stops"
  shows "now + k * from_secs 3 \<le> attempt_starts now (new_client_task now) stops ! k \<and>
    (0 < k \<longrightarrow> stops ! (k - 1) + from_secs 1 \<le> attempt_starts now (new_client_task now) stops ! k)"
  using attempt_starts_pace [of "new_client_task now" now k stops] assms by (simp add: new_client_task_def)

lemma reconnect_pace_witness:
  "from_secs 6 \<le> attempt_starts 0 (new_client_task 0) [1, 2] ! 2"
  using reconnect_pace [of 2 "[1, 2]" 0] by (simp add: from_secs_def)

end
