(* ===== verification/ClientTask.thy ===== *)
theory ClientTask imports HttpClient begin

text \<open>
  The task of one connection of the client: \<open>Connection::handle\<close> and
  \<open>close_previous_connection\<close> of \<open>src/src/transport/http/client/connection.rs\<close>.

  The loop connects again and again.  A connection that has outlived its time is kept while the next
  one is set up; it is replaced in the writer first, shut down then, and its task is killed if it is
  still running when the new connection has ended or outlived its time in turn.  Each connection has
  a task of its own that reads packets to the end (\<open>process_connection\<close>) and then closes the writer.
  The handles of the writer and these tasks have the same numbers.

  The steps of the loop, of these tasks, of the senders and of the clock interleave.  What an
  attempt gives (\<open>ClientConnect\<close>) and what is read are arbitrary; its timeout is a failed attempt.
\<close>

section \<open>State\<close>

datatype conn_state = Reading | Closing | Finished | Killed

fun alive :: "conn_state \<Rightarrow> bool" where
  "alive Reading = True"
| "alive Closing = True"
| "alive Finished = False"
| "alive Killed = False"

text \<open>Where the loop is: asleep until the next attempt; connecting; waiting for the shutdown of the
  connection \<open>p\<close> that the new one has replaced; or waiting for its task, until a deadline if
  connections have a lifetime.\<close>

datatype phase =
    Sleeping
  | Connecting string
  | Replacing string nat nat "duration option"
  | Watching string nat "instant option"

text \<open>The last three fields are not variables of the code but a record of the run: when attempts began; what
  was sent over which connection, and whether that succeeded; and which connections have been read to their
  end, and whether this was the end of the stream (\<open>True\<close>) or an error.\<close>

record client_session =
  cs_name :: string
  cs_config :: client_config
  cs_task :: client_task
  cs_writer :: packet_writer
  cs_conns :: "conn_state list"
  cs_phase :: phase
  cs_now :: instant
  cs_starts :: "instant list"
  cs_sent :: "(nat \<times> bytes \<times> bool) list"
  cs_ended :: "(nat \<times> bool) list"

definition new_client_session :: "string \<Rightarrow> client_config \<Rightarrow> conn_stat \<Rightarrow> instant \<Rightarrow> client_session" where
  "new_client_session name config st now =
     \<lparr>cs_name = name, cs_config = config, cs_task = new_client_task now, cs_writer = new_writer name st,
      cs_conns = [], cs_phase = Sleeping, cs_now = now, cs_starts = [], cs_sent = [], cs_ended = []\<rparr>"

section \<open>Steps\<close>

definition begin_attempt :: "client_session \<Rightarrow> client_session" where
  "begin_attempt s =
     (case connect_begin (cs_name s) (cs_task s) of
        (name, t) \<Rightarrow> s\<lparr>cs_task := t, cs_phase := Connecting name, cs_starts := cs_starts s @ [cs_now s]\<rparr>)"

definition end_attempt :: "client_session \<Rightarrow> client_session" where
  "end_attempt s = s\<lparr>cs_task := connect_wait (cs_now s) (cs_task s), cs_phase := Sleeping\<rparr>"

text \<open>\<open>close_previous_connection\<close>.\<close>

fun close_previous :: "(string \<times> nat) option \<Rightarrow> conn_state list \<Rightarrow> conn_state list" where
  "close_previous None conns = conns"
| "close_previous (Some (name, h)) conns = (if conns ! h = Finished then conns else conns[h := Killed])"

definition watch :: "string \<Rightarrow> nat \<Rightarrow> duration option \<Rightarrow> client_session \<Rightarrow> client_session" where
  "watch name h ttl s = s\<lparr>cs_phase := Watching name h (map_option (\<lambda>d. cs_now s + d) ttl)\<rparr>"

text \<open>An established connection replaces the writer's, and its task is spawned.\<close>

definition establish :: "string \<Rightarrow> int \<Rightarrow> duration option \<Rightarrow> client_session \<Rightarrow> client_session" where
  "establish name fd ttl s =
     (case writer_replace name fd \<lparr>written = [], shut = False\<rparr> (cs_writer s) of
        ((h, previous), w) \<Rightarrow>
          let s' = s\<lparr>cs_writer := w, cs_conns := cs_conns s @ [Reading]\<rparr>
          in case previous of
               Some p \<Rightarrow> s'\<lparr>cs_phase := Replacing name h p ttl\<rparr>
             | None \<Rightarrow> watch name h ttl s')"

text \<open>The task that is killed may be in the middle of shutting its connection down.\<close>

fun abort_previous :: "(string \<times> nat) option \<Rightarrow> bool \<Rightarrow> conn_state list \<Rightarrow> packet_writer \<Rightarrow> packet_writer" where
  "abort_previous None midway conns w = w"
| "abort_previous (Some (name, h)) midway conns w = (if midway \<and> conns ! h = Closing then shutdown_aborted h w else w)"

text \<open>The task has ended, or its connection has expired.\<close>

definition end_connection :: "string \<Rightarrow> nat \<Rightarrow> bool \<Rightarrow> bool \<Rightarrow> client_session \<Rightarrow> client_session" where
  "end_connection name h expired midway s =
     (case connect_done name h expired (cs_task s) of
        (previous, t) \<Rightarrow>
          end_attempt (s\<lparr>cs_task := t, cs_writer := abort_previous previous midway (cs_conns s) (cs_writer s),
            cs_conns := close_previous previous (cs_conns s)\<rparr>))"

text \<open>\<open>process_connection\<close> returns: \<open>close_matching\<close> up to the shutdown of the socket.\<close>

definition finish_reading :: "nat \<Rightarrow> bool \<Rightarrow> client_session \<Rightarrow> client_session" where
  "finish_reading h graceful s =
     (case writer_close_matching h graceful (cs_writer s) of
        (shutdown, w) \<Rightarrow>
          s\<lparr>cs_writer := w, cs_conns := (cs_conns s)[h := (if shutdown = None then Finished else Closing)]\<rparr>)"

inductive session_step :: "client_session \<Rightarrow> client_session \<Rightarrow> bool" where
  tick: "session_step s (s\<lparr>cs_now := cs_now s + d\<rparr>)"
| begin_attempt: "cs_phase s = Sleeping \<Longrightarrow> ct_next_reconnect (cs_task s) \<le> cs_now s \<Longrightarrow>
    session_step s (begin_attempt s)"
| attempt_failed: "cs_phase s = Connecting name \<Longrightarrow> session_step s (end_attempt s)"
| established: "cs_phase s = Connecting name \<Longrightarrow> ttl_ok (cs_config s) ttl \<Longrightarrow>
    session_step s (establish name fd ttl s)"
| replaced: "cs_phase s = Replacing name h p ttl \<Longrightarrow>
    session_step s (s\<lparr>cs_writer := shutdown_locked p None io io' (cs_writer s)\<rparr>)"
| shut: "cs_phase s = Replacing name h p ttl \<Longrightarrow> \<not> has_sender (pw_handles (cs_writer s) ! p) \<Longrightarrow>
    session_step s (watch name h ttl s)"
| ended: "cs_phase s = Watching name h deadline \<Longrightarrow> \<not> alive (cs_conns s ! h) \<Longrightarrow>
    session_step s (end_connection name h False midway s)"
| expired: "cs_phase s = Watching name h (Some deadline) \<Longrightarrow> deadline \<le> cs_now s \<Longrightarrow> alive (cs_conns s ! h) \<Longrightarrow>
    session_step s (end_connection name h True midway s)"
| reading_ends: "h < length (cs_conns s) \<Longrightarrow> cs_conns s ! h = Reading \<Longrightarrow>
    session_step s ((finish_reading h graceful s)\<lparr>cs_ended := cs_ended s @ [(h, graceful)]\<rparr>)"
| closed: "h < length (cs_conns s) \<Longrightarrow> cs_conns s ! h = Closing \<Longrightarrow>
    session_step s (s\<lparr>cs_writer := shutdown_locked h None io io' (cs_writer s), cs_conns := (cs_conns s)[h := Finished]\<rparr>)"
| refused: "writer_current (cs_writer s) = (Err e, w) \<Longrightarrow> session_step s (s\<lparr>cs_writer := w\<rparr>)"
| sent: "h < length (cs_conns s) \<Longrightarrow> send_locked h packet io (cs_writer s) = (r, w) \<Longrightarrow>
    session_step s (s\<lparr>cs_writer := w, cs_sent := cs_sent s @ [(h, packet, is_ok r)]\<rparr>)"

section \<open>Invariant\<close>

text \<open>The connection that the loop waits for, and the one that has expired.\<close>

fun watched :: "phase \<Rightarrow> nat option" where
  "watched Sleeping = None"
| "watched (Connecting name) = None"
| "watched (Replacing name h p ttl) = Some h"
| "watched (Watching name h deadline) = Some h"

definition expired_one :: "client_session \<Rightarrow> nat option" where
  "expired_one s = map_option snd (ct_previous (cs_task s))"

definition session_ok :: "client_session \<Rightarrow> bool" where
  "session_ok s \<longleftrightarrow> length (cs_conns s) = length (pw_handles (cs_writer s)) \<and>
     (\<forall>h. pw_current (cs_writer s) = Some h \<longrightarrow> Suc h = length (cs_conns s) \<and> cs_conns s ! h = Reading) \<and>
     (\<forall>h < length (cs_conns s). alive (cs_conns s ! h) \<longrightarrow> Some h \<in> {watched (cs_phase s), expired_one s}) \<and>
     (\<forall>h. watched (cs_phase s) = Some h \<longrightarrow> Suc h = length (cs_conns s) \<and> cs_conns s ! h \<noteq> Killed) \<and>
     (\<forall>name h p ttl. cs_phase s = Replacing name h p ttl \<longrightarrow> p < h) \<and>
     (\<forall>h. expired_one s = Some h \<longrightarrow> h < length (cs_conns s) \<and> watched (cs_phase s) \<noteq> Some h \<and> cs_conns s ! h \<noteq> Killed)"

lemma session_ok_record [simp]:
  "session_ok (s\<lparr>cs_sent := sent\<rparr>) \<longleftrightarrow> session_ok s" "session_ok (s\<lparr>cs_ended := ended\<rparr>) \<longleftrightarrow> session_ok s"
  by (simp_all add: session_ok_def expired_one_def)

lemma session_ok_new: "session_ok (new_client_session name config st now)"
  by (simp add: session_ok_def new_client_session_def new_writer_def expired_one_def new_client_task_def)

lemma writer_only:
  assumes "session_ok s" "length (pw_handles w) = length (pw_handles (cs_writer s))" "pw_current w = pw_current (cs_writer s)"
  shows "session_ok (s\<lparr>cs_writer := w\<rparr>)"
  using assms unfolding session_ok_def expired_one_def by auto

lemma length_shutdown_locked [simp]:
  "length (pw_handles (shutdown_locked h p io io' w)) = length (pw_handles w)"
  "pw_current (shutdown_locked h p io io' w) = pw_current w"
  by (simp_all add: shutdown_locked_def)

lemma abort_previous_writer [simp]:
  "length (pw_handles (abort_previous p midway conns w)) = length (pw_handles w)"
  "pw_current (abort_previous p midway conns w) = pw_current w"
  by (induction p midway conns w rule: abort_previous.induct) (simp_all add: shutdown_aborted_def Let_def)

lemma abort_previous_sender:
  "i < length (pw_handles w) \<Longrightarrow> has_sender (pw_handles (abort_previous p midway conns w) ! i) \<Longrightarrow> has_sender (pw_handles w ! i)"
proof (induction p midway conns w rule: abort_previous.induct)
  case (2 name h midway conns w)
  then show ?case by (cases "h = i") (auto simp: shutdown_aborted_def Let_def split: if_splits)
qed simp

lemma session_ok_begin: "session_ok s \<Longrightarrow> cs_phase s = Sleeping \<Longrightarrow> session_ok (begin_attempt s)"
  unfolding session_ok_def expired_one_def by (auto simp: begin_attempt_def connect_begin_def)

lemma expired_one_wait [simp]: "ct_previous (connect_wait now t) = ct_previous t"
  by (simp add: connect_wait_def Let_def)

lemma session_ok_end_attempt: "session_ok s \<Longrightarrow> cs_phase s = Connecting name \<Longrightarrow> session_ok (end_attempt s)"
  unfolding session_ok_def expired_one_def by (auto simp: end_attempt_def)

lemma session_ok_watch:
  "session_ok s \<Longrightarrow> cs_phase s = Replacing name h p ttl \<Longrightarrow> session_ok (watch name h ttl s)"
  unfolding session_ok_def expired_one_def by (auto simp: watch_def)

lemma session_ok_establish:
  assumes "session_ok s" "cs_phase s = Connecting name"
  shows "session_ok (establish name fd ttl s)"
  using assms
  by (auto simp: session_ok_def establish_def writer_replace_def watch_def expired_one_def Let_def nth_append
      less_Suc_eq split: option.splits)

lemma length_close_previous [simp]: "length (close_previous p conns) = length conns"
  by (induction p conns rule: close_previous.induct) simp_all

lemma close_previous_nth:
  "i < length conns \<Longrightarrow> close_previous p conns ! i =
     (if map_option snd p = Some i \<and> conns ! i \<noteq> Finished then Killed else conns ! i)"
proof (induction p conns rule: close_previous.induct)
  case (2 name h conns)
  then show ?case by (cases "h = i") simp_all
qed simp

lemma session_ok_end_connection:
  assumes "session_ok s" "cs_phase s = Watching name h deadline" "expired \<longleftrightarrow> alive (cs_conns s ! h)"
  shows "session_ok (end_connection name h expired midway s)"
proof -
  let ?conns = "close_previous (ct_previous (cs_task s)) (cs_conns s)"
  have h: "Suc h = length (cs_conns s)" "cs_conns s ! h \<noteq> Killed" "expired_one s \<noteq> Some h"
    using assms(1,2) by (auto simp: session_ok_def)
  then have conns: "?conns ! i = (if expired_one s = Some i \<and> cs_conns s ! i \<noteq> Finished then Killed else cs_conns s ! i)"
    if "i < length (cs_conns s)" for i
    using close_previous_nth [OF that, of "ct_previous (cs_task s)"] by (simp add: expired_one_def)
  have s': "cs_conns (end_connection name h expired midway s) = ?conns" "cs_phase (end_connection name h expired midway s) = Sleeping"
    "pw_current (cs_writer (end_connection name h expired midway s)) = pw_current (cs_writer s)"
    "length (pw_handles (cs_writer (end_connection name h expired midway s))) = length (pw_handles (cs_writer s))"
    "expired_one (end_connection name h expired midway s) = (if expired then Some h else None)"
    by (simp_all add: end_connection_def connect_done_def end_attempt_def expired_one_def)
  have cur: "pw_current (cs_writer s) = Some i \<Longrightarrow> i = h \<and> cs_conns s ! h = Reading" for i
  proof -
    assume "pw_current (cs_writer s) = Some i"
    with assms(1) have "Suc i = length (cs_conns s)" "cs_conns s ! i = Reading" by (simp_all add: session_ok_def)
    with h(1) show ?thesis by (cases "i = h") auto
  qed
  have live: "i = h \<or> expired_one s = Some i" if "i < length (cs_conns s)" "alive (cs_conns s ! i)" for i
    using assms(1,2) that by (auto simp: session_ok_def)
  have len: "length (cs_conns s) = length (pw_handles (cs_writer s))" using assms(1) by (simp add: session_ok_def)
  show ?thesis unfolding session_ok_def s'
  proof (intro conjI allI impI)
    fix i assume "pw_current (cs_writer s) = Some i"
    with cur h conns [of h] show "Suc i = length ?conns" "?conns ! i = Reading" by auto
  next
    fix i assume "i < length ?conns" "alive (?conns ! i)"
    with conns [of i] live [of i] assms(3) show "Some i \<in> {watched Sleeping, if expired then Some h else None}"
      by (auto split: if_splits)
  qed (use h conns [of h] assms(3) len in \<open>auto split: if_splits\<close>)
qed

lemma session_ok_finish_reading:
  assumes "session_ok s" "h < length (cs_conns s)" "cs_conns s ! h = Reading"
  shows "session_ok (finish_reading h graceful s)"
  using assms
  by (auto simp: session_ok_def finish_reading_def writer_close_matching_def expired_one_def nth_list_update
      split: if_splits)

lemma session_ok_closed:
  assumes "session_ok s" "h < length (cs_conns s)" "cs_conns s ! h = Closing"
  shows "session_ok (s\<lparr>cs_writer := shutdown_locked h None io io' (cs_writer s), cs_conns := (cs_conns s)[h := Finished]\<rparr>)"
  using assms unfolding session_ok_def expired_one_def by (auto simp: nth_list_update)

lemma session_ok_step: "session_step s s' \<Longrightarrow> session_ok s \<Longrightarrow> session_ok s'"
proof (induction rule: session_step.induct)
  case (tick s d)
  then show ?case unfolding session_ok_def expired_one_def by auto
next
  case (replaced s name h p ttl io io')
  then show ?case by (intro writer_only) simp_all
next
  case (shut s name h p ttl)
  then show ?case by (intro session_ok_watch)
next
  case (ended s name h deadline midway)
  then show ?case by (intro session_ok_end_connection) simp_all
next
  case (expired s name h deadline midway)
  then show ?case by (intro session_ok_end_connection) simp_all
next
  case (refused s e w)
  then show ?case by (intro writer_only) (auto simp: writer_current_def split: option.splits)
next
  case (sent h s packet io r w)
  then show ?case unfolding session_ok_record by (intro writer_only) (simp_all add: send_locked_handles)
qed (auto intro: session_ok_begin session_ok_end_attempt session_ok_establish session_ok_finish_reading session_ok_closed)

lemma session_ok_reachable: "session_step\<^sup>*\<^sup>* (new_client_session name config st now) s \<Longrightarrow> session_ok s"
  by (induction rule: rtranclp_induct) (auto intro: session_ok_new session_ok_step)

lemma session_ok_alive:
  assumes "session_ok s"
  shows "card {h. h < length (cs_conns s) \<and> alive (cs_conns s ! h)} \<le> (if watched (cs_phase s) = None then 1 else 2)"
proof -
  let ?L = "set_option (watched (cs_phase s)) \<union> set_option (expired_one s)"
  have fin: "finite (set_option x)" for x :: "nat option" by (cases x) simp_all
  have "{h. h < length (cs_conns s) \<and> alive (cs_conns s ! h)} \<subseteq> ?L"
    using assms by (auto simp: session_ok_def)
  then have "card {h. h < length (cs_conns s) \<and> alive (cs_conns s ! h)} \<le> card ?L"
    by (intro card_mono) (simp add: fin)
  also have "\<dots> \<le> (if watched (cs_phase s) = None then 1 else 2)"
    by (cases "watched (cs_phase s)"; cases "expired_one s") (auto simp: card_insert_if)
  finally show ?thesis .
qed

section \<open>Pace\<close>

definition pace_ok :: "instant \<Rightarrow> client_session \<Rightarrow> bool" where
  "pace_ok origin s \<longleftrightarrow> length (cs_starts s) = ct_id (cs_task s) \<and>
     (\<forall>k < length (cs_starts s). origin + k * from_secs 3 \<le> cs_starts s ! k) \<and>
     (\<forall>k. Suc k < length (cs_starts s) \<longrightarrow> cs_starts s ! k + from_secs 1 \<le> cs_starts s ! Suc k) \<and>
     origin + ct_id (cs_task s) * from_secs 3 \<le> ct_next_reconnect (cs_task s) \<and>
     (\<forall>t \<in> set (cs_starts s). t \<le> cs_now s) \<and>
     (cs_phase s = Sleeping \<longrightarrow> (\<forall>t \<in> set (cs_starts s). t + from_secs 1 \<le> ct_next_reconnect (cs_task s)))"

lemma pace_ok_begin:
  assumes "pace_ok origin s" "cs_phase s = Sleeping" "ct_next_reconnect (cs_task s) \<le> cs_now s"
  shows "pace_ok origin (begin_attempt s)"
  using assms
  by (auto simp: pace_ok_def begin_attempt_def connect_begin_def nth_append less_Suc_eq
      intro: order.trans dest: nth_mem)

lemma pace_ok_wait:
  assumes "pace_ok origin s"
  shows "pace_ok origin (end_attempt s)"
  using assms by (auto simp: pace_ok_def end_attempt_def connect_wait_def Let_def intro: order.trans)

lemma pace_ok_step: "session_step s s' \<Longrightarrow> pace_ok origin s \<Longrightarrow> pace_ok origin s'"
proof (induction rule: session_step.induct)
  case (ended s name h deadline midway)
  then have "pace_ok origin (s\<lparr>cs_task := snd (connect_done name h False (cs_task s)),
      cs_writer := abort_previous (ct_previous (cs_task s)) midway (cs_conns s) (cs_writer s), cs_conns := close_previous (ct_previous (cs_task s)) (cs_conns s)\<rparr>)"
    by (simp add: pace_ok_def connect_done_def)
  then show ?case using pace_ok_wait by (simp add: end_connection_def connect_done_def)
next
  case (expired s name h deadline midway)
  then have "pace_ok origin (s\<lparr>cs_task := snd (connect_done name h True (cs_task s)),
      cs_writer := abort_previous (ct_previous (cs_task s)) midway (cs_conns s) (cs_writer s), cs_conns := close_previous (ct_previous (cs_task s)) (cs_conns s)\<rparr>)"
    by (simp add: pace_ok_def connect_done_def)
  then show ?case using pace_ok_wait by (simp add: end_connection_def connect_done_def)
next
  case (begin_attempt s)
  then show ?case by (intro pace_ok_begin)
next
  case (attempt_failed s name)
  then show ?case by (intro pace_ok_wait)
qed (auto simp: pace_ok_def establish_def watch_def finish_reading_def Let_def split: prod.splits option.splits intro: trans_le_add1)

lemma pace_ok_reachable: "session_step\<^sup>*\<^sup>* (new_client_session name config st now) s \<Longrightarrow> pace_ok now s"
proof (induction rule: rtranclp_induct)
  case base
  then show ?case by (simp add: pace_ok_def new_client_session_def new_client_task_def)
qed (rule pace_ok_step)

section \<open>The replaced connection\<close>

text \<open>A connection that is still being read but is no longer the writer's has lost its sender, except
  while the loop waits for its shutdown.\<close>

definition senders_ok :: "client_session \<Rightarrow> bool" where
  "senders_ok s \<longleftrightarrow> (\<forall>i < length (cs_conns s). cs_conns s ! i = Reading \<and> pw_current (cs_writer s) \<noteq> Some i \<longrightarrow>
     \<not> has_sender (pw_handles (cs_writer s) ! i) \<or> (\<exists>name h ttl. cs_phase s = Replacing name h i ttl))"

lemma senders_ok_record [simp]: "senders_ok (s\<lparr>cs_sent := sent\<rparr>) \<longleftrightarrow> senders_ok s"
  by (simp add: senders_ok_def)

lemma senders_ok_handles:
  assumes "senders_ok s" "pw_current w = pw_current (cs_writer s)"
    "\<And>i. i < length (cs_conns s) \<Longrightarrow> has_sender (pw_handles w ! i) \<Longrightarrow> has_sender (pw_handles (cs_writer s) ! i)"
  shows "senders_ok (s\<lparr>cs_writer := w\<rparr>)"
  using assms by (auto simp: senders_ok_def)

lemma shutdown_locked_sender:
  "i < length (pw_handles w) \<Longrightarrow> has_sender (pw_handles (shutdown_locked h p io io' w) ! i) \<longleftrightarrow>
     i \<noteq> h \<and> has_sender (pw_handles w ! i)"
  using connection_shutdown_ok(2) by (cases "i = h") (simp_all add: shutdown_locked_def)

lemma send_locked_sender:
  assumes "send_locked h packet io w = (r, w')" "i < length (pw_handles w)" "has_sender (pw_handles w' ! i)"
  shows "has_sender (pw_handles w ! i)"
proof -
  have "has_sender (snd (connection_send packet io c)) \<Longrightarrow> has_sender c" for c
    by (auto simp: connection_send_def split: if_splits)
  with assms show ?thesis by (cases "i = h") (simp_all add: send_locked_handles(1))
qed

lemma senders_ok_step: "session_step s s' \<Longrightarrow> session_ok s \<Longrightarrow> senders_ok s \<Longrightarrow> senders_ok s'"
proof (induction rule: session_step.induct)
  case (established s name ttl fd)
  then show ?case
    by (auto simp: senders_ok_def session_ok_def establish_def writer_replace_def watch_def nth_append less_Suc_eq Let_def
        split: option.splits)
next
  case (replaced s name h p ttl io io')
  then have "length (cs_conns s) = length (pw_handles (cs_writer s))" by (simp add: session_ok_def)
  with replaced show ?case by (intro senders_ok_handles) (simp_all add: shutdown_locked_sender)
next
  case (shut s name h p ttl)
  then show ?case by (auto simp: senders_ok_def watch_def)
next
  case (ended s name h deadline midway)
  then show ?case
    by (auto simp: senders_ok_def end_connection_def connect_done_def end_attempt_def close_previous_nth session_ok_def
        dest: abort_previous_sender split: if_splits)
next
  case (expired s name h deadline midway)
  then show ?case
    by (auto simp: senders_ok_def end_connection_def connect_done_def end_attempt_def close_previous_nth session_ok_def
        dest: abort_previous_sender split: if_splits)
next
  case (reading_ends h s graceful)
  then show ?case
    by (auto simp: senders_ok_def finish_reading_def writer_close_matching_def nth_list_update split: if_splits)
next
  case (closed h s io io')
  then show ?case
    by (auto simp: senders_ok_def session_ok_def shutdown_locked_sender nth_list_update)
next
  case (refused s e w)
  then show ?case by (intro senders_ok_handles) (auto simp: writer_current_def split: option.splits)
next
  case (sent h s packet io r w)
  then have "length (cs_conns s) = length (pw_handles (cs_writer s))" by (simp add: session_ok_def)
  with sent show ?case unfolding senders_ok_record
    by (intro senders_ok_handles) (auto simp: send_locked_handles(3) dest: send_locked_sender)
qed (auto simp: senders_ok_def begin_attempt_def end_attempt_def split: prod.splits)

lemma senders_ok_reachable: "session_step\<^sup>*\<^sup>* (new_client_session name config st now) s \<Longrightarrow> senders_ok s"
proof (induction rule: rtranclp_induct)
  case base
  then show ?case by (simp add: senders_ok_def new_client_session_def)
next
  case (step s s')
  then show ?case using senders_ok_step session_ok_reachable by blast
qed

section \<open>The streams\<close>

text \<open>The packets whose sending over \<open>h\<close> has succeeded, in order.\<close>

definition accepted :: "client_session \<Rightarrow> nat \<Rightarrow> bytes list" where
  "accepted s h = [packet. (k, packet, ok) \<leftarrow> cs_sent s, k = h \<and> ok]"

text \<open>The stream of a connection is these packets; behind them, once its sender is gone, there may be a piece
  of one more, whose sending failed.\<close>

definition stream_ok :: "(nat \<times> bytes \<times> bool) list \<Rightarrow> nat \<Rightarrow> bytes list \<Rightarrow> writer_connection \<Rightarrow> bool" where
  "stream_ok sent h packets c \<longleftrightarrow>
     (\<exists>tail. written (wc_socket c) = concat packets @ tail \<and> (has_sender c \<longrightarrow> tail = [] \<and> \<not> shut (wc_socket c)) \<and>
        (tail \<noteq> [] \<longrightarrow> (\<exists>packet. (h, packet, False) \<in> set sent \<and> prefix tail packet)))"

definition streams_ok :: "client_session \<Rightarrow> bool" where
  "streams_ok s \<longleftrightarrow>
     (\<forall>h < length (pw_handles (cs_writer s)). stream_ok (cs_sent s) h (accepted s h) (pw_handles (cs_writer s) ! h)) \<and>
     (\<forall>(h, packet, ok) \<in> set (cs_sent s). h < length (cs_conns s))"

text \<open>Shutdowns.  A connection is being closed only after the end of its stream, and shut down only then or if it
  has been replaced; and one at the end of its stream is being closed, has lost its sender, is just being
  replaced, or its task has been killed.\<close>

definition ends_ok :: "client_session \<Rightarrow> bool" where
  "ends_ok s \<longleftrightarrow>
     (\<forall>h graceful. (h, graceful) \<in> set (cs_ended s) \<longrightarrow> h < length (cs_conns s) \<and> cs_conns s ! h \<noteq> Reading) \<and>
     (\<forall>h < length (cs_conns s). cs_conns s ! h = Closing \<longrightarrow> (h, True) \<in> set (cs_ended s)) \<and>
     (\<forall>h < length (cs_conns s). shut (wc_socket (pw_handles (cs_writer s) ! h)) \<longrightarrow>
        Suc h < length (cs_conns s) \<or> (h, True) \<in> set (cs_ended s)) \<and>
     (\<forall>h. (h, True) \<in> set (cs_ended s) \<longrightarrow> cs_conns s ! h \<in> {Closing, Killed} \<or>
        \<not> has_sender (pw_handles (cs_writer s) ! h) \<or> (\<exists>name k ttl. cs_phase s = Replacing name k h ttl))"

lemma stream_ok_shutdown:
  "stream_ok sent h ps c \<Longrightarrow> stream_ok sent h ps (connection_shutdown None io io' c)"
  by (cases io') (auto simp: stream_ok_def connection_shutdown_def)

lemma stream_ok_more: "stream_ok sent h ps c \<Longrightarrow> stream_ok (sent @ more_sent) h ps c"
  unfolding stream_ok_def by auto

lemma stream_ok_send:
  assumes "stream_ok sent h ps c" "connection_send packet io c = (r, c')"
  shows "stream_ok (sent @ [(h, packet, is_ok r)]) h (if is_ok r then ps @ [packet] else ps) c'"
proof (cases "has_sender c")
  case False
  then show ?thesis using assms stream_ok_more [OF assms(1)] by (auto simp: connection_send_def)
next
  case True
  with assms(1) have c: "written (wc_socket c) = concat ps" "\<not> shut (wc_socket c)" by (auto simp: stream_ok_def)
  show ?thesis
  proof (cases io)
    case None
    then show ?thesis using assms(2) True c by (auto simp: connection_send_def stream_ok_def)
  next
    case (Some failure)
    then obtain e n where "io = Some (e, n)" by (cases failure) auto
    with assms(2) True have "r = Err e" "written (wc_socket c') = written (wc_socket c) @ take n packet" "\<not> has_sender c'"
      by (auto simp: connection_send_def)
    moreover have "(h, packet, False) \<in> set (sent @ [(h, packet, False)]) \<and> prefix (take n packet) packet"
      by (simp add: take_is_prefix)
    ultimately show ?thesis using c unfolding stream_ok_def
      by - (rule exI [of _ "take n packet"], simp, blast)
  qed
qed

lemma streams_ok_handles:
  assumes "streams_ok s" "cs_sent s' = cs_sent s" "length (cs_conns s') = length (cs_conns s)"
    "length (pw_handles (cs_writer s')) = length (pw_handles (cs_writer s))"
    "\<And>h ps. stream_ok (cs_sent s) h ps (pw_handles (cs_writer s) ! h) \<Longrightarrow> h < length (pw_handles (cs_writer s)) \<Longrightarrow>
       stream_ok (cs_sent s) h ps (pw_handles (cs_writer s') ! h)"
  shows "streams_ok s'"
  using assms unfolding streams_ok_def accepted_def by simp

lemma stream_ok_shutdown_locked:
  assumes "stream_ok sent h ps (pw_handles w ! h)" "h < length (pw_handles w)"
  shows "stream_ok sent h ps (pw_handles (shutdown_locked k None io io' w) ! h)"
  using assms stream_ok_shutdown by (cases "k = h") (simp_all add: shutdown_locked_def)

lemma stream_ok_abort:
  assumes "stream_ok sent h ps (pw_handles w ! h)" "h < length (pw_handles w)"
  shows "stream_ok sent h ps (pw_handles (abort_previous p midway conns w) ! h)"
  using assms
proof (induction p midway conns w rule: abort_previous.induct)
  case (2 name k midway conns w)
  then show ?case
    by (cases "k = h") (auto simp: shutdown_aborted_def Let_def stream_ok_def)
qed simp

lemma streams_ok_establish:
  assumes "streams_ok s" "session_ok s"
  shows "streams_ok (establish name fd ttl s)"
proof -
  let ?s' = "establish name fd ttl s"
  let ?new = "new_connection name fd \<lparr>written = [], shut = False\<rparr>"
  have len: "length (cs_conns s) = length (pw_handles (cs_writer s))" using assms(2) by (simp add: session_ok_def)
  have s': "cs_sent ?s' = cs_sent s" "pw_handles (cs_writer ?s') = pw_handles (cs_writer s) @ [?new]"
    "length (cs_conns ?s') = Suc (length (cs_conns s))"
    by (simp_all add: establish_def writer_replace_def watch_def Let_def split: option.split)
  then have acc: "accepted ?s' = accepted s" by (simp add: accepted_def fun_eq_iff)
  have "accepted s (length (pw_handles (cs_writer s))) = []"
    using assms(1) len by (fastforce simp: streams_ok_def accepted_def)
  then show ?thesis using assms(1) len
    by (fastforce simp: streams_ok_def s' acc nth_append less_Suc_eq stream_ok_def new_connection_def)
qed

lemma streams_ok_sent:
  assumes "streams_ok s" "h < length (cs_conns s)" "send_locked h packet io (cs_writer s) = (r, w)"
  shows "streams_ok (s\<lparr>cs_writer := w, cs_sent := cs_sent s @ [(h, packet, is_ok r)]\<rparr>)"
proof -
  let ?s' = "s\<lparr>cs_writer := w, cs_sent := cs_sent s @ [(h, packet, is_ok r)]\<rparr>"
  let ?c = "connection_send packet io (pw_handles (cs_writer s) ! h)"
  have acc: "accepted ?s' k = (if k = h \<and> is_ok r then accepted s k @ [packet] else accepted s k)" for k
    by (simp add: accepted_def)
  have "stream_ok (cs_sent ?s') k (accepted ?s' k) (pw_handles w ! k)"
    if "k < length (pw_handles (cs_writer s))" for k
  proof -
    have k: "stream_ok (cs_sent s) k (accepted s k) (pw_handles (cs_writer s) ! k)"
      using assms(1) that by (simp add: streams_ok_def)
    show ?thesis
    proof (cases "k = h")
      case True
      have "?c = (r, snd ?c)" using send_locked_handles(2) [OF assms(3)] by (simp add: prod_eq_iff)
      from stream_ok_send [OF k [unfolded True] this] that True show ?thesis
        by (simp add: acc send_locked_handles(1) [OF assms(3)])
    next
      case False
      with stream_ok_more [OF k] that show ?thesis by (simp add: acc send_locked_handles(1) [OF assms(3)])
    qed
  qed
  then show ?thesis using assms(1,2) by (simp add: streams_ok_def send_locked_handles(1) [OF assms(3)])
qed

lemma streams_ok_step: "session_step s s' \<Longrightarrow> session_ok s \<Longrightarrow> streams_ok s \<Longrightarrow> streams_ok s'"
proof (induction rule: session_step.induct)
  case (established s name ttl fd)
  then show ?case by (intro streams_ok_establish)
next
  case (sent h s packet io r w)
  then show ?case by (intro streams_ok_sent)
next
  case (replaced s name h p ttl io io')
  from this(3) show ?case by (rule streams_ok_handles) (simp_all add: stream_ok_shutdown_locked)
next
  case (closed h s io io')
  from this(4) show ?case by (rule streams_ok_handles) (simp_all add: stream_ok_shutdown_locked)
next
  case (ended s name h deadline midway)
  from this(4) show ?case
    by (rule streams_ok_handles) (simp_all add: end_connection_def connect_done_def end_attempt_def stream_ok_abort)
next
  case (expired s name deadline h midway)
  from this(5) show ?case
    by (rule streams_ok_handles) (simp_all add: end_connection_def connect_done_def end_attempt_def stream_ok_abort)
next
  case (reading_ends h s graceful)
  from this(4) show ?case
    by (rule streams_ok_handles) (simp_all add: finish_reading_def writer_close_matching_def)
next
  case (refused s e w)
  from this(3,1) show ?case
    by (elim streams_ok_handles) (auto simp: writer_current_def split: option.splits)
qed (auto simp: streams_ok_def accepted_def begin_attempt_def end_attempt_def watch_def split: prod.splits)

text \<open>A socket is shut down only by the shutdown of its connection.\<close>

lemma shut_locked:
  assumes "i < length (pw_handles w)" "shut (wc_socket (pw_handles (shutdown_locked h p io io' w) ! i))"
  shows "i = h \<or> shut (wc_socket (pw_handles w ! i))"
  using assms by (cases "i = h") (simp_all add: shutdown_locked_def)

lemma shut_abort:
  assumes "i < length (pw_handles w)" "shut (wc_socket (pw_handles (abort_previous p midway conns w) ! i))"
  shows "shut (wc_socket (pw_handles w ! i))"
  using assms
proof (induction p midway conns w rule: abort_previous.induct)
  case (2 name h midway conns w)
  then show ?case by (cases "h = i") (auto simp: shutdown_aborted_def Let_def split: if_splits)
qed simp

lemma shut_send:
  assumes "i < length (pw_handles w)" "send_locked h packet io w = (r, w')" "shut (wc_socket (pw_handles w' ! i))"
  shows "shut (wc_socket (pw_handles w ! i))"
proof -
  have "shut (wc_socket (snd (connection_send packet io c))) \<Longrightarrow> shut (wc_socket c)" for c
    by (cases io) (auto simp: connection_send_def split: if_splits)
  with assms show ?thesis by (cases "i = h") (simp_all add: send_locked_handles(1))
qed

lemma ends_ok_writer:
  assumes "ends_ok s" "cs_conns s' = cs_conns s" "cs_phase s' = cs_phase s" "cs_ended s' = cs_ended s"
    "\<And>i. i < length (cs_conns s) \<Longrightarrow> has_sender (pw_handles (cs_writer s') ! i) \<Longrightarrow> has_sender (pw_handles (cs_writer s) ! i)"
    "\<And>i. i < length (cs_conns s) \<Longrightarrow> shut (wc_socket (pw_handles (cs_writer s') ! i)) \<Longrightarrow>
       shut (wc_socket (pw_handles (cs_writer s) ! i)) \<or> Suc i < length (cs_conns s)"
  shows "ends_ok s'"
proof -
  note e = assms(1) [unfolded ends_ok_def]
  show ?thesis unfolding ends_ok_def assms(2-4)
  proof (intro conjI allI impI)
    fix i assume "i < length (cs_conns s)" "shut (wc_socket (pw_handles (cs_writer s') ! i))"
    with assms(6) e show "Suc i < length (cs_conns s) \<or> (i, True) \<in> set (cs_ended s)" by blast
  next
    fix i assume "(i, True) \<in> set (cs_ended s)"
    with assms(5) e show "cs_conns s ! i \<in> {Closing, Killed} \<or> \<not> has_sender (pw_handles (cs_writer s') ! i) \<or>
        (\<exists>name k ttl. cs_phase s = Replacing name k i ttl)" by blast
  qed (use e in blast)+
qed

lemma ends_ok_end_connection:
  assumes "ends_ok s" "session_ok s" "cs_phase s = Watching name h deadline"
  shows "ends_ok (end_connection name h x midway s)"
proof -
  let ?s' = "end_connection name h x midway s"
  let ?conns = "close_previous (ct_previous (cs_task s)) (cs_conns s)"
  have len: "length (cs_conns s) = length (pw_handles (cs_writer s))" using assms(2) by (simp add: session_ok_def)
  have s': "cs_conns ?s' = ?conns" "cs_ended ?s' = cs_ended s"
    "cs_writer ?s' = abort_previous (ct_previous (cs_task s)) midway (cs_conns s) (cs_writer s)"
    by (simp_all add: end_connection_def connect_done_def end_attempt_def)
  have conns: "?conns ! i \<in> {cs_conns s ! i, Killed}" "cs_conns s ! i = Closing \<longrightarrow> ?conns ! i \<in> {Closing, Killed}"
    "cs_conns s ! i = Killed \<longrightarrow> ?conns ! i = Killed" if "i < length (cs_conns s)" for i
    by (auto simp: close_previous_nth [OF that])
  have sender: "has_sender (pw_handles (cs_writer ?s') ! i) \<Longrightarrow> has_sender (pw_handles (cs_writer s) ! i)"
    and shut: "shut (wc_socket (pw_handles (cs_writer ?s') ! i)) \<Longrightarrow> shut (wc_socket (pw_handles (cs_writer s) ! i))"
    if "i < length (cs_conns s)" for i
    using abort_previous_sender [of i "cs_writer s"] shut_abort [of i "cs_writer s"] that len by (simp_all add: s'(3))
  have old: "i < length (cs_conns s)" "cs_conns s ! i \<noteq> Reading" if "(i, g) \<in> set (cs_ended s)" for i g
    using assms(1) that by (auto simp: ends_ok_def)
  show ?thesis unfolding ends_ok_def s'(1,2) length_close_previous
  proof (intro conjI allI impI)
    fix i g assume "(i, g) \<in> set (cs_ended s)"
    then show "i < length (cs_conns s)" "?conns ! i \<noteq> Reading" using old conns(1) by force+
  next
    fix i assume "i < length (cs_conns s)" "?conns ! i = Closing"
    then have "cs_conns s ! i = Closing" using conns(1) by force
    with assms(1) \<open>i < length (cs_conns s)\<close> show "(i, True) \<in> set (cs_ended s)" by (simp add: ends_ok_def)
  next
    fix i assume "i < length (cs_conns s)" "shut (wc_socket (pw_handles (cs_writer ?s') ! i))"
    with assms(1) shut show "Suc i < length (cs_conns s) \<or> (i, True) \<in> set (cs_ended s)" by (auto simp: ends_ok_def)
  next
    fix i assume e: "(i, True) \<in> set (cs_ended s)"
    then have "cs_conns s ! i \<in> {Closing, Killed} \<or> \<not> has_sender (pw_handles (cs_writer s) ! i)"
      using assms(1,3) by (auto simp: ends_ok_def)
    then show "?conns ! i \<in> {Closing, Killed} \<or> \<not> has_sender (pw_handles (cs_writer ?s') ! i) \<or>
        (\<exists>name k ttl. cs_phase ?s' = Replacing name k i ttl)"
      using conns(2,3) sender old(1) [OF e] by blast
  qed
qed

lemma ends_ok_finish_reading:
  assumes "ends_ok s" "senders_ok s" "h < length (cs_conns s)" "cs_conns s ! h = Reading"
  shows "ends_ok ((finish_reading h graceful s)\<lparr>cs_ended := cs_ended s @ [(h, graceful)]\<rparr>)"
proof -
  let ?current = "pw_current (cs_writer s) = Some h"
  define s' where "s' = (finish_reading h graceful s)\<lparr>cs_ended := cs_ended s @ [(h, graceful)]\<rparr>"
  have s': "cs_conns s' = (cs_conns s)[h := if ?current \<and> graceful then Closing else Finished]"
    "pw_handles (cs_writer s') = pw_handles (cs_writer s)" "cs_phase s' = cs_phase s"
    "cs_ended s' = cs_ended s @ [(h, graceful)]"
    by (simp_all add: s'_def finish_reading_def writer_close_matching_def)
  have new: "(h, g) \<notin> set (cs_ended s)" for g using assms(1,4) by (auto simp: ends_ok_def)
  have "\<not> ?current \<Longrightarrow> \<not> has_sender (pw_handles (cs_writer s) ! h) \<or> (\<exists>name k ttl. cs_phase s = Replacing name k h ttl)"
    using assms(2-4) by (auto simp: senders_ok_def)
  with assms(1,3) new have "ends_ok s'"
    unfolding ends_ok_def s' by (auto simp: nth_list_update split: if_splits)
  then show ?thesis by (simp add: s'_def)
qed

lemma ends_ok_establish:
  assumes "ends_ok s" "session_ok s" "cs_phase s = Connecting name"
  shows "ends_ok (establish name fd ttl s)"
proof -
  let ?s' = "establish name fd ttl s"
  let ?new = "new_connection name fd \<lparr>written = [], shut = False\<rparr>"
  note e = assms(1) [unfolded ends_ok_def]
  have len: "length (pw_handles (cs_writer s)) = length (cs_conns s)" using assms(2) by (simp add: session_ok_def)
  have s': "cs_ended ?s' = cs_ended s" "pw_handles (cs_writer ?s') = pw_handles (cs_writer s) @ [?new]"
    "cs_conns ?s' = cs_conns s @ [Reading]"
    by (simp_all add: establish_def writer_replace_def watch_def Let_def split: option.split)
  have old: "h < length (cs_conns s)" "cs_conns s ! h \<noteq> Reading" if "(h, g) \<in> set (cs_ended s)" for h g
    using e that by blast+
  have settled: "cs_conns s ! h \<noteq> Closing \<Longrightarrow> has_sender (pw_handles (cs_writer s) ! h) \<Longrightarrow> cs_conns s ! h = Killed"
    if "(h, True) \<in> set (cs_ended s)" for h
    using e that assms(3) by auto
  from e old show ?thesis unfolding ends_ok_def s'
    by (auto simp: nth_append len less_Suc_eq new_connection_def dest: settled)
qed

lemma ends_ok_closed:
  assumes "ends_ok s" "length (cs_conns s) = length (pw_handles (cs_writer s))" "h < length (cs_conns s)"
    "cs_conns s ! h = Closing"
  shows "ends_ok (s\<lparr>cs_writer := shutdown_locked h None io io' (cs_writer s), cs_conns := (cs_conns s)[h := Finished]\<rparr>)"
proof -
  let ?w = "shutdown_locked h None io io' (cs_writer s)"
  note e = assms(1) [unfolded ends_ok_def]
  have h: "(h, True) \<in> set (cs_ended s)" using e assms(3,4) by blast
  have sender: "has_sender (pw_handles ?w ! i) \<longleftrightarrow> i \<noteq> h \<and> has_sender (pw_handles (cs_writer s) ! i)"
    if "i < length (cs_conns s)" for i using that assms(2) shutdown_locked_sender by simp
  have shut: "i = h \<or> shut (wc_socket (pw_handles (cs_writer s) ! i))"
    if "i < length (cs_conns s)" "shut (wc_socket (pw_handles ?w ! i))" for i
    using that assms(2) shut_locked by simp
  have conns: "(cs_conns s)[h := Finished] ! i = (if i = h then Finished else cs_conns s ! i)" for i
    using assms(3) by simp
  have old: "i < length (cs_conns s)" "cs_conns s ! i \<noteq> Reading" if "(i, g) \<in> set (cs_ended s)" for i g
    using e that by blast+
  have "cs_conns s ! i \<in> {Closing, Killed} \<or> \<not> has_sender (pw_handles (cs_writer s) ! i) \<or>
      (\<exists>name k ttl. cs_phase s = Replacing name k i ttl)" if "(i, True) \<in> set (cs_ended s)" for i
    using e that by blast
  with old show ?thesis
    unfolding ends_ok_def using e h sender shut conns by (simp del: insert_iff) blast
qed

lemma ends_ok_step: "session_step s s' \<Longrightarrow> session_ok s \<Longrightarrow> senders_ok s \<Longrightarrow> ends_ok s \<Longrightarrow> ends_ok s'"
proof (induction rule: session_step.induct)
  case (established s name ttl fd)
  then show ?case
    by (intro ends_ok_establish)
next
  case (replaced s name h p ttl io io')
  then have "Suc p < length (cs_conns s)" "length (cs_conns s) = length (pw_handles (cs_writer s))"
    by (auto simp: session_ok_def)
  with replaced(4) show ?case
    by (elim ends_ok_writer) (auto simp: shutdown_locked_sender dest: shut_locked)
next
  case (shut s name h p ttl)
  then show ?case by (auto simp: ends_ok_def watch_def)
next
  case (ended s name h deadline midway)
  then show ?case by (intro ends_ok_end_connection)
next
  case (expired s name h deadline midway)
  then show ?case by (intro ends_ok_end_connection)
next
  case (reading_ends h s graceful)
  then show ?case by (intro ends_ok_finish_reading)
next
  case (closed h s io io')
  then have "length (cs_conns s) = length (pw_handles (cs_writer s))" by (simp add: session_ok_def)
  with closed show ?case by (intro ends_ok_closed)
next
  case (refused s e w)
  then show ?case by (elim ends_ok_writer) (auto simp: writer_current_def split: option.splits)
next
  case (sent h s packet io r w)
  then have "length (cs_conns s) = length (pw_handles (cs_writer s))" by (simp add: session_ok_def)
  with sent(5) show ?case
    by (elim ends_ok_writer) (auto dest: shut_send [OF _ sent(2)] send_locked_sender [OF sent(2)])
qed (auto simp: ends_ok_def begin_attempt_def end_attempt_def split: prod.splits)

lemma streams_reachable: "session_step\<^sup>*\<^sup>* (new_client_session name config st now) s \<Longrightarrow> streams_ok s \<and> ends_ok s"
proof (induction rule: rtranclp_induct)
  case base
  then show ?case by (simp add: streams_ok_def ends_ok_def new_client_session_def new_writer_def)
next
  case (step s s')
  then show ?case
    using streams_ok_step ends_ok_step session_ok_reachable senders_ok_reachable by blast
qed

section \<open>Properties\<close>

text \<open>C9: the connections of a client.  However attempts, expiries, readers and senders interleave, at
  most two connections are alive at a time, and at most one while the client is connecting or
  asleep; the one that the writer sends over is being read; and once the loop watches a new
  connection no packet can be written to the one before, although it may still be read.\<close>
theorem client_sessions:
  assumes "session_step\<^sup>*\<^sup>* (new_client_session name config st now) s"
  shows "card {h. h < length (cs_conns s) \<and> alive (cs_conns s ! h)} \<le> (if watched (cs_phase s) = None then 1 else 2) \<and>
    (\<forall>h. pw_current (cs_writer s) = Some h \<longrightarrow> h < length (cs_conns s) \<and> cs_conns s ! h = Reading) \<and>
    (\<forall>h deadline i. cs_phase s = Watching n h deadline \<and> i < h \<and> cs_conns s ! i = Reading \<longrightarrow>
       fst (send_locked i packet io (cs_writer s)) = Err ''Connection is closed'')"
proof -
  have ok: "session_ok s" and snd: "senders_ok s"
    by (rule session_ok_reachable [OF assms], rule senders_ok_reachable [OF assms])
  have "fst (send_locked i packet io (cs_writer s)) = Err ''Connection is closed''"
    if a: "cs_phase s = Watching n h deadline" "i < h" "cs_conns s ! i = Reading" for h deadline i
  proof -
    have "Suc h = length (cs_conns s)" "pw_current (cs_writer s) \<noteq> Some i"
      using ok a by (auto simp: session_ok_def)
    with snd a have "\<not> has_sender (pw_handles (cs_writer s) ! i)" by (auto simp: senders_ok_def)
    then show ?thesis by (simp add: send_locked_def connection_send_def)
  qed
  moreover have "pw_current (cs_writer s) = Some h \<longrightarrow> h < length (cs_conns s) \<and> cs_conns s ! h = Reading" for h
    using ok by (auto simp: session_ok_def)
  ultimately show ?thesis using session_ok_alive [OF ok] by blast
qed


text \<open>C26: the pace of a client.  In every run, the \<open>k\<close>-th attempt after the first begins no earlier than
  three seconds times \<open>k\<close> after the start, and any two are at least a second apart.\<close>
theorem session_pace:
  assumes "session_step\<^sup>*\<^sup>* (new_client_session name config st now) s" "k < length (cs_starts s)"
  shows "now + k * from_secs 3 \<le> cs_starts s ! k \<and>
    (Suc k < length (cs_starts s) \<longrightarrow> cs_starts s ! k + from_secs 1 \<le> cs_starts s ! Suc k)"
  using pace_ok_reachable [OF assms(1)] assms(2) by (simp add: pace_ok_def)

text \<open>The run of the witnesses: a connection expires, and another one replaces it.\<close>

definition demo_session_config :: client_config where
  "demo_session_config = \<lparr>cc_endpoint = ''h:443'', cc_domain = ''h'', cc_flags = FLAG_INGRESS, cc_secret = [],
     cc_min_ttl = from_secs 1, cc_max_ttl = Some (from_secs 2)\<rparr>"

definition demo_first :: client_session where
  "demo_first = establish ''c|#1'' 5 (Some (from_secs 1))
     (begin_attempt (new_client_session ''c'' demo_session_config (new_stat ''c'' ''c'') 0))"

definition demo_second :: client_session where
  "demo_second =
     (let s4 = end_connection ''c|#1'' 0 True False (demo_first\<lparr>cs_now := from_secs 4\<rparr>);
          s7 = establish ''c|#2'' 6 (Some (from_secs 1)) (begin_attempt (s4\<lparr>cs_now := from_secs 6\<rparr>))
      in watch ''c|#2'' 1 (Some (from_secs 1)) (s7\<lparr>cs_writer := shutdown_locked 0 None None None (cs_writer s7)\<rparr>))"

lemmas demo_session_defs = demo_first_def demo_second_def new_client_session_def new_client_task_def new_writer_def
  begin_attempt_def connect_begin_def establish_def writer_replace_def watch_def end_connection_def connect_done_def
  end_attempt_def connect_wait_def from_secs_def show_small show_small(2) [unfolded numeral_2_eq_2] Let_def

lemma demo_second_run: "session_step\<^sup>*\<^sup>* (new_client_session ''c'' demo_session_config (new_stat ''c'' ''c'') 0) demo_second"
proof -
  let ?s0 = "new_client_session ''c'' demo_session_config (new_stat ''c'' ''c'') 0"
  let ?s3 = "demo_first\<lparr>cs_now := from_secs 4\<rparr>"
  let ?s4 = "end_connection ''c|#1'' 0 True False ?s3"
  let ?s5 = "?s4\<lparr>cs_now := from_secs 6\<rparr>"
  let ?s7 = "establish ''c|#2'' 6 (Some (from_secs 1)) (begin_attempt ?s5)"
  let ?s8 = "?s7\<lparr>cs_writer := shutdown_locked 0 None None None (cs_writer ?s7)\<rparr>"
  have ttl: "ttl_ok demo_session_config (Some (from_secs 1))"
    by (simp add: ttl_ok_def demo_session_config_def)
  have "session_step ?s0 (begin_attempt ?s0)"
    by (rule session_step.begin_attempt) (simp_all add: demo_session_defs)
  moreover have "session_step (begin_attempt ?s0) demo_first"
    unfolding demo_first_def by (rule session_step.established) (use ttl in \<open>simp_all add: demo_session_defs\<close>)
  moreover have "session_step demo_first ?s3"
    using session_step.tick [of demo_first "from_secs 4"] by (simp add: demo_session_defs)
  moreover have "session_step ?s3 ?s4"
    by (rule session_step.expired [where deadline = "from_secs 1"]) (simp_all add: demo_session_defs)
  moreover have "session_step ?s4 ?s5"
    using session_step.tick [of ?s4 "from_secs 2"] by (simp add: demo_session_defs)
  moreover have "session_step ?s5 (begin_attempt ?s5)"
    by (rule session_step.begin_attempt) (simp_all add: demo_session_defs)
  moreover have "session_step (begin_attempt ?s5) ?s7"
    by (rule session_step.established) (use ttl in \<open>simp_all add: demo_session_defs\<close>)
  moreover have "session_step ?s7 ?s8"
    by (rule session_step.replaced [where ttl = "Some (from_secs 1)"]) (simp add: demo_session_defs)
  moreover have "session_step ?s8 demo_second"
    unfolding demo_second_def Let_def
    by (rule session_step.shut [where p = 0])
      (simp_all add: demo_session_defs shutdown_locked_def connection_shutdown_def new_connection_def)
  ultimately show ?thesis by (meson rtranclp.rtrancl_into_rtrancl rtranclp.rtrancl_refl)
qed

lemma demo_second_state:
  "cs_conns demo_second = [Reading, Reading]" "\<exists>d. cs_phase demo_second = Watching ''c|#2'' 1 d"
  "length (cs_starts demo_second) = 2"
  by (simp_all add: demo_session_defs)

lemma client_sessions_witness:
  "cs_conns demo_second ! 0 = Reading \<and>
   fst (send_locked 0 [69] None (cs_writer demo_second)) = Err ''Connection is closed''"
  using client_sessions [OF demo_second_run, of "''c|#2''" "[69]" None] demo_second_state by auto


lemma session_pace_witness:
  "length (cs_starts demo_second) = 2 \<and> from_secs 3 \<le> cs_starts demo_second ! 1"
  using session_pace [OF demo_second_run, of 1] demo_second_state(3) by simp

end
