(* ===== verification/ClientConnect.thy ===== *)
theory ClientConnect imports ClientTask Tcp begin

text \<open>
  One attempt of a client to connect: \<open>process_connect\<close> and \<open>process_handshake\<close> of
  \<open>src/src/transport/http/client/connection.rs\<close>, under the timeout of \<open>handle\<close>, and what it means for
  the loop of \<open>ClientTask\<close>.

  Connecting, the TLS handshake and the random lifetime are arguments: each gives a value or an
  error, or nothing ever.
\<close>

section \<open>The attempt\<close>

record connect_environment =
  ce_connect :: "(string, unit) outcome"
  ce_socket :: socket_answers
  ce_tls :: "(string, unit) outcome"
  ce_payload :: bytes
  ce_write :: "string option"
  ce_random_range :: "nat \<Rightarrow> nat \<Rightarrow> nat"

datatype connect_error =
    ConnectFailed string
  | ConnectSetup string
  | ConnectTls string
  | ConnectHandshake handshake_error
  | ConnectTimedOut

text \<open>The lifetime of the new connection; a range that is empty panics.\<close>

definition random_ttl :: "(nat \<Rightarrow> nat \<Rightarrow> nat) \<Rightarrow> client_config \<Rightarrow> ('e, duration option) outcome" where
  "random_ttl random_range c =
     (case cc_max_ttl c of
        None \<Rightarrow> Ok None
      | Some max_ttl \<Rightarrow> if cc_min_ttl c \<le> max_ttl then Ok (Some (random_range (cc_min_ttl c) max_ttl)) else Panic)"

definition process_connect ::
  "connect_environment \<Rightarrow> client_connection \<Rightarrow> socket \<Rightarrow> (connect_error, duration option) outcome \<times> socket" where
  "process_connect e c s =
     (case and_then (map_err ConnectFailed (ce_connect e)) (\<lambda>_.
           and_then (map_err ConnectSetup (pre_configure_hiddenlink_socket (ce_socket e))) (\<lambda>_.
             map_err ConnectTls (ce_tls e))) of
        Ok u \<Rightarrow>
          (case client_handshake (cc_secret (cl_config c)) (cc_flags (cl_config c)) (cl_name c) (ce_payload e)
                  (ce_write e) (error_of (post_configure_hiddenlink_socket (ce_socket e))) s of
             (r, s') \<Rightarrow>
               (and_then (map_err ConnectHandshake r) (\<lambda>_. random_ttl (ce_random_range e) (cl_config c)), s'))
      | Err err \<Rightarrow> (Err err, s)
      | Panic \<Rightarrow> (Panic, s)
      | Pending \<Rightarrow> (Pending, s))"

text \<open>\<open>in_time\<close> says whether an attempt that ends does so within \<open>CONNECTION_TIMEOUT\<close>.\<close>

definition connect_attempt ::
  "bool \<Rightarrow> connect_environment \<Rightarrow> client_connection \<Rightarrow> socket
    \<Rightarrow> (connect_error, duration option) outcome \<times> socket" where
  "connect_attempt in_time e c s =
     (case process_connect e c s of
        (Pending, s') \<Rightarrow> (Err ConnectTimedOut, s')
      | (Panic, s') \<Rightarrow> (Panic, s')
      | (r, s') \<Rightarrow> (if in_time then r else Err ConnectTimedOut, s'))"

text \<open>What an attempt does to the loop: the connection is established, or the attempt has ended.\<close>

definition finish_attempt ::
  "string \<Rightarrow> int \<Rightarrow> (connect_error, duration option) outcome \<Rightarrow> client_session \<Rightarrow> client_session" where
  "finish_attempt name fd r s = (case r of Ok ttl \<Rightarrow> establish name fd ttl s | _ \<Rightarrow> end_attempt s)"

section \<open>What the client accepts\<close>

lemma read_exact_cases:
  assumes "read_exact n s = (r, s')"
  obtains "n \<le> length (arriving s)" "r = Ok (take n (arriving s))" "arriving s' = drop n (arriving s)" "ending s' = ending s"
    | "length (arriving s) < n" "r \<noteq> Panic" "\<forall>bs. r \<noteq> Ok bs"
proof (cases "n \<le> length (arriving s)")
  case True
  with read_exact_enough [OF this] assms that(1) show ?thesis by auto
next
  case False
  then have "[] = [] \<and> length ([] :: bytes) + length (arriving s) < n" by simp
  then obtain s1 where "read_until socket_read n [] s = (exhausted (ending s), s1)"
    using sock.read_until_short [OF TrueI, of "[]" s n] by auto
  with assms have "r \<noteq> Panic" "\<forall>bs. r \<noteq> Ok bs" by (cases "ending s"; auto simp: read_exact_def)+
  with False that(2) show ?thesis by simp
qed

text \<open>The client never panics on a response, and what it accepts is one, up to the last byte.\<close>

lemma client_response_sound:
  assumes "client_response s = (r, s')"
  shows "r \<noteq> Panic" "r = Ok () \<Longrightarrow> \<exists>payload. length payload < 2 ^ 16 \<and>
    arriving s = server_response payload @ arriving s' \<and> ending s' = ending s"
proof -
  obtain r1 s1 where r1: "read_exact 2 s = (r1, s1)" by fastforce
  have both: "r \<noteq> Panic \<and> (r = Ok () \<longrightarrow> (\<exists>payload. length payload < 2 ^ 16 \<and>
    arriving s = server_response payload @ arriving s' \<and> ending s' = ending s))"
  proof (cases rule: read_exact_cases [OF r1])
    case 1
    let ?n = "from_be_bytes (take 2 (arriving s)) :: u16"
    let ?m = "unat ?n + length HEADER_SUFFIX"
    obtain r2 s2 where r2: "read_exact ?m s1 = (r2, s2)" by fastforce
    show ?thesis
    proof (cases rule: read_exact_cases [OF r2])
      case 11: 1
      let ?response = "take ?m (arriving s1)"
      let ?payload = "take (unat ?n) ?response"
      have len: "length ?response = ?m" using 11(1) by simp
      have r: "r = (if drop (unat ?n) ?response = HEADER_SUFFIX then Ok () else Err ProtocolViolation)" "s' = s2"
        using assms r1 1(2) r2 11(2) len by (auto simp: client_response_def)
      have "r = Ok () \<Longrightarrow> arriving s = server_response ?payload @ arriving s' \<and> length ?payload < 2 ^ 16"
      proof -
        assume "r = Ok ()"
        then have "?response = ?payload @ HEADER_SUFFIX"
          using r(1) append_take_drop_id [of "unat ?n" ?response] by (auto split: if_splits)
        then have "arriving s1 = ?payload @ HEADER_SUFFIX @ arriving s2"
          using 11(3) by (metis append_assoc append_take_drop_id)
        moreover have "arriving s = take 2 (arriving s) @ arriving s1" using 1(3) by simp
        moreover have "length ?payload = unat ?n" using len by simp
        moreover have "u16_to_be_bytes ?n = take 2 (arriving s)" using 1(1) by (intro u16_to_from_be_bytes) simp
        ultimately show ?thesis using r(2) unsigned_less [of ?n, where ?'a = nat]
          by (simp add: server_response_def)
      qed
      then have "r = Ok () \<longrightarrow> (\<exists>payload. length payload < 2 ^ 16 \<and> arriving s = server_response payload @ arriving s')"
        by blast
      then show ?thesis using r 1(4) 11(4) by simp
    next
      case 2
      then show ?thesis using assms r1 1(2) r2 by (cases r2) (auto simp: client_response_def)
    qed
  next
    case 2
    then show ?thesis using assms r1 by (cases r1) (auto simp: client_response_def)
  qed
  then show "r \<noteq> Panic" "r = Ok () \<Longrightarrow> \<exists>payload. length payload < 2 ^ 16 \<and>
    arriving s = server_response payload @ arriving s' \<and> ending s' = ending s" by auto
qed

section \<open>Properties\<close>

text \<open>What the environment must keep to: the range of the random lifetime, and no panic of the crates.\<close>

definition connect_env_ok :: "connect_environment \<Rightarrow> bool" where
  "connect_env_ok e \<longleftrightarrow> (\<forall>lo hi. lo \<le> hi \<longrightarrow> lo \<le> ce_random_range e lo hi \<and> ce_random_range e lo hi \<le> hi) \<and>
     ce_connect e \<noteq> Panic \<and> ce_tls e \<noteq> Panic"

lemma random_ttl_ok:
  assumes "\<forall>t. cc_max_ttl c = Some t \<longrightarrow> cc_min_ttl c \<le> t" "connect_env_ok e"
  shows "\<exists>ttl. random_ttl (ce_random_range e) c = Ok ttl \<and> ttl_ok c ttl"
  using assms by (auto simp: random_ttl_def ttl_ok_def connect_env_ok_def split: option.splits)

lemma client_handshake_sound:
  assumes "client_handshake secret flags name req io opt s = (r, s')"
  shows "r \<noteq> Panic \<and> (r = Ok () \<longrightarrow> io = None \<and> opt = None \<and> (\<exists>request. client_request secret flags name req = Ok request) \<and>
    (\<exists>payload. length payload < 2 ^ 16 \<and> arriving s = server_response payload @ arriving s' \<and> ending s' = ending s))"
proof -
  obtain q s1 where q: "client_response s = (q, s1)" by fastforce
  note sound = client_response_sound [OF q]
  show ?thesis
  proof (cases "client_request secret flags name req")
    case (Ok request)
    then show ?thesis
      using assms q sound by (cases q) (auto simp: client_handshake_def split: option.splits)
  qed (use assms in \<open>auto simp: client_handshake_def client_request_def split: if_splits\<close>)
qed

lemma process_connect_sound:
  assumes "connect_env_ok e" "\<forall>t. cc_max_ttl (cl_config c) = Some t \<longrightarrow> cc_min_ttl (cl_config c) \<le> t"
    "process_connect e c s = (r, s')"
  shows "r \<noteq> Panic" "r = Ok ttl \<Longrightarrow> ttl_ok (cl_config c) ttl \<and>
    (\<exists>payload. length payload < 2 ^ 16 \<and> arriving s = server_response payload @ arriving s' \<and> ending s' = ending s)"
proof -
  obtain q s1 where q: "client_handshake (cc_secret (cl_config c)) (cc_flags (cl_config c)) (cl_name c) (ce_payload e)
      (ce_write e) (error_of (post_configure_hiddenlink_socket (ce_socket e))) s = (q, s1)" by fastforce
  note hs = client_handshake_sound [OF q]
  obtain t where t: "random_ttl (ce_random_range e) (cl_config c) = (Ok t :: (connect_error, duration option) outcome)"
    "ttl_ok (cl_config c) t"
    using random_ttl_ok [OF assms(2,1)] by blast
  let ?pre = "and_then (map_err ConnectFailed (ce_connect e)) (\<lambda>_.
    and_then (map_err ConnectSetup (pre_configure_hiddenlink_socket (ce_socket e))) (\<lambda>_. map_err ConnectTls (ce_tls e)))"
  have pre: "?pre \<noteq> Panic"
    using assms(1) socket_options_settled(3) [of "ce_socket e", unfolded settled_def]
    by (auto simp: connect_env_ok_def outcome_simps)
  have "r \<noteq> Panic \<and> (r = Ok ttl \<longrightarrow> q = Ok () \<and> ttl = t \<and> s' = s1)"
    using assms(3) pre q t(1) hs by (cases ?pre; cases q) (auto simp: process_connect_def)
  with hs t(2) show "r \<noteq> Panic" "r = Ok ttl \<Longrightarrow> ttl_ok (cl_config c) ttl \<and>
    (\<exists>payload. length payload < 2 ^ 16 \<and> arriving s = server_response payload @ arriving s' \<and> ending s' = ending s)"
    by auto
qed

text \<open>C12: an attempt to connect.  With a sound range of lifetimes each attempt ends, with a value or an
  error, whatever the server does and however long it is silent, and never panics.  When it succeeds
  the lifetime is in the range, and what the server has sent is a response of the protocol and the
  bytes of packets behind it, all of which are left to be read; it does succeed when the server
  sends a response in time and nothing fails.  Either way the loop of the client takes a step.\<close>
theorem connect_attempt_ends:
  assumes "connect_env_ok e" "\<forall>t. cc_max_ttl (cl_config c) = Some t \<longrightarrow> cc_min_ttl (cl_config c) \<le> t"
    "cs_phase session = Connecting name" "cs_config session = cl_config c"
    "connect_attempt in_time e c s = (r, s')"
  shows "settled r \<and> session_step session (finish_attempt name fd r session) \<and>
    (\<forall>ttl. r = Ok ttl \<longrightarrow> ttl_ok (cl_config c) ttl \<and>
       (\<exists>payload. length payload < 2 ^ 16 \<and> arriving s = server_response payload @ arriving s' \<and> ending s' = ending s)) \<and>
    (\<forall>resp down. in_time \<and> ce_connect e = Ok () \<and> ce_tls e = Ok () \<and> socket_fine (ce_socket e) \<and> ce_write e = None \<and>
       length (cl_name c) < 256 \<and> length resp < 2 ^ 16 \<and> arriving s = server_response resp @ down \<longrightarrow>
       is_ok r \<and> arriving s' = down)"
proof (intro conjI allI impI)
  obtain q s1 where q: "process_connect e c s = (q, s1)" by fastforce
  note sound = process_connect_sound [OF assms(1,2) q]
  show settled: "settled r" using assms(5) q sound(1) by (cases q) (auto simp: connect_attempt_def)
  have ok: "r = Ok ttl \<Longrightarrow> q = Ok ttl \<and> s' = s1" for ttl
    using assms(5) q by (cases q) (auto simp: connect_attempt_def split: if_splits)
  show "session_step session (finish_attempt name fd r session)"
    using settled ok sound(2) assms(3,4)
    by (cases r) (auto simp: finish_attempt_def intro: session_step.established session_step.attempt_failed)
  show "ttl_ok (cl_config c) ttl" "\<exists>payload. length payload < 2 ^ 16 \<and> arriving s = server_response payload @ arriving s' \<and> ending s' = ending s"
    if "r = Ok ttl" for ttl
    using that ok sound(2) by auto
  fix resp down
  assume a: "in_time \<and> ce_connect e = Ok () \<and> ce_tls e = Ok () \<and> socket_fine (ce_socket e) \<and> ce_write e = None \<and>
       length (cl_name c) < 256 \<and> length resp < 2 ^ 16 \<and> arriving s = server_response resp @ down"
  then obtain s2 where "client_response s = (Ok (), s2)" "arriving s2 = down"
    using client_response_ok [of resp s down] by auto
  moreover obtain t where "random_ttl (ce_random_range e) (cl_config c) = (Ok t :: (connect_error, duration option) outcome)"
    using random_ttl_ok [OF assms(2,1)] by blast
  ultimately have "r = Ok t \<and> s' = s2"
    using a assms(5) by (auto simp: connect_attempt_def process_connect_def client_handshake_def client_request_def socket_fine_ok)
  with \<open>arriving s2 = down\<close> show "is_ok r" "arriving s' = down" by simp_all
qed

definition demo_connect :: connect_environment where
  "demo_connect = \<lparr>ce_connect = Ok (),
     ce_socket = \<lparr>user_timeout_result = None, keep_alive_result = None, congestion_answer = CongestionSet, nodelay_result = None\<rparr>,
     ce_tls = Ok (), ce_payload = replicate 100 97, ce_write = None, ce_random_range = (\<lambda>lo hi. lo)\<rparr>"

lemma connect_attempt_ends_witness:
  "\<exists>ttl s'. connect_attempt True demo_connect (new_client_connection ''c'' demo_session_config (new_stat ''c'' ''c''))
      [Recv (server_response (replicate 70 97) @ [70])] = (Ok ttl, s') \<and> arriving s' = [70] \<and>
     ttl_ok demo_session_config ttl"
proof -
  let ?c = "new_client_connection ''c'' demo_session_config (new_stat ''c'' ''c'')"
  let ?session = "begin_attempt (new_client_session ''c'' demo_session_config (new_stat ''c'' ''c'') 0)"
  let ?s = "[Recv (server_response (replicate 70 97) @ [70])]"
  have c: "cl_config ?c = demo_session_config" "cl_name ?c = ''c''" by (simp_all add: new_client_connection_def)
  have "connect_env_ok demo_connect" by (simp add: connect_env_ok_def demo_connect_def)
  moreover have "\<forall>t. cc_max_ttl (cl_config ?c) = Some t \<longrightarrow> cc_min_ttl (cl_config ?c) \<le> t"
    unfolding c by (simp add: demo_session_config_def from_secs_def)
  moreover have "cs_phase ?session = Connecting ''c|#1''" "cs_config ?session = cl_config ?c"
    by (simp_all add: demo_session_defs c)
  moreover obtain r s' where r: "connect_attempt True demo_connect ?c ?s = (r, s')" by fastforce
  ultimately have ends: "settled r \<and> session_step ?session (finish_attempt ''c|#1'' 5 r ?session) \<and>
    (\<forall>ttl. r = Ok ttl \<longrightarrow> ttl_ok (cl_config ?c) ttl \<and>
       (\<exists>payload. length payload < 2 ^ 16 \<and> arriving ?s = server_response payload @ arriving s' \<and> ending s' = ending ?s)) \<and>
    (\<forall>resp down. True \<and> ce_connect demo_connect = Ok () \<and> ce_tls demo_connect = Ok () \<and>
       socket_fine (ce_socket demo_connect) \<and> ce_write demo_connect = None \<and>
       length (cl_name ?c) < 256 \<and> length resp < 2 ^ 16 \<and> arriving ?s = server_response resp @ down \<longrightarrow>
       is_ok r \<and> arriving s' = down)"
    by (rule connect_attempt_ends)
  have "arriving ?s = server_response (replicate 70 97) @ [70]" "socket_fine (ce_socket demo_connect)"
    "ce_connect demo_connect = Ok ()" "ce_tls demo_connect = Ok ()" "ce_write demo_connect = None"
    "length (replicate 70 (97 :: u8)) < 2 ^ 16"
    by (simp_all add: demo_connect_def socket_fine_def)
  moreover have "length (cl_name ?c) < 256" by (simp add: c)
  ultimately have "is_ok r \<and> arriving s' = [70]" using ends by blast
  with ends r c show ?thesis by (cases r) auto
qed

end
