(* ===== verification/CrawlLinks.thy ===== *)
theory CrawlLinks imports Prelude "HOL-Library.AList" begin

text \<open>
  Which links of a page the crawler follows: \<open>src/src/crawler/util.rs\<close>, \<open>src/src/crawler/html.rs\<close>
  and the data of \<open>src/src/crawler/sitemap.rs\<close>.

  URLs are the \<open>url\<close> crate's: an arbitrary type with the operations of \<open>url_ops\<close>.  Parsing HTML and
  XML is other crates' too: a page is given by the elements it contains, with their attributes.
  The hash map of the resources found is an association list, in some order.
\<close>

section \<open>URLs\<close>

record 'u url_ops =
  make_relative :: "'u \<Rightarrow> 'u \<Rightarrow> string option"
  resolve :: "'u \<Rightarrow> string \<Rightarrow> 'u option"
  drop_fragment :: "'u \<Rightarrow> 'u"

definition first_segment :: "string \<Rightarrow> string" where
  "first_segment relative = takeWhile (\<lambda>c. c \<noteq> CHR ''/'' \<and> c \<noteq> CHR ''?'' \<and> c \<noteq> CHR ''#'') relative"

definition validate_url_base :: "'u url_ops \<Rightarrow> 'u \<Rightarrow> 'u \<Rightarrow> string option" where
  "validate_url_base U base url =
     (case make_relative U base url of
        Some relative \<Rightarrow> if first_segment relative \<noteq> ''..'' then Some relative else None
      | None \<Rightarrow> None)"

section \<open>Sources of a link\<close>

datatype resource_source = SourceImage | SourceLink | SourceOther

text \<open>The order of the variants is the priority of a source, by the derived \<open>PartialOrd\<close>.\<close>

fun source_rank :: "resource_source \<Rightarrow> nat" where
  "source_rank SourceImage = 0"
| "source_rank SourceLink = 1"
| "source_rank SourceOther = 2"

instantiation resource_source :: linorder
begin

definition less_eq_resource_source :: "resource_source \<Rightarrow> resource_source \<Rightarrow> bool" where
  "less_eq_resource_source a b \<longleftrightarrow> source_rank a \<le> source_rank b"

definition less_resource_source :: "resource_source \<Rightarrow> resource_source \<Rightarrow> bool" where
  "less_resource_source a b \<longleftrightarrow> source_rank a < source_rank b"

lemma source_rank_inj: "source_rank a = source_rank b \<Longrightarrow> a = b"
  by (cases a; cases b) simp_all

instance
  by intro_classes
    (auto simp: less_eq_resource_source_def less_resource_source_def intro: source_rank_inj)

end

definition link_source :: "string \<Rightarrow> string \<Rightarrow> resource_source" where
  "link_source element attribute =
     (if element = ''a'' \<and> attribute = ''href'' then SourceLink
      else if element = ''img'' \<and> attribute = ''src'' then SourceImage
      else SourceOther)"

section \<open>Finding resources\<close>

type_synonym html_element = "string \<times> (string \<Rightarrow> string option)"
type_synonym 'u resources = "('u \<times> resource_source) list"

definition HTML_SIZE_LIMIT :: nat where "HTML_SIZE_LIMIT = 1024 * 1024"

definition parse_resource_link :: "'u url_ops \<Rightarrow> 'u \<Rightarrow> string \<Rightarrow> 'u option \<Rightarrow> 'u option" where
  "parse_resource_link U base link filter_url =
     (if link = [] then None
      else case resolve U base link of
          None \<Rightarrow> None
        | Some url \<Rightarrow>
            (case filter_url of
               Some f \<Rightarrow> if validate_url_base U f url = None then None else Some (drop_fragment U url)
             | None \<Rightarrow> Some (drop_fragment U url)))"

definition note_resource :: "'u \<Rightarrow> resource_source \<Rightarrow> 'u resources \<Rightarrow> 'u resources" where
  "note_resource url source found =
     (case map_of found url of
        Some result \<Rightarrow> if source < result then AList.update url source found else found
      | None \<Rightarrow> AList.update url source found)"

definition visit_attribute ::
  "'u url_ops \<Rightarrow> 'u \<Rightarrow> 'u \<Rightarrow> html_element \<Rightarrow> string \<Rightarrow> 'u resources \<Rightarrow> 'u resources" where
  "visit_attribute U page_url filter_url element attribute found =
     (case snd element attribute of
        Some link \<Rightarrow>
          if link = [] then found
          else (case parse_resource_link U page_url link (Some filter_url) of
              Some url \<Rightarrow>
                if url \<noteq> page_url then note_resource url (link_source (fst element) attribute) found else found
            | None \<Rightarrow> found)
      | None \<Rightarrow> found)"

definition find_resources :: "'u url_ops \<Rightarrow> 'u \<Rightarrow> html_element list \<Rightarrow> 'u \<Rightarrow> 'u resources" where
  "find_resources U page_url elements filter_url =
     fold (\<lambda>element. fold (visit_attribute U page_url filter_url element) [''href'', ''src'']) elements []"

section \<open>Sitemaps\<close>

datatype 'u sitemap = UrlSet "'u list" | Index "'u list"

definition SITEMAP_SIZE_LIMIT :: nat where "SITEMAP_SIZE_LIMIT = 50 * 1024 * 1024"

section \<open>What is found\<close>

text \<open>The specification: every link of a page that is to be followed, with its source.\<close>

definition attribute_links :: "'u url_ops \<Rightarrow> 'u \<Rightarrow> 'u \<Rightarrow> html_element \<Rightarrow> string \<Rightarrow> ('u \<times> resource_source) set" where
  "attribute_links U page_url filter_url element attribute =
     {(url, link_source (fst element) attribute) | url link.
        snd element attribute = Some link \<and> parse_resource_link U page_url link (Some filter_url) = Some url \<and>
        url \<noteq> page_url}"

lemma attribute_links_eval:
  "attribute_links U page f element attribute =
     (case Option.bind (snd element attribute) (\<lambda>link. parse_resource_link U page link (Some f)) of
        Some url \<Rightarrow> if url = page then {} else {(url, link_source (fst element) attribute)}
      | None \<Rightarrow> {})"
  by (auto simp: attribute_links_def split: option.splits bind_splits)

definition page_links :: "'u url_ops \<Rightarrow> 'u \<Rightarrow> html_element list \<Rightarrow> 'u \<Rightarrow> ('u \<times> resource_source) set" where
  "page_links U page_url elements filter_url =
     (\<Union>element \<in> set elements. \<Union>attribute \<in> {''href'', ''src''}.
        attribute_links U page_url filter_url element attribute)"

text \<open>The list \<open>found\<close> holds each URL of \<open>L\<close> once, with the best of its sources.\<close>

definition best_of :: "('u \<times> resource_source) set \<Rightarrow> 'u resources \<Rightarrow> bool" where
  "best_of L found \<longleftrightarrow> distinct (map fst found) \<and>
     (\<forall>url source. (url, source) \<in> set found \<longleftrightarrow> (url, source) \<in> L \<and> (\<forall>s. (url, s) \<in> L \<longrightarrow> source \<le> s))"

lemma best_of_empty: "best_of {} []"
  by (simp add: best_of_def)

lemma best_of_map_of:
  "best_of L found \<longleftrightarrow> distinct (map fst found) \<and>
     (\<forall>url source. map_of found url = Some source \<longleftrightarrow> (url, source) \<in> L \<and> (\<forall>s. (url, s) \<in> L \<longrightarrow> source \<le> s))"
  by (auto simp: best_of_def)

lemma source_le_cases: "SourceImage \<le> s" "s \<le> SourceOther" "SourceLink \<le> s \<longleftrightarrow> s \<noteq> SourceImage"
  by (cases s; simp add: less_eq_resource_source_def)+

lemma least_source:
  assumes "(u, r :: resource_source) \<in> L"
  shows "\<exists>m. (u, m) \<in> L \<and> (\<forall>s. (u, s) \<in> L \<longrightarrow> m \<le> s)"
proof -
  consider "(u, SourceImage) \<in> L" | "(u, SourceImage) \<notin> L" "(u, SourceLink) \<in> L"
    | "(u, SourceImage) \<notin> L" "(u, SourceLink) \<notin> L" by blast
  then show ?thesis
  proof cases
    case 3
    then have "s = SourceOther" if "(u, s) \<in> L" for s using that by (cases s) auto
    with assms show ?thesis by auto
  qed (use source_le_cases in blast)+
qed

lemma best_of_None: "best_of L found \<Longrightarrow> map_of found u = None \<Longrightarrow> (u, r) \<notin> L"
  by (metis best_of_map_of least_source not_None_eq option.distinct(1))

lemma best_of_insert:
  assumes "best_of L found"
  shows "best_of (insert (u, r) L) (note_resource u r found)"
proof -
  have d: "distinct (map fst (note_resource u r found))"
    using assms by (auto simp: best_of_def note_resource_def distinct_update split: option.splits)
  have L: "map_of found v = Some m \<longleftrightarrow> (v, m) \<in> L \<and> (\<forall>s. (v, s) \<in> L \<longrightarrow> m \<le> s)" for v m
    using assms by (simp add: best_of_map_of)
  have "map_of (note_resource u r found) v = Some m \<longleftrightarrow>
      (v, m) \<in> insert (u, r) L \<and> (\<forall>s. (v, s) \<in> insert (u, r) L \<longrightarrow> m \<le> s)" for v m
  proof (cases "v = u")
    case True
    show ?thesis
    proof (cases "map_of found u")
      case None
      with best_of_None [OF assms] True show ?thesis by (auto simp: note_resource_def update_conv')
    next
      case (Some q)
      with L [of u q] True show ?thesis
        by (auto simp: note_resource_def update_conv' not_less dest: order.strict_trans2 intro: order.trans antisym less_imp_le)
    qed
  qed (use L in \<open>auto simp: note_resource_def update_conv' split: option.splits\<close>)
  with d show ?thesis by (simp add: best_of_map_of)
qed

lemma best_of_visit:
  assumes "best_of L found"
  shows "best_of (L \<union> attribute_links U page f element attribute) (visit_attribute U page f element attribute found)"
proof (cases "attribute_links U page f element attribute = {}")
  case True
  then have "visit_attribute U page f element attribute found = found"
    by (auto simp: visit_attribute_def attribute_links_def split: option.splits)
  with True assms show ?thesis by simp
next
  case False
  then obtain url link where l: "snd element attribute = Some link"
    "parse_resource_link U page link (Some f) = Some url" "url \<noteq> page"
    by (auto simp: attribute_links_def)
  then have "visit_attribute U page f element attribute found
      = note_resource url (link_source (fst element) attribute) found"
    by (auto simp: visit_attribute_def parse_resource_link_def split: if_splits)
  moreover have "attribute_links U page f element attribute = {(url, link_source (fst element) attribute)}"
    using l by (auto simp: attribute_links_def)
  ultimately show ?thesis using best_of_insert [OF assms] by simp
qed

lemma best_of_elements:
  "best_of L found \<Longrightarrow> best_of (L \<union> page_links U page elements f)
     (fold (\<lambda>element. fold (visit_attribute U page f element) [''href'', ''src'']) elements found)"
proof (induction elements arbitrary: L found)
  case Nil
  then show ?case by (simp add: page_links_def)
next
  case (Cons element elements)
  have "L \<union> page_links U page (element # elements) f =
      L \<union> attribute_links U page f element ''href'' \<union> attribute_links U page f element ''src'' \<union>
      page_links U page elements f"
    by (auto simp: page_links_def)
  with Cons.IH [OF best_of_visit [OF best_of_visit [OF Cons.prems]]] show ?case by simp
qed

lemma find_resources_best: "best_of (page_links U page elements f) (find_resources U page elements f)"
  using best_of_elements [OF best_of_empty] by (simp add: find_resources_def)

text \<open>The specification, from the attributes alone.  A reference \<open>r\<close> climbs above the base if its first
  segment is \<open>..\<close>; a link leads to a URL if it is not empty and resolves to a target within the base
  that is this URL but for the fragment, and another one than the page itself.\<close>

definition climbs :: "string \<Rightarrow> bool" where
  "climbs r \<longleftrightarrow> r = ''..'' \<or> (\<exists>c rest. r = ''..'' @ c # rest \<and> c \<in> {CHR ''/'', CHR ''?'', CHR ''#''})"

definition within :: "'u url_ops \<Rightarrow> 'u \<Rightarrow> 'u \<Rightarrow> bool" where
  "within U base url \<longleftrightarrow> (\<exists>r. make_relative U base url = Some r \<and> \<not> climbs r)"

definition leads :: "'u url_ops \<Rightarrow> 'u \<Rightarrow> 'u \<Rightarrow> string \<Rightarrow> 'u \<Rightarrow> bool" where
  "leads U page base link url \<longleftrightarrow> link \<noteq> [] \<and> url \<noteq> page \<and>
     (\<exists>target. resolve U page link = Some target \<and> within U base target \<and> url = drop_fragment U target)"

definition mentions ::
  "'u url_ops \<Rightarrow> 'u \<Rightarrow> 'u \<Rightarrow> html_element list \<Rightarrow> string \<Rightarrow> string \<Rightarrow> 'u \<Rightarrow> bool" where
  "mentions U page base elements name attribute url \<longleftrightarrow>
     (\<exists>attributes link. (name, attributes) \<in> set elements \<and> attributes attribute = Some link \<and> leads U page base link url)"

fun refers :: "'u url_ops \<Rightarrow> 'u \<Rightarrow> 'u \<Rightarrow> html_element list \<Rightarrow> resource_source \<Rightarrow> 'u \<Rightarrow> bool" where
  "refers U page base elements SourceImage url \<longleftrightarrow> mentions U page base elements ''img'' ''src'' url"
| "refers U page base elements SourceLink url \<longleftrightarrow> mentions U page base elements ''a'' ''href'' url"
| "refers U page base elements SourceOther url \<longleftrightarrow>
     (\<exists>name attribute. attribute \<in> {''href'', ''src''} \<and> mentions U page base elements name attribute url \<and>
        (name, attribute) \<noteq> (''img'', ''src'') \<and> (name, attribute) \<noteq> (''a'', ''href''))"

lemma climbs_iff: "first_segment r = ''..'' \<longleftrightarrow> climbs r"
proof
  let ?P = "\<lambda>c. c \<noteq> CHR ''/'' \<and> c \<noteq> CHR ''?'' \<and> c \<noteq> CHR ''#''"
  assume f: "first_segment r = ''..''"
  then have r: "r = ''..'' @ dropWhile ?P r"
    using takeWhile_dropWhile_id [of ?P r] by (simp add: first_segment_def)
  then show "climbs r"
  proof (cases "dropWhile ?P r")
    case (Cons c rest)
    with r have "r = ''..'' @ c # rest" "c \<in> {CHR ''/'', CHR ''?'', CHR ''#''}"
      using hd_dropWhile [of ?P r] by auto
    then show ?thesis unfolding climbs_def by blast
  qed (simp add: climbs_def)
qed (auto simp: climbs_def first_segment_def)

lemma validate_url_base_within: "validate_url_base U base url = None \<longleftrightarrow> \<not> within U base url"
  by (auto simp: validate_url_base_def within_def climbs_iff split: option.splits)

lemma parse_resource_link_leads:
  "parse_resource_link U page link (Some base) = Some url \<and> url \<noteq> page \<longleftrightarrow> leads U page base link url"
  by (cases "resolve U page link") (auto simp: parse_resource_link_def leads_def validate_url_base_within)

lemma attribute_links_leads:
  "(url, source) \<in> attribute_links U page base element attribute \<longleftrightarrow> source = link_source (fst element) attribute \<and>
     (\<exists>link. snd element attribute = Some link \<and> leads U page base link url)"
  by (auto simp: attribute_links_def simp flip: parse_resource_link_leads)

lemma page_links_mentions:
  "(url, source) \<in> page_links U page elements base \<longleftrightarrow>
     (\<exists>name attribute. attribute \<in> {''href'', ''src''} \<and> mentions U page base elements name attribute url \<and>
        source = link_source name attribute)"
proof -
  have "(url, source) \<in> (\<Union>element \<in> set elements. \<Union>attribute \<in> A. attribute_links U page base element attribute) \<longleftrightarrow>
      (\<exists>name attribute. attribute \<in> A \<and> mentions U page base elements name attribute url \<and>
         source = link_source name attribute)" for A
    unfolding UN_iff attribute_links_leads mentions_def by (metis fst_conv snd_conv surj_pair)
  then show ?thesis unfolding page_links_def .
qed

lemma link_source_eq:
  "SourceImage = link_source name attribute \<longleftrightarrow> name = ''img'' \<and> attribute = ''src''"
  "SourceLink = link_source name attribute \<longleftrightarrow> name = ''a'' \<and> attribute = ''href''"
  "SourceOther = link_source name attribute \<longleftrightarrow> (name, attribute) \<noteq> (''img'', ''src'') \<and> (name, attribute) \<noteq> (''a'', ''href'')"
  by (auto simp: link_source_def)

lemma page_links_refers: "(url, source) \<in> page_links U page elements base \<longleftrightarrow> refers U page base elements source url"
  unfolding page_links_mentions by (cases source) (simp only: link_source_eq refers.simps insert_iff empty_iff; blast)+

text \<open>The source by which a resource is taken: an image before a link before anything else.\<close>

definition resource_of :: "'u url_ops \<Rightarrow> 'u \<Rightarrow> 'u \<Rightarrow> html_element list \<Rightarrow> 'u \<Rightarrow> resource_source option" where
  "resource_of U page base elements url =
     (if refers U page base elements SourceImage url then Some SourceImage
      else if refers U page base elements SourceLink url then Some SourceLink
      else if refers U page base elements SourceOther url then Some SourceOther
      else None)"

lemma best_source:
  "r source \<and> (\<forall>s. r s \<longrightarrow> source \<le> s) \<longleftrightarrow>
     (if r SourceImage then Some SourceImage else if r SourceLink then Some SourceLink
      else if r SourceOther then Some SourceOther else None) = Some source"
proof -
  have all: "(\<forall>s. P s) \<longleftrightarrow> P SourceImage \<and> P SourceLink \<and> P SourceOther" for P
    by (metis resource_source.exhaust)
  show ?thesis unfolding all by (cases source) (simp_all add: less_eq_resource_source_def)
qed

lemma resource_of_found:
  "(url, source) \<in> set (find_resources U page elements base) \<longleftrightarrow> resource_of U page base elements url = Some source"
proof -
  have "(url, source) \<in> set (find_resources U page elements base) \<longleftrightarrow> (url, source) \<in> page_links U page elements base \<and>
      (\<forall>s. (url, s) \<in> page_links U page elements base \<longrightarrow> source \<le> s)"
    using find_resources_best [of U page elements base] unfolding best_of_def by blast
  then show ?thesis
    unfolding page_links_refers best_source [of "\<lambda>s. refers U page base elements s url"] resource_of_def .
qed

text \<open>C25: the links of a page.  The crawler takes each resource of a page once; these are exactly the
  URLs that the \<open>href\<close> and \<open>src\<close> attributes of its elements lead to: not empty, within the base, without a
  fragment, not the page itself.  One that an image shows is taken as an image; one that is not, but
  that an anchor links to, as a link; and any other as something else.\<close>
theorem find_resources_exact:
  "distinct (map fst (find_resources U page elements base)) \<and>
   (\<forall>url source. (url, source) \<in> set (find_resources U page elements base) \<longleftrightarrow>
      resource_of U page base elements url = Some source)"
  using find_resources_best [of U page elements base] by (simp add: best_of_def resource_of_found)

definition demo_urls :: "string url_ops" where
  "demo_urls = \<lparr>make_relative = (\<lambda>base url. Some url), resolve = (\<lambda>base link. Some link), drop_fragment = (\<lambda>url. url)\<rparr>"

lemma find_resources_exact_witness:
  "(''b'', SourceImage) \<in> set (find_resources demo_urls ''a''
     [(''a'', [''href'' \<mapsto> ''b'']), (''img'', [''src'' \<mapsto> ''b'']), (''a'', [''href'' \<mapsto> ''a''])] ''c'')"
proof -
  have "leads demo_urls ''a'' ''c'' ''b'' ''b''"
    by (simp add: leads_def within_def climbs_def demo_urls_def)
  then have "resource_of demo_urls ''a'' ''c''
      [(''a'', [''href'' \<mapsto> ''b'']), (''img'', [''src'' \<mapsto> ''b'']), (''a'', [''href'' \<mapsto> ''a''])] ''b'' = Some SourceImage"
    by (auto simp: resource_of_def mentions_def)
  then show ?thesis by (simp add: find_resources_exact)
qed

end
