(* ===== verification/Crawler.thy ===== *)
theory Crawler imports CrawlLinks Net begin

text \<open>
  The crawler (\<open>src/src/crawler/mod.rs\<close>, \<open>src/src/crawler/resources.rs\<close>, the HTTP client of
  \<open>src/src/crawler/client.rs\<close>, the counters of \<open>src/src/crawler/metrics.rs\<close>): it fetches the pages
  of the peer's web server, so that the tunnel's connections are not the only ones.

  What the crates and the random numbers give in one round is a \<open>world\<close>: the URL operations, the
  shuffled order of a sitemap, the order in which a hash map is iterated, which entries the cache
  (crate \<open>mini-moka\<close>) still holds, parsers, the capacity drawn for a new client, whether one can be
  built.  The answer to a request is an argument too: an error, or a response with a body that
  arrives in chunks.
\<close>

section \<open>State\<close>

datatype delay = DelayCrawl | DelayPage

datatype 'u resource = Sitemap 'u | Page | Asset | UnknownResource

datatype resource_type = TypePage | TypeAsset

record 'u crawl_task =
  task_url :: 'u
  task_delay :: "delay option"
  task_resource :: "'u resource"

record limited_client =
  lc_capacity :: "nat option"
  lc_used :: nat

record crawler_metrics =
  new_connections_count :: u64
  active_connections :: int
  request_times :: u64
  crawl_errors :: u64

definition new_metrics :: crawler_metrics where
  "new_metrics = \<lparr>new_connections_count = 0, active_connections = 0, request_times = 0, crawl_errors = 0\<rparr>"

record crawler_config =
  crawl_domain :: string
  sitemap_path :: string
  max_period :: duration
  max_delay :: duration
  max_client_capacity :: "nat option"

record 'u crawler =
  crawl_base :: 'u
  crawl_sitemap :: 'u
  crawl_config :: crawler_config
  crawl_queue :: "'u crawl_task list"
  crawled_resources :: "string set"
  resource_type_cache :: "string \<Rightarrow> resource_type option"
  cache_time_to_idle :: duration
  crawl_client :: "limited_client option"
  crawl_metrics :: crawler_metrics

definition MAX_RESOURCES_PER_ITERATION :: nat where "MAX_RESOURCES_PER_ITERATION = 1000"
definition ASSET_SIZE_LIMIT :: nat where "ASSET_SIZE_LIMIT = 1024 * 1024"

record 'u world =
  w_urls :: "'u url_ops"
  w_shuffle :: "'u list \<Rightarrow> 'u list"
  w_order :: "'u resources \<Rightarrow> 'u resources"
  w_keep :: "string \<Rightarrow> bool"
  w_parse_sitemap :: "bytes \<Rightarrow> string + 'u sitemap"
  w_elements :: "bytes \<Rightarrow> html_element list"
  w_header_text :: "bytes \<Rightarrow> string option"
  w_parse_mime :: "string \<Rightarrow> (string \<times> string) option"
  w_capacity :: "nat \<Rightarrow> nat"
  w_client_error :: "string option"

record 'u response =
  resp_status :: nat
  resp_url :: 'u
  resp_content_type :: "bytes option"
  resp_content_length :: "nat option"
  resp_body :: socket

section \<open>Construction\<close>

text \<open>A duration has 64 bits of seconds; operators on it panic when they leave that range.  The
  number of iterations lost in an hour is a floating-point quotient: the argument \<open>lost\<close>.\<close>

definition checked_duration :: "nat \<Rightarrow> ('e, duration) outcome" where
  "checked_duration n = (if n < 2 ^ 64 * 10 ^ 9 then Ok n else Panic)"

definition time_to_idle :: "(duration \<Rightarrow> nat) \<Rightarrow> crawler_config \<Rightarrow> (string, duration) outcome" where
  "time_to_idle lost config =
     and_then (checked_duration (max_delay config div 2 * MAX_RESOURCES_PER_ITERATION)) (\<lambda>crawling.
     and_then (checked_duration (max_period config + crawling)) (\<lambda>next_crawling.
     and_then (checked_duration (next_crawling * lost next_crawling)) (\<lambda>unavailable.
     and_then (checked_duration (crawling + unavailable)) (\<lambda>t.
     checked_duration (t + next_crawling)))))"

text \<open>\<open>ResourceTypeCache::new\<close>: \<open>build\<close> of the cache's builder panics if the time to idle is longer than
  the crate's limit, \<open>max_idle\<close> (it documents 1000 years).\<close>

definition build_cache :: "duration \<Rightarrow> duration \<Rightarrow> ('e, string \<Rightarrow> resource_type option) outcome" where
  "build_cache max_idle ttl = (if max_idle < ttl then Panic else Ok Map.empty)"

definition new_crawler ::
  "'u url_ops \<Rightarrow> (string \<Rightarrow> 'u option) \<Rightarrow> (duration \<Rightarrow> nat) \<Rightarrow> duration \<Rightarrow> crawler_config
    \<Rightarrow> (string, 'u crawler) outcome" where
  "new_crawler U domain_base lost max_idle config =
     (case domain_base (crawl_domain config) of
        None \<Rightarrow> Err ''Invalid domain name''
      | Some base \<Rightarrow>
          (case resolve U base (sitemap_path config) of
             None \<Rightarrow> Err ''Invalid sitemap path''
           | Some sitemap \<Rightarrow>
               and_then (time_to_idle lost config) (\<lambda>ttl.
               and_then (build_cache max_idle ttl) (\<lambda>cache.
                 Ok \<lparr>crawl_base = base, crawl_sitemap = sitemap, crawl_config = config, crawl_queue = [],
                     crawled_resources = {}, resource_type_cache = cache, cache_time_to_idle = ttl,
                     crawl_client = None, crawl_metrics = new_metrics\<rparr>))))"

section \<open>The queue\<close>

definition on_error :: "'u crawler \<Rightarrow> 'u crawler" where
  "on_error c = c\<lparr>crawl_metrics := (crawl_metrics c)\<lparr>crawl_errors := crawl_errors (crawl_metrics c) + 1\<rparr>\<rparr>"

definition add_task ::
  "'u url_ops \<Rightarrow> 'u \<Rightarrow> delay option \<Rightarrow> 'u resource \<Rightarrow> 'u crawler \<Rightarrow> 'u crawler" where
  "add_task U url delay_spec resource c =
     (case validate_url_base U (crawl_base c) url of
        None \<Rightarrow> c
      | Some path \<Rightarrow>
          if path \<in> crawled_resources c then c
          else if MAX_RESOURCES_PER_ITERATION < card (insert path (crawled_resources c)) then on_error c
          else
            let task = \<lparr>task_url = url, task_delay = delay_spec, task_resource = resource\<rparr>
            in c\<lparr>crawled_resources := insert path (crawled_resources c),
                 crawl_queue := (if delay_spec = None then task # crawl_queue c else crawl_queue c @ [task])\<rparr>)"

section \<open>The HTTP client\<close>

text \<open>The capacity is drawn from \<open>1..=capacity\<close>: there is nothing to draw from when it is 0, and
  \<open>random_range\<close> panics.\<close>

definition drop_client :: "'u crawler \<Rightarrow> 'u crawler" where
  "drop_client c = c\<lparr>crawl_client := None,
     crawl_metrics := (crawl_metrics c)\<lparr>active_connections := active_connections (crawl_metrics c) - 1\<rparr>\<rparr>"

definition create_client :: "'u world \<Rightarrow> nat \<Rightarrow> 'u crawler \<Rightarrow> (string, unit) outcome \<times> 'u crawler" where
  "create_client w cost c =
     (case w_client_error w of
        Some e \<Rightarrow> (Err e, c)
      | None \<Rightarrow>
          if max_client_capacity (crawl_config c) = Some 0 then (Panic, c)
          else (Ok (), c\<lparr>crawl_client := Some
                    \<lparr>lc_capacity = map_option (w_capacity w) (max_client_capacity (crawl_config c)), lc_used = cost\<rparr>,
                  crawl_metrics := (crawl_metrics c)
                    \<lparr>new_connections_count := new_connections_count (crawl_metrics c) + 1,
                     active_connections := active_connections (crawl_metrics c) + 1\<rparr>\<rparr>))"

definition acquire_client :: "'u world \<Rightarrow> nat \<Rightarrow> 'u crawler \<Rightarrow> (string, unit) outcome \<times> 'u crawler" where
  "acquire_client w cost c =
     (case crawl_client c of
        None \<Rightarrow> create_client w cost c
      | Some lc \<Rightarrow>
          (case lc_capacity lc of
             None \<Rightarrow> (Ok (), c)
           | Some capacity \<Rightarrow>
               let lc' = lc\<lparr>lc_used := lc_used lc + cost\<rparr>
               in if lc_used lc' \<le> capacity then (Ok (), c\<lparr>crawl_client := Some lc'\<rparr>)
                  else create_client w cost (drop_client c)))"

text \<open>The policy of \<open>new_client\<close> for a redirect to \<open>url\<close>: an error, or the default policy's answer.\<close>

definition redirect_policy :: "'u url_ops \<Rightarrow> 'u \<Rightarrow> 'u \<Rightarrow> string + bool \<Rightarrow> string + bool" where
  "redirect_policy U base url default_answer =
     (if validate_url_base U base url = None then Inl ''got a redirect outside of the base URL'' else default_answer)"

text \<open>The headers of every request.  \<open>parse\<close> is the conversion to a header value, and \<open>canonical\<close> what
  the map of headers identifies names by.\<close>

definition default_headers :: "(string \<times> string) list" where
  \<open>default_headers =
     [(''User-Agent-Chrome'',
       ''Mozilla/5.0 (Macintosh; Intel Mac OS X 10_15_7) AppleWebKit/537.36 (KHTML, like Gecko) Chrome/144.0.0.0 Safari/537.36''),
      (''sec-ch-ua'',
       ''"Not(A:Brand";v="8", "Chromium";v="144", "Google Chrome";v="144"''),
      (''sec-ch-ua-mobile'', ''?0''),
      (''sec-ch-ua-platform'', ''"macOS"''),
      (''Upgrade-Insecure-Requests'', ''1''),
      (''Sec-Fetch-Site'', ''none''),
      (''Sec-Fetch-Mode'', ''navigate''),
      (''Sec-Fetch-User'', ''?1''),
      (''Sec-Fetch-Dest'', ''document''),
      (''Accept'',
       ''text/html,application/xhtml+xml,application/xml;q=0.9,image/avif,image/webp,image/apng,*/*;q=0.8,application/signed-exchange;v=b3;q=0.7''),
      (''Accept-Language'', ''en-GB,en-US;q=0.9,en;q=0.8'')]\<close>

fun insert_headers ::
  "(string \<Rightarrow> 'v option) \<Rightarrow> (string \<Rightarrow> string) \<Rightarrow> (string \<times> string) list \<Rightarrow> (string \<times> 'v) list
    \<Rightarrow> (string, (string \<times> 'v) list) outcome" where
  "insert_headers parse canonical [] m = Ok m"
| "insert_headers parse canonical ((name, value) # headers) m =
     (case parse value of
        None \<Rightarrow> Err (''invalid '' @ name @ '' header value'')
      | Some v \<Rightarrow>
          if map_of m (canonical name) \<noteq> None then Err (''duplicate header: '' @ name)
          else insert_headers parse canonical headers (m @ [(canonical name, v)]))"

definition get_default_headers ::
  "(string \<Rightarrow> 'v option) \<Rightarrow> (string \<Rightarrow> string) \<Rightarrow> (string, (string \<times> 'v) list) outcome" where
  "get_default_headers parse canonical = insert_headers parse canonical default_headers []"

record 'v client_options =
  opt_no_proxy :: bool
  opt_https_only :: bool
  opt_headers :: "(string \<times> 'v) list"
  opt_user_agent :: string
  opt_encodings :: "string list"
  opt_timeout :: duration
  opt_pool_idle_timeout :: "duration option"

text \<open>The options that do not bear on what is requested are left out: the resolver, the TLS backend and
  the case of header names.  \<open>build\<close> is the builder, which gets the redirect policy too.\<close>

definition new_client ::
  "(string \<Rightarrow> 'v option) \<Rightarrow> (string \<Rightarrow> string) \<Rightarrow> ('v client_options \<Rightarrow> ('u \<Rightarrow> string + bool \<Rightarrow> string + bool) \<Rightarrow> string + 'client)
    \<Rightarrow> duration \<Rightarrow> string \<Rightarrow> 'u url_ops \<Rightarrow> 'u \<Rightarrow> (string, 'client) outcome" where
  "new_client parse canonical build connection_timeout user_agent U base =
     and_then (get_default_headers parse canonical) (\<lambda>headers.
       case build \<lparr>opt_no_proxy = True, opt_https_only = True, opt_headers = headers, opt_user_agent = user_agent,
                opt_encodings = [''br'', ''deflate'', ''gzip'', ''zstd''], opt_timeout = connection_timeout,
                opt_pool_idle_timeout = None\<rparr> (redirect_policy U base) of
         Inl e \<Rightarrow> Err e
       | Inr client \<Rightarrow> Ok client)"

text \<open>The headers are visible ASCII and have distinct names, even if case is ignored, so that a client
  fails only if its builder does.\<close>

definition ascii_lower :: "string \<Rightarrow> string" where
  "ascii_lower = map (\<lambda>c. let n = of_char c :: nat in if 65 \<le> n \<and> n \<le> 90 then char_of (n + 32) else c)"

definition visible_ascii :: "string \<Rightarrow> bool" where
  "visible_ascii s \<longleftrightarrow> (\<forall>c \<in> set s. 32 \<le> (of_char c :: nat) \<and> (of_char c :: nat) < 127)"

lemma insert_headers_Ok:
  assumes "\<forall>(n, v) \<in> set hs. parse v \<noteq> None" "distinct (map fst m @ map (canonical \<circ> fst) hs)"
  shows "insert_headers parse canonical hs m = Ok (m @ map (\<lambda>(n, v). (canonical n, the (parse v))) hs)"
  using assms
proof (induction hs arbitrary: m)
  case (Cons h hs)
  then show ?case by (cases h) (auto simp: map_of_eq_None_iff)
qed simp

lemma default_headers_sound:
  "list_all (visible_ascii \<circ> snd) default_headers" "distinct (map (ascii_lower \<circ> fst) default_headers)"
  by (code_simp, code_simp)

lemma new_client_fails:
  assumes "\<And>v. visible_ascii v \<Longrightarrow> parse v \<noteq> None" "new_client parse ascii_lower build timeout agent U base = Err e"
  shows "\<exists>options. build options (redirect_policy U base) = Inl e \<and> opt_https_only options"
proof -
  have "\<forall>(n, v) \<in> set default_headers. parse v \<noteq> None"
    using default_headers_sound(1) assms(1) by (auto simp: list_all_iff)
  from insert_headers_Ok [OF this, where m = "[]" and canonical = ascii_lower] default_headers_sound(2) assms(2)
  show ?thesis by (auto simp: new_client_def get_default_headers_def split: sum.splits)
qed

section \<open>Responses\<close>

definition get_content_type :: "'u world \<Rightarrow> 'u response \<Rightarrow> string + (string \<times> string)" where
  "get_content_type w resp =
     (case resp_content_type resp of
        None \<Rightarrow> Inl ''Content-Type header is missing''
      | Some value \<Rightarrow>
          (case Option.bind (w_header_text w value) (w_parse_mime w) of
             Some content_type \<Rightarrow> Inr content_type
           | None \<Rightarrow> Inl ''invalid Content-Type''))"

fun read_chunks :: "nat \<Rightarrow> bytes \<Rightarrow> socket \<Rightarrow> (string, bytes) outcome" where
  "read_chunks size_limit data [] = Pending"
| "read_chunks size_limit data (Recv chunk # es) =
     (if size_limit < length data + length chunk then Err ''size limit is exceeded''
      else read_chunks size_limit (data @ chunk) es)"
| "read_chunks size_limit data (Eof # es) = Ok data"
| "read_chunks size_limit data (Broken e # es) = Err e"

definition read_response :: "nat \<Rightarrow> 'u response \<Rightarrow> (string, bytes) outcome" where
  "read_response size_limit resp =
     (if (case resp_content_length resp of Some n \<Rightarrow> size_limit < n | None \<Rightarrow> False)
      then Err ''size limit is exceeded''
      else read_chunks size_limit [] (resp_body resp))"

fun skip_asset :: "nat \<Rightarrow> socket \<Rightarrow> 'u crawler \<Rightarrow> (string, nat) outcome \<times> 'u crawler" where
  "skip_asset sz [] c = (Pending, c)"
| "skip_asset sz (Recv chunk # es) c =
     (if ASSET_SIZE_LIMIT < sz + length chunk then (Ok (sz + length chunk), on_error c)
      else skip_asset (sz + length chunk) es c)"
| "skip_asset sz (Eof # es) c = (Ok sz, c)"
| "skip_asset sz (Broken e # es) c = (Err e, c)"

definition process_asset :: "'u response \<Rightarrow> 'u crawler \<Rightarrow> (string, nat) outcome \<times> 'u crawler" where
  "process_asset resp c = skip_asset 0 (resp_body resp) c"

section \<open>The cache of resource types\<close>

fun guess_from_source :: "resource_source \<Rightarrow> resource_type" where
  "guess_from_source SourceImage = TypeAsset"
| "guess_from_source SourceLink = TypePage"
| "guess_from_source SourceOther = TypeAsset"

fun type_delay :: "resource_type \<Rightarrow> delay option" where
  "type_delay TypePage = Some DelayPage"
| "type_delay TypeAsset = None"

definition cache_add :: "'u url_ops \<Rightarrow> 'u \<Rightarrow> resource_type \<Rightarrow> 'u crawler \<Rightarrow> 'u crawler" where
  "cache_add U url t c =
     (case validate_url_base U (crawl_base c) url of
        Some key \<Rightarrow> c\<lparr>resource_type_cache := (resource_type_cache c)(key \<mapsto> t)\<rparr>
      | None \<Rightarrow> c)"

definition cache_get :: "'u world \<Rightarrow> 'u \<Rightarrow> 'u crawler \<Rightarrow> resource_type option" where
  "cache_get w url c =
     (case validate_url_base (w_urls w) (crawl_base c) url of
        Some key \<Rightarrow> if w_keep w key then resource_type_cache c key else None
      | None \<Rightarrow> None)"

section \<open>Resources\<close>

definition queue_sitemap_entry ::
  "'u url_ops \<Rightarrow> 'u \<Rightarrow> delay option \<Rightarrow> ('u \<Rightarrow> 'u resource) \<Rightarrow> 'u \<Rightarrow> 'u crawler \<Rightarrow> 'u crawler" where
  "queue_sitemap_entry U sitemap_url delay_spec resource location c =
     (if validate_url_base U sitemap_url location \<noteq> None then add_task U location delay_spec (resource location) c
      else on_error c)"

definition process_sitemap ::
  "'u world \<Rightarrow> 'u \<Rightarrow> 'u response \<Rightarrow> 'u crawler \<Rightarrow> (string, nat) outcome \<times> 'u crawler" where
  "process_sitemap w url resp c =
     (let U = w_urls w; sitemap_url = resp_url resp in
      if validate_url_base U url sitemap_url = None then (Err ''got an unexpected sitemap redirect'', c)
      else case read_response SITEMAP_SIZE_LIMIT resp of
          Ok data \<Rightarrow>
            (case w_parse_sitemap w data of
               Inl e \<Rightarrow> (Err e, c)
             | Inr (Index sitemaps) \<Rightarrow>
                 (Ok (length data), fold (queue_sitemap_entry U sitemap_url None Sitemap) (w_shuffle w sitemaps) c)
             | Inr (UrlSet urls) \<Rightarrow>
                 (Ok (length data),
                  fold (queue_sitemap_entry U sitemap_url (Some DelayPage) (\<lambda>_. Page)) (w_shuffle w urls) c))
        | Err e \<Rightarrow> (Err e, c)
        | Panic \<Rightarrow> (Panic, c)
        | Pending \<Rightarrow> (Pending, c))"

definition queue_link :: "'u world \<Rightarrow> 'u \<times> resource_source \<Rightarrow> 'u crawler \<Rightarrow> 'u crawler" where
  "queue_link w link c =
     (case link of
        (url, source) \<Rightarrow>
          let t = (case cache_get w url c of Some t \<Rightarrow> t | None \<Rightarrow> guess_from_source source)
          in add_task (w_urls w) url (type_delay t) UnknownResource c)"

definition process_page :: "'u world \<Rightarrow> 'u response \<Rightarrow> 'u crawler \<Rightarrow> (string, nat) outcome \<times> 'u crawler" where
  "process_page w resp c =
     (if get_content_type w resp \<noteq> Inr (''text'', ''html'') then process_asset resp (on_error c)
      else case read_response HTML_SIZE_LIMIT resp of
          Ok data \<Rightarrow>
            (Ok (length data),
             fold (queue_link w) (w_order w (find_resources (w_urls w) (resp_url resp) (w_elements w data) (crawl_base c))) c)
        | Err e \<Rightarrow> (Err e, c)
        | Panic \<Rightarrow> (Panic, c)
        | Pending \<Rightarrow> (Pending, c))"

definition process_unknown :: "'u world \<Rightarrow> 'u response \<Rightarrow> 'u crawler \<Rightarrow> (string, nat) outcome \<times> 'u crawler" where
  "process_unknown w resp c =
     (case get_content_type w resp of
        Inr content_type \<Rightarrow>
          if content_type = (''text'', ''html'')
          then process_page w resp (cache_add (w_urls w) (resp_url resp) TypePage c)
          else process_asset resp (cache_add (w_urls w) (resp_url resp) TypeAsset c)
      | Inl e \<Rightarrow> process_asset resp (cache_add (w_urls w) (resp_url resp) TypeAsset (on_error c)))"

fun process_resource ::
  "'u world \<Rightarrow> 'u resource \<Rightarrow> 'u response \<Rightarrow> 'u crawler \<Rightarrow> (string, nat) outcome \<times> 'u crawler" where
  "process_resource w (Sitemap url) resp c = process_sitemap w url resp c"
| "process_resource w Page resp c = process_page w resp c"
| "process_resource w Asset resp c = process_asset resp c"
| "process_resource w UnknownResource resp c = process_unknown w resp c"

section \<open>A round\<close>

definition observe_request :: "'u crawler \<Rightarrow> 'u crawler" where
  "observe_request c = c\<lparr>crawl_metrics := (crawl_metrics c)\<lparr>request_times := request_times (crawl_metrics c) + 1\<rparr>\<rparr>"

definition process_task ::
  "'u world \<Rightarrow> string + 'u response \<Rightarrow> 'u crawl_task \<Rightarrow> 'u crawler \<Rightarrow> (string, nat) outcome \<times> 'u crawler" where
  "process_task w reply task c =
     (if validate_url_base (w_urls w) (crawl_base c) (task_url task) = None
      then (Err ''an attempt to crawl outside of the base URL'', c)
      else case acquire_client w (if task_delay task = None then 0 else 1) c of
          (Ok u, c1) \<Rightarrow>
            (case reply of
               Inl e \<Rightarrow> (Err e, observe_request c1)
             | Inr resp \<Rightarrow>
                 if resp_status resp \<noteq> 200 then (Err ''the server returned an unexpected status code'', observe_request c1)
                 else process_resource w (task_resource task) resp (observe_request c1))
        | (Err e, c1) \<Rightarrow> (Err e, c1)
        | (Panic, c1) \<Rightarrow> (Panic, c1)
        | (Pending, c1) \<Rightarrow> (Pending, c1))"

text \<open>An empty queue starts a new iteration; \<open>unwrap\<close> panics if the sitemap is outside the base.\<close>

definition start_iteration :: "'u url_ops \<Rightarrow> 'u crawler \<Rightarrow> (unit, 'u crawl_task) outcome \<times> 'u crawler" where
  "start_iteration U c =
     (let c1 = c\<lparr>crawled_resources := {}\<rparr>;
          c2 = (if crawl_client c1 \<noteq> None then drop_client c1 else c1)
      in case validate_url_base U (crawl_base c) (crawl_sitemap c) of
           None \<Rightarrow> (Panic, c2)
         | Some path \<Rightarrow>
             (Ok \<lparr>task_url = crawl_sitemap c, task_delay = Some DelayCrawl, task_resource = Sitemap (crawl_sitemap c)\<rparr>,
              c2\<lparr>crawled_resources := {path}\<rparr>))"

definition next_task :: "'u url_ops \<Rightarrow> 'u crawler \<Rightarrow> (unit, 'u crawl_task) outcome \<times> 'u crawler" where
  "next_task U c =
     (case crawl_queue c of
        task # tasks \<Rightarrow> (Ok task, c\<lparr>crawl_queue := tasks\<rparr>)
      | [] \<Rightarrow> start_iteration U c)"

text \<open>Before the delay of a task a client that has used up its capacity is closed.\<close>

definition before_delay :: "'u crawl_task \<Rightarrow> 'u crawler \<Rightarrow> 'u crawler" where
  "before_delay task c =
     (case (task_delay task, crawl_client c) of
        (Some d, Some lc) \<Rightarrow>
          (case lc_capacity lc of
             Some capacity \<Rightarrow> if capacity \<le> lc_used lc then drop_client c else c
           | None \<Rightarrow> c)
      | _ \<Rightarrow> c)"

fun delay_bound :: "crawler_config \<Rightarrow> delay \<Rightarrow> duration" where
  "delay_bound config DelayCrawl = max_period config"
| "delay_bound config DelayPage = max_delay config"

definition run_round ::
  "'u world \<Rightarrow> string + 'u response \<Rightarrow> 'u crawler \<Rightarrow> (unit, 'u crawl_task) outcome \<times> 'u crawler" where
  "run_round w reply c =
     (case next_task (w_urls w) c of
        (Ok task, c1) \<Rightarrow>
          (case process_task w reply task (before_delay task c1) of
             (Ok sz, c2) \<Rightarrow> (Ok task, c2)
           | (Err e, c2) \<Rightarrow> (Ok task, on_error c2)
           | (Panic, c2) \<Rightarrow> (Panic, c2)
           | (Pending, c2) \<Rightarrow> (Pending, c2))
      | (r, c1) \<Rightarrow> (r, c1))"

section \<open>The ledger of an iteration\<close>

text \<open>\<open>fetched\<close> are the paths of the tasks taken off the queue in this iteration.  Together with
  those still queued they are exactly the crawled resources, each of them once.\<close>

definition ledger :: "'u url_ops \<Rightarrow> string list \<Rightarrow> 'u crawler \<Rightarrow> bool" where
  "ledger U fetched c \<longleftrightarrow>
     (\<exists>ps. map (\<lambda>task. validate_url_base U (crawl_base c) (task_url task)) (crawl_queue c) = map Some ps \<and>
        distinct (fetched @ ps) \<and> crawled_resources c = set (fetched @ ps) \<and>
        length (fetched @ ps) \<le> MAX_RESOURCES_PER_ITERATION)"

text \<open>What the processing of a response leaves as it was.\<close>

definition kept :: "'u crawler \<Rightarrow> 'u crawler \<Rightarrow> bool" where
  "kept c c' \<longleftrightarrow> crawl_base c' = crawl_base c \<and> crawl_sitemap c' = crawl_sitemap c \<and>
     crawl_config c' = crawl_config c \<and> crawl_client c' = crawl_client c \<and>
     active_connections (crawl_metrics c') = active_connections (crawl_metrics c) \<and>
     crawled_resources c \<subseteq> crawled_resources c'"

lemma kept_refl [simp]: "kept c c" and kept_trans: "kept c d \<Longrightarrow> kept d e \<Longrightarrow> kept c e"
  by (auto simp: kept_def)

lemma kept_simple [simp]:
  "kept c (on_error d) \<longleftrightarrow> kept c d" "kept c (cache_add U url t d) \<longleftrightarrow> kept c d" "kept c (observe_request d) \<longleftrightarrow> kept c d"
  by (auto simp: kept_def on_error_def cache_add_def observe_request_def split: option.splits)

lemma ledger_simple [simp]:
  "ledger U f (on_error c) \<longleftrightarrow> ledger U f c" "ledger U f (cache_add V url t c) \<longleftrightarrow> ledger U f c"
  "ledger U f (observe_request c) \<longleftrightarrow> ledger U f c" "ledger U f (drop_client c) \<longleftrightarrow> ledger U f c"
  by (auto simp: ledger_def on_error_def cache_add_def observe_request_def drop_client_def split: option.splits)

lemma base_simple [simp]:
  "crawl_base (on_error c) = crawl_base c" "crawl_base (cache_add V url t c) = crawl_base c"
  "crawl_base (observe_request c) = crawl_base c" "crawl_base (drop_client c) = crawl_base c"
  by (simp_all add: on_error_def cache_add_def observe_request_def drop_client_def split: option.splits)

lemma ledger_add_task:
  assumes "ledger U f c"
  shows "ledger U f (add_task U url d r c)" "kept c (add_task U url d r c)"
proof -
  obtain ps where ps: "map (\<lambda>task. validate_url_base U (crawl_base c) (task_url task)) (crawl_queue c) = map Some ps"
    "distinct (f @ ps)" "crawled_resources c = set (f @ ps)" "length (f @ ps) \<le> MAX_RESOURCES_PER_ITERATION"
    using assms by (auto simp: ledger_def)
  have "ledger U f (add_task U url d r c) \<and> kept c (add_task U url d r c)"
  proof (cases "validate_url_base U (crawl_base c) url")
    case None
    then show ?thesis using assms by (simp add: add_task_def)
  next
    case (Some path)
    consider "path \<in> crawled_resources c"
      | "path \<notin> crawled_resources c" "MAX_RESOURCES_PER_ITERATION < card (insert path (crawled_resources c))"
      | "path \<notin> crawled_resources c" "card (insert path (crawled_resources c)) \<le> MAX_RESOURCES_PER_ITERATION"
      by linarith
    then show ?thesis
    proof cases
      case 3
      let ?ps = "if d = None then path # ps else ps @ [path]"
      have "card (insert path (set (f @ ps))) = Suc (length (f @ ps))"
        using 3(1) ps(2,3) by (simp add: distinct_card del: set_append append_assoc)
      then have "length (f @ ?ps) \<le> MAX_RESOURCES_PER_ITERATION" using 3(2) ps(3) by simp
      moreover have "distinct (f @ ?ps)" using 3(1) ps(2,3) by auto
      ultimately show ?thesis using 3 Some ps
        by (auto simp: add_task_def ledger_def kept_def Let_def intro!: exI [of _ ?ps])
    qed (use Some assms in \<open>simp_all add: add_task_def\<close>)
  qed
  then show "ledger U f (add_task U url d r c)" "kept c (add_task U url d r c)" by blast+
qed

lemma ledger_fold:
  assumes "\<And>x d. ledger U f d \<Longrightarrow> ledger U f (g x d) \<and> kept d (g x d)" "ledger U f c"
  shows "ledger U f (fold g xs c) \<and> kept c (fold g xs c)"
  using assms(2)
proof (induction xs arbitrary: c)
  case (Cons x xs)
  with assms(1) [OF Cons.prems] kept_trans show ?case by fastforce
qed simp

section \<open>Resources as an interface\<close>

text \<open>The trait \<open>Resource\<close>: processing a response keeps the ledger and the client, and returns or
  waits.\<close>

locale crawl_resource =
  fixes urls :: "'u url_ops"
    and process :: "'u response \<Rightarrow> 'u crawler \<Rightarrow> (string, nat) outcome \<times> 'u crawler"
  assumes keeps_ledger: "ledger urls f c \<Longrightarrow> ledger urls f (snd (process resp c))"
    and keeps_rest: "ledger urls f c \<Longrightarrow> kept c (snd (process resp c))"
    and no_panic: "fst (process resp c) \<noteq> Panic"
begin

lemma after_observing:
  assumes "ledger urls f c"
  shows "ledger urls f (snd (process resp (observe_request c)))" "kept c (snd (process resp (observe_request c)))"
  using assms keeps_ledger [of f "observe_request c" resp] keeps_rest [of f "observe_request c" resp]
    kept_trans [of c "observe_request c"] by simp_all

end

lemma skip_asset_keeps:
  "ledger U f (snd (skip_asset sz s c)) \<longleftrightarrow> ledger U f c" "kept c (snd (skip_asset sz s c))"
  "fst (skip_asset sz s c) \<noteq> Panic"
  by (induction sz s c rule: skip_asset.induct) simp_all

lemma read_chunks_no_panic: "read_chunks n data s \<noteq> Panic"
  by (induction n data s rule: read_chunks.induct) simp_all

lemma read_response_no_panic [simp]: "read_response n resp \<noteq> Panic"
  by (simp add: read_response_def read_chunks_no_panic)

interpretation asset: crawl_resource U process_asset for U
  by unfold_locales (simp_all add: process_asset_def skip_asset_keeps)

interpretation sitemap: crawl_resource "w_urls w" "process_sitemap w url" for w url
proof unfold_locales
  fix f and c :: "'a crawler" and resp :: "'a response"
  assume l: "ledger (w_urls w) f c"
  have queue: "ledger (w_urls w) f (fold (queue_sitemap_entry (w_urls w) su ds r) ls c) \<and>
      kept c (fold (queue_sitemap_entry (w_urls w) su ds r) ls c)" for su ds r ls
    by (rule ledger_fold [OF _ l]) (use ledger_add_task in \<open>auto simp: queue_sitemap_entry_def\<close>)
  have "ledger (w_urls w) f (snd (process_sitemap w url resp c)) \<and> kept c (snd (process_sitemap w url resp c))"
    using l queue by (simp add: process_sitemap_def Let_def split: outcome.splits sum.splits sitemap.splits)
  then show "ledger (w_urls w) f (snd (process_sitemap w url resp c))" "kept c (snd (process_sitemap w url resp c))"
    by blast+
qed (simp add: process_sitemap_def Let_def split: outcome.splits sum.splits sitemap.splits)

interpretation page: crawl_resource "w_urls w" "process_page w" for w
proof unfold_locales
  fix f and c :: "'a crawler" and resp :: "'a response"
  assume l: "ledger (w_urls w) f c"
  have queue: "ledger (w_urls w) f (fold (queue_link w) ls c) \<and> kept c (fold (queue_link w) ls c)" for ls
    by (rule ledger_fold [OF _ l]) (use ledger_add_task in \<open>auto simp: queue_link_def Let_def split: prod.splits\<close>)
  have "ledger (w_urls w) f (snd (process_page w resp c)) \<and> kept c (snd (process_page w resp c))"
    using l queue asset.keeps_ledger [of "w_urls w" f "on_error c" resp]
      asset.keeps_rest [of "w_urls w" f "on_error c" resp] kept_trans [of c "on_error c"]
    by (simp add: process_page_def split: outcome.splits)
  then show "ledger (w_urls w) f (snd (process_page w resp c))" "kept c (snd (process_page w resp c))" by blast+
qed (simp add: process_page_def asset.no_panic split: outcome.splits)

interpretation unknown: crawl_resource "w_urls w" "process_unknown w" for w
proof unfold_locales
  fix f and c :: "'a crawler" and resp :: "'a response"
  assume l: "ledger (w_urls w) f c"
  let ?add = "\<lambda>t d. cache_add (w_urls w) (resp_url resp) t d"
  have "ledger (w_urls w) f (snd (process_page w resp (?add t c))) \<and> kept c (snd (process_page w resp (?add t c)))" for t
    using page.keeps_ledger [of w f "?add t c" resp] page.keeps_rest [of w f "?add t c" resp] l
      kept_trans [of c "?add t c"] by simp
  moreover have "ledger (w_urls w) f (snd (process_asset resp d)) \<and> kept c (snd (process_asset resp d))"
    if "ledger (w_urls w) f d" "kept c d" for d
    using asset.keeps_ledger [OF that(1), of resp] asset.keeps_rest [OF that(1), of resp] that(2) kept_trans by blast
  ultimately have "ledger (w_urls w) f (snd (process_unknown w resp c)) \<and> kept c (snd (process_unknown w resp c))"
    using l by (simp add: process_unknown_def split: sum.splits)
  then show "ledger (w_urls w) f (snd (process_unknown w resp c))" "kept c (snd (process_unknown w resp c))" by blast+
qed (simp add: process_unknown_def asset.no_panic page.no_panic split: sum.splits)

lemma process_resource_contract: "crawl_resource (w_urls w) (process_resource w r)"
proof -
  have eq: "process_resource w (Sitemap u) = process_sitemap w u" "process_resource w Page = process_page w"
    "process_resource w Asset = process_asset" "process_resource w UnknownResource = process_unknown w" for u
    by (rule ext, rule ext, simp)+
  show ?thesis
    using sitemap.crawl_resource_axioms page.crawl_resource_axioms asset.crawl_resource_axioms unknown.crawl_resource_axioms
    by (cases r) (simp_all add: eq)
qed

end
