(* ===== verification/Configuration.thy ===== *)
theory Configuration imports HttpClient HttpServer Crawler begin

text \<open>
  \<open>src/src/config.rs\<close>: the configuration file, and what loading it checks.

  Opening a file and parsing YAML (crate \<open>serde_yaml\<close>) are arguments.  The checks are those that the
  \<open>validate\<close> attributes of the structs declare (crate \<open>validator\<close>): a derived \<open>validate\<close> goes through
  the fields that have attributes, and into another struct only where the attribute is \<open>nested\<close>.  A
  check that fails is represented by the name of its field.  \<open>no_control\<close> and \<open>char_count\<close> are what the
  crates say of Unicode text.
\<close>

section \<open>Data\<close>

record udp_config =
  uc_bind_address :: socket_addr
  uc_peer_address :: socket_addr

record secure_udp_config =
  suc_udp :: udp_config
  suc_secret :: string

datatype transport_config =
    HttpClientConfig http_client_config
  | HttpServerConfig http_server_config
  | InsecureUdpConfig udp_config
  | UdpConfig secure_udp_config

record config =
  config_path :: string
  config_name :: string
  config_transports :: "(string option \<times> transport_config) list"
  config_crawler :: "crawler_config option"
  config_metrics_bind_address :: "socket_addr option"

section \<open>Validation\<close>

definition violation :: "bool \<Rightarrow> string \<Rightarrow> string list" where
  "violation ok field = (if ok then [] else [field])"

definition http_client_violations :: "(string \<Rightarrow> bool) \<Rightarrow> (string \<Rightarrow> nat) \<Rightarrow> http_client_config \<Rightarrow> string list" where
  "http_client_violations no_control char_count c =
     violation (no_control (hcc_secret c)) ''secret'' @
     violation (MIN_SECRET_LEN \<le> char_count (hcc_secret c)) ''secret'' @
     violation (1 \<le> hcc_connections c \<and> hcc_connections c \<le> 10) ''connections''"

text \<open>The attributes of the structs below a server's \<open>upstreams\<close>, and of the crawler's.\<close>

definition hiddenlink_violations :: "(string \<Rightarrow> bool) \<Rightarrow> (string \<Rightarrow> nat) \<Rightarrow> string \<Rightarrow> string list" where
  "hiddenlink_violations no_control char_count secret =
     violation (no_control secret) ''secret'' @ violation (MIN_SECRET_LEN \<le> char_count secret) ''secret''"

definition trojan_violations :: "trojan_config \<Rightarrow> string list" where
  "trojan_violations c = violation (1 \<le> length (trojan_passwords c)) ''passwords''"

definition crawler_violations :: "(string \<Rightarrow> nat) \<Rightarrow> crawler_config \<Rightarrow> string list" where
  "crawler_violations char_count c =
     violation (1 \<le> char_count (crawl_domain c)) ''domain'' @
     violation (1 \<le> char_count (sitemap_path c)) ''sitemap_path'' @
     violation (case max_client_capacity c of Some m \<Rightarrow> 1 \<le> m | None \<Rightarrow> True) ''max_client_capacity''"

text \<open>\<open>UpstreamsConfig\<close>, \<open>HttpServerTransportConfig\<close> and the structs of UDP have no attributes on their
  fields but \<open>nested\<close> ones on \<open>udp\<close> and \<open>securer\<close>, whose structs have none themselves.\<close>

definition http_server_violations :: "http_server_config \<Rightarrow> string list" where
  "http_server_violations c = []"

definition udp_violations :: "udp_config \<Rightarrow> string list" where
  "udp_violations c = []"

definition securer_violations :: "string \<Rightarrow> string list" where
  "securer_violations secret = []"

fun transport_violations :: "(string \<Rightarrow> bool) \<Rightarrow> (string \<Rightarrow> nat) \<Rightarrow> transport_config \<Rightarrow> string list" where
  "transport_violations no_control char_count (HttpClientConfig t) = http_client_violations no_control char_count t"
| "transport_violations no_control char_count (HttpServerConfig t) = http_server_violations t"
| "transport_violations no_control char_count (InsecureUdpConfig t) = udp_violations t"
| "transport_violations no_control char_count (UdpConfig t) = udp_violations (suc_udp t) @ securer_violations (suc_secret t)"

definition config_violations :: "(string \<Rightarrow> bool) \<Rightarrow> (string \<Rightarrow> nat) \<Rightarrow> config \<Rightarrow> string list" where
  "config_violations no_control char_count c =
     violation (1 \<le> char_count (config_name c)) ''name'' @
     violation (1 \<le> length (config_transports c)) ''transports'' @
     concat (map (\<lambda>(name, t). transport_violations no_control char_count t) (config_transports c))"

section \<open>Loading\<close>

datatype config_error =
    CannotOpen string
  | CannotParse string
  | InvalidConfig "string list"

definition load_config ::
  "(string \<Rightarrow> string + bytes) \<Rightarrow> (bytes \<Rightarrow> string + config) \<Rightarrow> (string \<Rightarrow> bool) \<Rightarrow> (string \<Rightarrow> nat) \<Rightarrow> string
    \<Rightarrow> (config_error, config) outcome" where
  "load_config open_file parse no_control char_count path =
     (case open_file path of
        Inl e \<Rightarrow> Err (CannotOpen e)
      | Inr data \<Rightarrow>
          (case parse data of
             Inl e \<Rightarrow> Err (CannotParse e)
           | Inr c0 \<Rightarrow>
               let c = c0\<lparr>config_path := path\<rparr>; violations = config_violations no_control char_count c
               in if violations = [] then Ok c else Err (InvalidConfig violations)))"

section \<open>What is checked\<close>

lemma violation_Nil [simp]: "violation ok field = [] \<longleftrightarrow> ok"
  by (simp add: violation_def)

lemma http_client_violations_Nil:
  "http_client_violations no_control char_count c = [] \<longleftrightarrow> http_client_config_valid no_control char_count c"
  by (simp add: http_client_violations_def http_client_config_valid_def)

lemma transport_violations_Nil:
  "transport_violations no_control char_count t = [] \<longleftrightarrow>
     (\<forall>c. t = HttpClientConfig c \<longrightarrow> http_client_config_valid no_control char_count c)"
  by (cases t)
    (simp_all add: http_client_violations_Nil http_server_violations_def udp_violations_def securer_violations_def)

lemma config_violations_Nil:
  "config_violations no_control char_count c = [] \<longleftrightarrow>
     1 \<le> char_count (config_name c) \<and> config_transports c \<noteq> [] \<and>
     (\<forall>(name, t) \<in> set (config_transports c). \<forall>cc. t = HttpClientConfig cc \<longrightarrow>
        http_client_config_valid no_control char_count cc)"
proof -
  have "1 \<le> length (config_transports c) \<longleftrightarrow> config_transports c \<noteq> []" by (cases "config_transports c") simp_all
  then show ?thesis by (simp add: config_violations_def transport_violations_Nil split_beta)
qed

lemma load_config_Ok:
  "load_config open_file parse no_control char_count path = Ok c \<longleftrightarrow>
     (\<exists>data c0. open_file path = Inr data \<and> parse data = Inr c0 \<and> c = c0\<lparr>config_path := path\<rparr> \<and>
        config_violations no_control char_count c = [])"
  by (auto simp: load_config_def Let_def split: sum.split)

lemma load_config_settled [simp]: "settled (load_config open_file parse no_control char_count path)"
  by (simp add: load_config_def Let_def split: sum.split)

text \<open>The same server with other upstreams.\<close>

fun with_upstreams :: "upstreams_config \<Rightarrow> transport_config \<Rightarrow> transport_config" where
  "with_upstreams u (HttpServerConfig t) = HttpServerConfig (t\<lparr>hsc_upstreams := u\<rparr>)"
| "with_upstreams u t = t"

lemma with_upstreams_client [simp]: "with_upstreams u t = HttpClientConfig c \<longleftrightarrow> t = HttpClientConfig c"
  by (cases t) simp_all

section \<open>Properties\<close>

text \<open>C15: what loading a configuration establishes, and what it does not.  A configuration is loaded if
  and only if its file can be opened and parsed, it has a name and a transport, and each HTTP client
  has a secret of at least ten characters, none of them a control character, and one to ten
  connections.  Nothing else is checked: with any other crawler, and with any other upstreams of its
  servers, the same configuration is loaded too, whatever their own attributes say, since no
  attribute \<open>nested\<close> leads to them.\<close>
theorem config_validation:
  assumes "parse data = Inr c" "open_file path = Inr data"
  shows "(load_config open_file parse no_control char_count path = Ok (c\<lparr>config_path := path\<rparr>) \<longleftrightarrow>
      1 \<le> char_count (config_name c) \<and> config_transports c \<noteq> [] \<and>
      (\<forall>(name, t) \<in> set (config_transports c). \<forall>cc. t = HttpClientConfig cc \<longrightarrow>
         http_client_config_valid no_control char_count cc)) \<and>
    (load_config open_file parse no_control char_count path = Ok (c\<lparr>config_path := path\<rparr>) \<longrightarrow>
      (let c' = c\<lparr>config_crawler := crawler, config_transports := map (map_prod id (with_upstreams u)) (config_transports c)\<rparr>
       in parse' data = Inr c' \<longrightarrow>
          load_config open_file parse' no_control char_count path = Ok (c'\<lparr>config_path := path\<rparr>)))"
proof -
  have eq: "load_config open_file p no_control char_count path = Ok (d\<lparr>config_path := path\<rparr>) \<longleftrightarrow>
      config_violations no_control char_count d = []" if "p data = Inr d" for p and d :: config
  proof -
    have "config_violations no_control char_count (d\<lparr>config_path := path\<rparr>) = config_violations no_control char_count d"
      by (simp add: config_violations_def)
    with that assms(2) show ?thesis by (simp add: load_config_def Let_def)
  qed
  let ?c' = "c\<lparr>config_crawler := crawler, config_transports := map (map_prod id (with_upstreams u)) (config_transports c)\<rparr>"
  have "config_violations no_control char_count ?c' = [] \<longleftrightarrow> config_violations no_control char_count c = []"
    by (simp add: config_violations_Nil split_beta)
  with eq [of parse c, OF assms(1)] eq [of parse' ?c'] config_violations_Nil [of no_control char_count c]
  show ?thesis unfolding Let_def by blast
qed

text \<open>A server whose secret is empty and a crawler whose clients have no capacity.\<close>

definition demo_server_config :: "string \<Rightarrow> http_server_config" where
  "demo_server_config secret = \<lparr>hsc_bind_address = V4 0 443, hsc_default_domain = (''cert'', ''key''),
     hsc_additional_domains = [], hsc_upstreams = demo_config\<lparr>hiddenlink_secret := secret\<rparr>\<rparr>"

definition demo_main_config :: "string \<Rightarrow> nat \<Rightarrow> config" where
  "demo_main_config secret capacity = \<lparr>config_path = [], config_name = ''tun0'',
     config_transports = [(None, HttpServerConfig (demo_server_config secret))],
     config_crawler = Some \<lparr>crawl_domain = ''d'', sitemap_path = ''s'', max_period = 5, max_delay = 2,
       max_client_capacity = Some capacity\<rparr>,
     config_metrics_bind_address = None\<rparr>"

lemma config_validation_witness:
  "load_config (\<lambda>p. Inr []) (\<lambda>d. Inr (demo_main_config [] 0)) (\<lambda>s. True) length ''path''
     = Ok ((demo_main_config [] 0)\<lparr>config_path := ''path''\<rparr>) \<and>
   hiddenlink_violations (\<lambda>s. True) length [] \<noteq> [] \<and>
   crawler_violations length (the (config_crawler (demo_main_config [] 0))) \<noteq> []"
proof (intro conjI)
  have "map (map_prod id (with_upstreams (demo_config\<lparr>hiddenlink_secret := []\<rparr>)))
      (config_transports (demo_main_config ''0123456789'' 1)) = config_transports (demo_main_config [] 0)"
    by (simp add: demo_main_config_def demo_server_config_def)
  then have "demo_main_config [] 0 = (demo_main_config ''0123456789'' 1)
      \<lparr>config_crawler := config_crawler (demo_main_config [] 0),
       config_transports := map (map_prod id (with_upstreams (demo_config\<lparr>hiddenlink_secret := []\<rparr>)))
         (config_transports (demo_main_config ''0123456789'' 1))\<rparr>"
    by (simp add: demo_main_config_def)
  with config_validation [where parse = "\<lambda>d. Inr (demo_main_config ''0123456789'' 1)" and data = "[]"
      and c = "demo_main_config ''0123456789'' 1" and open_file = "\<lambda>p. Inr []" and path = "''path''"
      and no_control = "\<lambda>s. True" and char_count = length and crawler = "config_crawler (demo_main_config [] 0)"
      and u = "demo_config\<lparr>hiddenlink_secret := []\<rparr>" and parse' = "\<lambda>d. Inr (demo_main_config [] 0)"]
  show "load_config (\<lambda>p. Inr []) (\<lambda>d. Inr (demo_main_config [] 0)) (\<lambda>s. True) length ''path''
     = Ok ((demo_main_config [] 0)\<lparr>config_path := ''path''\<rparr>)"
    by (simp add: demo_main_config_def)
  show "hiddenlink_violations (\<lambda>s. True) length [] \<noteq> []"
    by (simp add: hiddenlink_violations_def MIN_SECRET_LEN_def violation_def)
  show "crawler_violations length (the (config_crawler (demo_main_config [] 0))) \<noteq> []"
    by (simp add: crawler_violations_def demo_main_config_def violation_def)
qed

end
