(* ===== verification/Securer.thy ===== *)
theory Securer imports Wire begin

unbundle bit_operations_syntax

text \<open>
  \<open>src/src/transport/udp/securer.rs\<close>: the encryption of UDP datagrams.

  A datagram is a 16 byte header (session id, timestamp, packet id), encrypted with one AES
  block, followed by the payload and its tag, encrypted with an AEAD cipher that is keyed by the
  secret and the session id and whose nonce is the last 12 bytes of the plain header.

  The ciphers are crates (\<open>aes\<close>, \<open>shadowsocks-crypto\<close>, \<open>base64\<close>): the record \<open>crypto\<close>.
  What the code relies on is \<open>crypto_ok\<close>: both ciphers keep the length, and decryption with the
  same key undoes encryption.  Its \<open>'c\<close> is the cipher object of the AEAD crate.

  The random numbers a session is made of and the clocks are arguments.
\<close>

section \<open>The crates' interface\<close>

record 'c crypto =
  key_len :: nat
  tag_len :: nat
  base64_decode :: "string \<Rightarrow> bytes option"
  cipher_new :: "bytes \<Rightarrow> u64 \<Rightarrow> 'c"
  encrypt_packet :: "'c \<Rightarrow> bytes \<Rightarrow> bytes \<Rightarrow> bytes"
  decrypt_packet :: "'c \<Rightarrow> bytes \<Rightarrow> bytes \<Rightarrow> bytes option"
  encrypt_block :: "bytes \<Rightarrow> bytes \<Rightarrow> bytes"
  decrypt_block :: "bytes \<Rightarrow> bytes \<Rightarrow> bytes"

text \<open>\<open>encrypt_packet\<close> and \<open>decrypt_packet\<close> work in place on the payload and the room for the
  tag behind it; \<open>decrypt_packet\<close> is \<open>None\<close> where the crate returns \<open>false\<close>.\<close>

definition crypto_ok :: "'c crypto \<Rightarrow> bool" where
  "crypto_ok K \<longleftrightarrow>
     key_len K = 16 \<and>
     (\<forall>k b. length b = 16 \<longrightarrow> length (encrypt_block K k b) = 16 \<and>
        decrypt_block K k (encrypt_block K k b) = b) \<and>
     (\<forall>c n b. length (encrypt_packet K c n b) = length b) \<and>
     (\<forall>c n b d. decrypt_packet K c n b = Some d \<longrightarrow> length d = length b) \<and>
     (\<forall>c n p t. length t = tag_len K \<longrightarrow>
        (\<exists>t'. length t' = tag_len K \<and>
          decrypt_packet K c n (encrypt_packet K c n (p @ t)) = Some (p @ t')))"

section \<open>State\<close>

record session =
  session_id :: u64
  packet_id :: u32

record 'c peer_session =
  ps_session_id :: u64
  ps_cipher :: 'c

record 'c securer =
  sec_key :: bytes
  sec_session :: session
  sec_cipher :: 'c
  peer_session :: "'c peer_session option"

datatype decrypt_error =
    TooSmallPacket nat
  | InvalidPayload
  | InvalidTimestamp int

datatype secret_error = NotBase64 | WrongKeyLength nat nat

definition decode_secret :: "'c crypto \<Rightarrow> string \<Rightarrow> secret_error + bytes" where
  "decode_secret K secret =
     (case base64_decode K secret of
        None \<Rightarrow> Inl NotBase64
      | Some key \<Rightarrow>
          if length key \<noteq> key_len K then Inl (WrongKeyLength (length key) (key_len K)) else Inr key)"

text \<open>\<open>UdpConnectionSecurer::new\<close>, given the two random numbers of \<open>Session::new\<close>.  The AES-128
  key schedule takes 16 bytes, and \<open>unwrap\<close> panics on another length.\<close>

definition new_session :: "u64 \<Rightarrow> u32 \<Rightarrow> session" where
  "new_session sid pid = \<lparr>session_id = sid, packet_id = pid\<rparr>"

definition new_peer_session :: "'c crypto \<Rightarrow> bytes \<Rightarrow> u64 \<Rightarrow> 'c peer_session" where
  "new_peer_session K key sid = \<lparr>ps_session_id = sid, ps_cipher = cipher_new K key sid\<rparr>"

definition new_securer ::
  "'c crypto \<Rightarrow> string \<Rightarrow> u64 \<Rightarrow> u32 \<Rightarrow> (secret_error, 'c securer) outcome" where
  "new_securer K secret sid pid =
     (case decode_secret K secret of
        Inl e \<Rightarrow> Err e
      | Inr key \<Rightarrow>
          if length key \<noteq> 16 then Panic
          else Ok \<lparr>sec_key = key, sec_session = new_session sid pid,
                   sec_cipher = cipher_new K key sid, peer_session = None\<rparr>)"

section \<open>Encryption\<close>

text \<open>\<open>now_timestamp\<close>: the seconds of the system clock, which must fit \<open>u32\<close>.\<close>

definition now_timestamp :: "nat \<Rightarrow> u32 option" where
  "now_timestamp secs = (if secs < 2 ^ 32 then Some (word_of_nat secs) else None)"

definition plain_header :: "u64 \<Rightarrow> u32 \<Rightarrow> u32 \<Rightarrow> bytes" where
  "plain_header sid timestamp pid =
     u64_to_be_bytes sid @ u32_to_be_bytes timestamp @ u32_to_be_bytes pid"

definition header_nonce :: "bytes \<Rightarrow> bytes" where
  "header_nonce header = subslice 4 16 header"

text \<open>\<open>encrypt\<close> takes the packet id from a wrapping counter and gives the datagram.  The room for
  the tag is uninitialised memory that the cipher fills; it is zero here.\<close>

definition encrypt ::
  "'c crypto \<Rightarrow> nat \<Rightarrow> bytes \<Rightarrow> 'c securer \<Rightarrow> (decrypt_error, bytes) outcome \<times> 'c securer" where
  "encrypt K secs payload s =
     (case now_timestamp secs of
        None \<Rightarrow> (Panic, s)
      | Some timestamp \<Rightarrow>
          let pid = packet_id (sec_session s);
              header = plain_header (session_id (sec_session s)) timestamp pid;
              body = encrypt_packet K (sec_cipher s) (header_nonce header)
                       (payload @ replicate (tag_len K) 0)
          in (Ok (encrypt_block K (sec_key s) header @ body),
              s\<lparr>sec_session := (sec_session s)\<lparr>packet_id := pid + 1\<rparr>\<rparr>))"

section \<open>Decryption\<close>

text \<open>The session of the peer is the cached one if the id is the same, or a new one that is
  cached once a packet has passed authentication.\<close>

definition authenticate ::
  "'c crypto \<Rightarrow> u64 \<Rightarrow> bytes \<Rightarrow> bytes \<Rightarrow> 'c securer \<Rightarrow> bytes option \<times> 'c securer" where
  "authenticate K sid nonce body s =
     (let fresh = new_peer_session K (sec_key s) sid;
          renew = (case decrypt_packet K (ps_cipher fresh) nonce body of
                     None \<Rightarrow> (None, s)
                   | Some plain \<Rightarrow> (Some plain, s\<lparr>peer_session := Some fresh\<rparr>))
      in case peer_session s of
           Some ps \<Rightarrow>
             if ps_session_id ps = sid then (decrypt_packet K (ps_cipher ps) nonce body, s) else renew
         | None \<Rightarrow> renew)"

definition decrypt ::
  "'c crypto \<Rightarrow> nat \<Rightarrow> bytes \<Rightarrow> 'c securer \<Rightarrow> (decrypt_error, bytes) outcome \<times> 'c securer" where
  "decrypt K secs packet s =
     (if length packet \<le> 16 + tag_len K then (Err (TooSmallPacket (length packet)), s)
      else
        let header = decrypt_block K (sec_key s) (take 16 packet);
            sid = from_be_bytes (subslice 0 8 header);
            timestamp = (from_be_bytes (subslice 8 12 header) :: u32)
        in case authenticate K sid (header_nonce header) (drop 16 packet) s of
             (None, s') \<Rightarrow> (Err InvalidPayload, s')
           | (Some plain, s') \<Rightarrow>
               (case now_timestamp secs of
                  None \<Rightarrow> (Panic, s')
                | Some now \<Rightarrow>
                    let time_diff = uint timestamp - uint now in
                    if time_diff < - 20 \<or> 10 < time_diff then (Err (InvalidTimestamp time_diff), s')
                    else (Ok (take (length packet - 16 - tag_len K) plain), s')))"

section \<open>The header\<close>

lemma length_plain_header [codec_simps, simp]: "length (plain_header sid ts pid) = 16"
  by (simp add: plain_header_def)

lemma plain_header_fields [codec_simps]:
  "subslice 0 8 (plain_header sid ts pid) = u64_to_be_bytes sid"
  "subslice 8 12 (plain_header sid ts pid) = u32_to_be_bytes ts"
  by (simp_all add: plain_header_def subslice_def)

lemma length_header_nonce: "length header = 16 \<Longrightarrow> length (header_nonce header) = 12"
  by (simp add: header_nonce_def)

lemma header_nonce_packet_id:
  "header_nonce (plain_header sid ts pid) =
     drop 4 (u64_to_be_bytes sid) @ u32_to_be_bytes ts @ u32_to_be_bytes pid"
  by (simp add: header_nonce_def plain_header_def subslice_def)

lemma header_nonce_inj:
  assumes "header_nonce (plain_header sid ts pid) = header_nonce (plain_header sid ts' pid')"
  shows "ts = ts' \<and> pid = pid'"
proof -
  from assms have "u32_to_be_bytes ts @ u32_to_be_bytes pid = u32_to_be_bytes ts' @ u32_to_be_bytes pid'"
    by (simp add: header_nonce_packet_id)
  then have "u32_to_be_bytes ts = u32_to_be_bytes ts'" "u32_to_be_bytes pid = u32_to_be_bytes pid'"
    by simp_all
  then show ?thesis by (metis from_to_be_bytes(2))
qed

section \<open>Invariant\<close>

text \<open>The cached ciphers are those of the key and the session ids.\<close>

definition securer_ok :: "'c crypto \<Rightarrow> 'c securer \<Rightarrow> bool" where
  "securer_ok K s \<longleftrightarrow>
     sec_cipher s = cipher_new K (sec_key s) (session_id (sec_session s)) \<and>
     (case peer_session s of
        None \<Rightarrow> True
      | Some ps \<Rightarrow> ps_cipher ps = cipher_new K (sec_key s) (ps_session_id ps))"

lemma new_securer_ok: "new_securer K secret sid pid = Ok s \<Longrightarrow> securer_ok K s \<and> length (sec_key s) = 16"
  by (auto simp: new_securer_def securer_ok_def new_session_def split: sum.splits if_splits)

lemma authenticate_cipher:
  assumes "securer_ok K s"
  shows "authenticate K sid nonce body s =
    (case decrypt_packet K (cipher_new K (sec_key s) sid) nonce body of
       None \<Rightarrow> (None, s)
     | Some plain \<Rightarrow>
         (Some plain, if map_option ps_session_id (peer_session s) = Some sid then s
                      else s\<lparr>peer_session := Some (new_peer_session K (sec_key s) sid)\<rparr>))"
  using assms
  by (auto simp: authenticate_def new_peer_session_def securer_ok_def Let_def split: option.splits)

lemma encrypt_ok:
  "securer_ok K s \<Longrightarrow> encrypt K secs payload s = (res, s') \<Longrightarrow>
     securer_ok K s' \<and> sec_key s' = sec_key s"
  by (auto simp: encrypt_def Let_def securer_ok_def split: option.splits)

lemma decrypt_ok:
  "securer_ok K s \<Longrightarrow> decrypt K secs packet s = (res, s') \<Longrightarrow>
     securer_ok K s' \<and> sec_key s' = sec_key s \<and> sec_session s' = sec_session s"
  by (auto simp: decrypt_def Let_def authenticate_cipher securer_ok_def new_peer_session_def
      split: option.splits if_splits prod.splits)

section \<open>Round trip\<close>

lemma crypto_block:
  "crypto_ok K \<Longrightarrow> length b = 16 \<Longrightarrow>
     length (encrypt_block K k b) = 16 \<and> decrypt_block K k (encrypt_block K k b) = b"
  by (simp add: crypto_ok_def)

lemma crypto_packet_length: "crypto_ok K \<Longrightarrow> length (encrypt_packet K c n b) = length b"
  by (simp add: crypto_ok_def)

lemma crypto_packet:
  assumes "crypto_ok K"
  obtains t where "length t = tag_len K"
    "decrypt_packet K c n (encrypt_packet K c n (p @ replicate (tag_len K) 0)) = Some (p @ t)"
    "length (encrypt_packet K c n (p @ replicate (tag_len K) 0)) = length p + tag_len K"
proof -
  have "length (replicate (tag_len K) (0::u8)) = tag_len K" by simp
  with assms obtain t where "length t = tag_len K"
    "decrypt_packet K c n (encrypt_packet K c n (p @ replicate (tag_len K) 0)) = Some (p @ t)"
    unfolding crypto_ok_def by blast
  moreover have "length (encrypt_packet K c n (p @ replicate (tag_len K) 0)) = length p + tag_len K"
    using crypto_packet_length [OF assms] by simp
  ultimately show ?thesis using that by blast
qed

text \<open>The two ends share the key and each holds a consistent cache.\<close>

definition linked :: "'c crypto \<Rightarrow> 'c securer \<Rightarrow> 'c securer \<Rightarrow> bool" where
  "linked K s r \<longleftrightarrow> crypto_ok K \<and> securer_ok K s \<and> securer_ok K r \<and> sec_key s = sec_key r"

lemma encrypt_length:
  "crypto_ok K \<Longrightarrow> encrypt K secs payload s = (Ok d, s') \<Longrightarrow>
     length d = length payload + 16 + tag_len K"
  by (auto simp: encrypt_def Let_def crypto_block crypto_packet_length split: option.splits)

text \<open>A datagram of the peer, at whatever time: what \<open>decrypt\<close> answers depends on the clocks
  only.\<close>

lemma decrypt_encrypt:
  assumes link: "linked K s r" and enc: "encrypt K secs payload s = (Ok d, s')"
    and payload: "payload \<noteq> []" and now: "secs' < 2 ^ 32"
  shows "\<exists>r'. decrypt K secs' d r =
      ((if int secs - int secs' < - 20 \<or> 10 < int secs - int secs'
        then Err (InvalidTimestamp (int secs - int secs')) else Ok payload), r') \<and>
    linked K s' r' \<and> map_option ps_session_id (peer_session r') = Some (session_id (sec_session s))"
proof -
  note K = link [unfolded linked_def, THEN conjunct1]
  have ok: "securer_ok K s" "securer_ok K r" and key: "sec_key s = sec_key r"
    using link by (simp_all add: linked_def)
  let ?sid = "session_id (sec_session s)" and ?pid = "packet_id (sec_session s)"
  let ?h = "plain_header ?sid (word_of_nat secs) ?pid"
  let ?c = "cipher_new K (sec_key r) ?sid"
  have secs: "secs < 2 ^ 32" and d: "d = encrypt_block K (sec_key s) ?h @
      encrypt_packet K ?c (header_nonce ?h) (payload @ replicate (tag_len K) 0)"
    and s': "s' = s\<lparr>sec_session := (sec_session s)\<lparr>packet_id := ?pid + 1\<rparr>\<rparr>"
    using enc ok key by (auto simp: encrypt_def now_timestamp_def Let_def securer_ok_def split: if_splits)
  obtain t where t: "length t = tag_len K"
    "decrypt_packet K ?c (header_nonce ?h)
       (encrypt_packet K ?c (header_nonce ?h) (payload @ replicate (tag_len K) 0)) = Some (payload @ t)"
    "length (encrypt_packet K ?c (header_nonce ?h) (payload @ replicate (tag_len K) 0)) =
       length payload + tag_len K"
    by (rule crypto_packet [OF K])
  have blk: "length (encrypt_block K (sec_key s) ?h) = 16"
    "decrypt_block K (sec_key s) (encrypt_block K (sec_key s) ?h) = ?h"
    using crypto_block [OF K length_plain_header] by blast+
  have hdr: "decrypt_block K (sec_key r) (take 16 d) = ?h"
    using blk d key by simp
  have body: "drop 16 d = encrypt_packet K ?c (header_nonce ?h) (payload @ replicate (tag_len K) 0)"
    using blk(1) d by simp
  have len: "length d = length payload + 16 + tag_len K"
    using encrypt_length [OF K enc] .
  define r' where "r' = (if map_option ps_session_id (peer_session r) = Some ?sid then r
    else r\<lparr>peer_session := Some (new_peer_session K (sec_key r) ?sid)\<rparr>)"
  have auth: "authenticate K ?sid (header_nonce ?h) (drop 16 d) r = (Some (payload @ t), r')"
    using authenticate_cipher [OF ok(2)] t(2) body by (simp add: r'_def)
  have ts: "uint (word_of_nat secs :: u32) = int secs" "uint (word_of_nat secs' :: u32) = int secs'"
    using secs now by (simp_all add: uint_nat unsigned_of_nat take_bit_nat_eq_self)
  have "decrypt K secs' d r = ((if int secs - int secs' < - 20 \<or> 10 < int secs - int secs'
        then Err (InvalidTimestamp (int secs - int secs')) else Ok payload), r')"
    using len payload auth hdr now t(1) ts
    by (simp add: decrypt_def plain_header_fields Let_def now_timestamp_def)
  moreover have "securer_ok K r'" "sec_key r' = sec_key r"
    using ok(2) by (auto simp: r'_def securer_ok_def new_peer_session_def)
  then have "linked K s' r'"
    using K key encrypt_ok [OF ok(1) enc] by (simp add: linked_def)
  moreover have "map_option ps_session_id (peer_session r') = Some ?sid"
    by (simp add: r'_def new_peer_session_def)
  ultimately show ?thesis by blast
qed

text \<open>A run of \<open>encrypt\<close>: the datagrams of a list of times and payloads.  Packet ids run through the whole
  \<open>u32\<close> range before one comes again.\<close>

fun encrypt_all ::
  "'c crypto \<Rightarrow> (nat \<times> bytes) list \<Rightarrow> 'c securer \<Rightarrow> (decrypt_error, bytes list) outcome \<times> 'c securer" where
  "encrypt_all K [] s = (Ok [], s)"
| "encrypt_all K ((secs, payload) # rest) s =
     (case encrypt K secs payload s of
        (Ok d, s') \<Rightarrow> map_prod (\<lambda>r. and_then r (\<lambda>ds. Ok (d # ds))) id (encrypt_all K rest s')
      | (Err e, s') \<Rightarrow> (Err e, s')
      | (Panic, s') \<Rightarrow> (Panic, s')
      | (Pending, s') \<Rightarrow> (Pending, s'))"

text \<open>The nonce that the header of a datagram carries to the receiver.\<close>

definition datagram_nonce :: "'c crypto \<Rightarrow> bytes \<Rightarrow> bytes \<Rightarrow> bytes" where
  "datagram_nonce K key d = header_nonce (decrypt_block K key (take 16 d))"

lemma encrypt_datagram:
  assumes "crypto_ok K" "secs < 2 ^ 32"
  obtains d where
    "encrypt K secs payload s = (Ok d, s\<lparr>sec_session := (sec_session s)\<lparr>packet_id := packet_id (sec_session s) + 1\<rparr>\<rparr>)"
    "datagram_nonce K (sec_key s) d =
       header_nonce (plain_header (session_id (sec_session s)) (word_of_nat secs) (packet_id (sec_session s)))"
    "drop 16 d = encrypt_packet K (sec_cipher s) (datagram_nonce K (sec_key s) d) (payload @ replicate (tag_len K) 0)"
  using assms crypto_block [OF assms(1) length_plain_header]
  by (auto simp: encrypt_def now_timestamp_def datagram_nonce_def Let_def)

lemma word_add_nat_eq_0:
  "0 < n \<Longrightarrow> n < 2 ^ 32 \<Longrightarrow> (w :: u32) + word_of_nat n \<noteq> w"
  by (simp add: word_of_nat_eq_0_iff dvd_def) (metis nat_dvd_not_less dvd_triv_left numeral_plus_numeral)

text \<open>The \<open>k\<close>-th datagram has the \<open>k\<close>-th packet id in its nonce, and its body is made with that nonce.\<close>

lemma encrypt_all_datagrams:
  assumes "crypto_ok K" "\<forall>(secs, payload) \<in> set ps. secs < 2 ^ 32"
  shows "\<exists>ds s'. encrypt_all K ps s = (Ok ds, s') \<and> length ds = length ps \<and>
    (\<forall>k < length ps. \<exists>timestamp. datagram_nonce K (sec_key s) (ds ! k) =
        header_nonce (plain_header (session_id (sec_session s)) timestamp (packet_id (sec_session s) + word_of_nat k)) \<and>
      drop 16 (ds ! k) = encrypt_packet K (sec_cipher s) (datagram_nonce K (sec_key s) (ds ! k))
        (snd (ps ! k) @ replicate (tag_len K) 0))"
  using assms(2)
proof (induction ps arbitrary: s)
  case (Cons p ps)
  obtain secs payload where p: "p = (secs, payload)" by fastforce
  with Cons.prems have "secs < 2 ^ 32" by simp
  from encrypt_datagram [OF assms(1) this, of payload s] obtain d where
    d: "encrypt K secs payload s = (Ok d, s\<lparr>sec_session := (sec_session s)\<lparr>packet_id := packet_id (sec_session s) + 1\<rparr>\<rparr>)"
      (is "_ = (_, ?s)")
    and first: "\<exists>timestamp. datagram_nonce K (sec_key s) d =
        header_nonce (plain_header (session_id (sec_session s)) timestamp (packet_id (sec_session s)))"
      "drop 16 d = encrypt_packet K (sec_cipher s) (datagram_nonce K (sec_key s) d) (payload @ replicate (tag_len K) 0)"
    by metis
  from Cons.IH [of ?s] Cons.prems obtain ds s' where ds: "encrypt_all K ps ?s = (Ok ds, s')" "length ds = length ps"
    "\<forall>k < length ps. \<exists>timestamp. datagram_nonce K (sec_key s) (ds ! k) =
        header_nonce (plain_header (session_id (sec_session s)) timestamp (packet_id (sec_session s) + 1 + word_of_nat k)) \<and>
      drop 16 (ds ! k) = encrypt_packet K (sec_cipher s) (datagram_nonce K (sec_key s) (ds ! k))
        (snd (ps ! k) @ replicate (tag_len K) 0)" by auto
  show ?case
  proof (intro exI [of _ "d # ds"] exI [of _ s'] conjI allI impI)
    show "encrypt_all K (p # ps) s = (Ok (d # ds), s')" by (simp add: p d ds(1))
    show "length (d # ds) = length (p # ps)" by (simp add: ds(2))
    fix k assume "k < length (p # ps)"
    then show "\<exists>timestamp. datagram_nonce K (sec_key s) ((d # ds) ! k) =
        header_nonce (plain_header (session_id (sec_session s)) timestamp (packet_id (sec_session s) + word_of_nat k)) \<and>
      drop 16 ((d # ds) ! k) = encrypt_packet K (sec_cipher s) (datagram_nonce K (sec_key s) ((d # ds) ! k))
        (snd ((p # ps) ! k) @ replicate (tag_len K) 0)"
      using first ds(3) by (cases k) (simp_all add: p ac_simps)
  qed
qed simp

lemma packet_ids_distinct:
  assumes "i < j" "j < 2 ^ 32"
  shows "(w :: u32) + word_of_nat i \<noteq> w + word_of_nat j"
proof -
  have "w + word_of_nat i + word_of_nat (j - i) = w + word_of_nat j"
    using assms(1) by (simp add: add.assoc flip: of_nat_add)
  moreover have "w + word_of_nat i + word_of_nat (j - i) \<noteq> w + word_of_nat i"
    using assms by (intro word_add_nat_eq_0) simp_all
  ultimately show ?thesis by metis
qed

lemma decrypt_rejects:
  assumes "securer_ok K r"
    "length d \<le> 16 + tag_len K \<or>
     decrypt_packet K (cipher_new K (sec_key r) (from_be_bytes (subslice 0 8 (decrypt_block K (sec_key r) (take 16 d)))))
       (header_nonce (decrypt_block K (sec_key r) (take 16 d))) (drop 16 d) = None"
  shows "decrypt K secs d r =
    (Err (if length d \<le> 16 + tag_len K then TooSmallPacket (length d) else InvalidPayload), r)"
  using assms by (auto simp: decrypt_def Let_def authenticate_cipher)

section \<open>A concrete instance of the crates' interface\<close>

text \<open>Ciphers that satisfy \<open>crypto_ok\<close>, to apply the properties at: the block cipher adds one to
  each byte, and the tag repeats the low byte of the session id.\<close>

definition demo_crypto :: "u64 crypto" where
  "demo_crypto =
     \<lparr>key_len = 16, tag_len = 16,
      base64_decode = (\<lambda>s. Some (as_bytes s)),
      cipher_new = (\<lambda>k sid. sid),
      encrypt_packet = (\<lambda>c n b. if length b < 16 then b
                               else take (length b - 16) b @ replicate 16 (ucast c)),
      decrypt_packet = (\<lambda>c n b. if drop (length b - 16) b = replicate 16 (ucast c) then Some b else None),
      encrypt_block = (\<lambda>k. map (\<lambda>x. x + 1)),
      decrypt_block = (\<lambda>k. map (\<lambda>x. x - 1))\<rparr>"

lemma demo_crypto_ok: "crypto_ok demo_crypto"
proof -
  have "\<exists>t'. length t' = 16 \<and>
      decrypt_packet demo_crypto c n (encrypt_packet demo_crypto c n (p @ t)) = Some (p @ t')"
    if "length t = 16" for c n p t
    using that by (intro exI [of _ "replicate 16 (ucast c)"]) (simp add: demo_crypto_def)
  then show ?thesis
    by (auto simp: crypto_ok_def demo_crypto_def comp_def split: if_splits)
qed

definition demo_securer :: "u64 \<Rightarrow> u32 \<Rightarrow> u64 securer" where
  "demo_securer sid pid =
     \<lparr>sec_key = replicate 16 7, sec_session = new_session sid pid, sec_cipher = sid,
      peer_session = None\<rparr>"

lemma demo_linked: "linked demo_crypto (demo_securer a b) (demo_securer c d)"
  using demo_crypto_ok
  by (simp add: linked_def demo_securer_def securer_ok_def demo_crypto_def new_session_def)

section \<open>Properties\<close>

text \<open>C20: round trip and time window.  Whatever peer session the receiver has cached, a datagram
  of a peer with the same key decrypts to its payload if and only if its timestamp is at most
  20 seconds behind and at most 10 seconds ahead of the receiver's clock; outside the window
  the difference is reported.  The receiver then has the sender's session cached, and the two
  ends stay linked.\<close>
theorem securer_roundtrip:
  assumes "linked K s r" "payload \<noteq> []" "secs < 2 ^ 32" "secs' < 2 ^ 32"
  shows "\<exists>d s' r'. encrypt K secs payload s = (Ok d, s') \<and>
    length d = length payload + 16 + tag_len K \<and>
    decrypt K secs' d r =
      ((if int secs - int secs' < - 20 \<or> 10 < int secs - int secs'
        then Err (InvalidTimestamp (int secs - int secs')) else Ok payload), r') \<and>
    linked K s' r' \<and> map_option ps_session_id (peer_session r') = Some (session_id (sec_session s))"
proof -
  obtain d s' where enc: "encrypt K secs payload s = (Ok d, s')"
    using assms(3) by (auto simp: encrypt_def now_timestamp_def Let_def)
  have "length d = length payload + 16 + tag_len K"
    using encrypt_length [OF _ enc] assms(1) by (simp add: linked_def)
  with enc decrypt_encrypt [OF assms(1) enc assms(2,4)] show ?thesis by blast
qed

lemma securer_roundtrip_witness:
  "\<exists>d s' r'. encrypt demo_crypto 1000 [69, 1] (demo_securer 5 4294967295) = (Ok d, s') \<and>
     length d = 34 \<and> decrypt demo_crypto 1020 d (demo_securer 9 3) = (Ok [69, 1], r') \<and>
     linked demo_crypto s' r'"
proof -
  have "([69, 1] :: bytes) \<noteq> []" "(1000 :: nat) < 2 ^ 32" "(1020 :: nat) < 2 ^ 32"
    "tag_len demo_crypto = 16" by (simp_all add: demo_crypto_def)
  with securer_roundtrip [OF demo_linked this(1-3), of 5 4294967295 9 3] show ?thesis by auto
qed

text \<open>C33: authenticity.  A datagram that is too short, or whose body does not authenticate under
  the session its header names, is rejected, and it leaves the receiver's state as it was: an
  attacker without the key cannot replace the cached peer session.\<close>
theorem securer_authenticity:
  assumes "securer_ok K r" "decrypt K secs d r = (res, r')"
    "(\<exists>payload. res = Ok payload) \<or> r' \<noteq> r"
  shows "16 + tag_len K < length d \<and>
    (\<exists>plain. decrypt_packet K
      (cipher_new K (sec_key r) (from_be_bytes (subslice 0 8 (decrypt_block K (sec_key r) (take 16 d)))))
      (header_nonce (decrypt_block K (sec_key r) (take 16 d))) (drop 16 d) = Some plain \<and>
      (\<forall>payload. res = Ok payload \<longrightarrow> payload = take (length d - 16 - tag_len K) plain))"
proof -
  let ?h = "decrypt_block K (sec_key r) (take 16 d)"
  let ?open = "decrypt_packet K (cipher_new K (sec_key r) (from_be_bytes (subslice 0 8 ?h)))
    (header_nonce ?h) (drop 16 d)"
  have good: "\<not> (length d \<le> 16 + tag_len K \<or> ?open = None)"
    using decrypt_rejects [OF assms(1), of d secs] assms(2,3) by auto
  then obtain plain where plain: "?open = Some plain" by auto
  have "\<forall>payload. res = Ok payload \<longrightarrow> payload = take (length d - 16 - tag_len K) plain"
    using assms(1,2) good plain
    by (auto simp: decrypt_def Let_def authenticate_cipher split: option.splits if_splits)
  with good plain show ?thesis by auto
qed

lemma securer_authenticity_witness:
  "\<exists>d r'. decrypt demo_crypto 1020 d (demo_securer 9 3) = (Ok [69, 1], r') \<and>
    16 + tag_len demo_crypto < length d"
proof -
  have ok: "securer_ok demo_crypto (demo_securer 9 3)"
    using demo_linked [of 9 3 9 3] by (simp add: linked_def)
  obtain d s' where enc: "encrypt demo_crypto 1000 [69, 1] (demo_securer 5 6) = (Ok d, s')"
    by (simp add: encrypt_def now_timestamp_def Let_def)
  obtain r' where dec: "decrypt demo_crypto 1020 d (demo_securer 9 3) = (Ok [69, 1], r')"
    using decrypt_encrypt [OF demo_linked enc, of 1020 9 3] by auto
  from securer_authenticity [OF ok dec] dec show ?thesis by blast
qed

text \<open>C40: nonces.  Of up to \<open>2\<^sup>3\<^sup>2\<close> datagrams that a session encrypts one after the other, at whatever
  times, no two have the same nonce, so that the cipher of the session is never used twice with one:
  the body of each is its payload encrypted with the very nonce that the receiver reads off its header.\<close>
theorem securer_nonce_fresh:
  assumes "crypto_ok K" "\<forall>(secs, payload) \<in> set ps. secs < 2 ^ 32" "length ps \<le> 2 ^ 32"
  shows "\<exists>ds s'. encrypt_all K ps s = (Ok ds, s') \<and> length ds = length ps \<and>
    distinct (map (datagram_nonce K (sec_key s)) ds) \<and>
    (\<forall>k < length ds. drop 16 (ds ! k) = encrypt_packet K (sec_cipher s) (datagram_nonce K (sec_key s) (ds ! k))
       (snd (ps ! k) @ replicate (tag_len K) 0))"
proof -
  let ?nonce = "datagram_nonce K (sec_key s)"
  obtain ds s' where ds: "encrypt_all K ps s = (Ok ds, s')" "length ds = length ps"
    "\<forall>k < length ps. \<exists>timestamp. ?nonce (ds ! k) =
        header_nonce (plain_header (session_id (sec_session s)) timestamp (packet_id (sec_session s) + word_of_nat k)) \<and>
      drop 16 (ds ! k) = encrypt_packet K (sec_cipher s) (?nonce (ds ! k)) (snd (ps ! k) @ replicate (tag_len K) 0)"
    using encrypt_all_datagrams [OF assms(1,2), of s] by blast
  have differ: "?nonce (ds ! i) \<noteq> ?nonce (ds ! j)" if "i < j" "j < length ds" for i j
  proof -
    have "packet_id (sec_session s) + word_of_nat i \<noteq> packet_id (sec_session s) + word_of_nat j"
      using that assms(3) ds(2) by (intro packet_ids_distinct) simp_all
    moreover have "i < length ps" "j < length ps" using that ds(2) by simp_all
    then obtain ti tj where
      "?nonce (ds ! i) = header_nonce (plain_header (session_id (sec_session s)) ti (packet_id (sec_session s) + word_of_nat i))"
      "?nonce (ds ! j) = header_nonce (plain_header (session_id (sec_session s)) tj (packet_id (sec_session s) + word_of_nat j))"
      using ds(3) by blast
    ultimately show ?thesis using header_nonce_inj by fastforce
  qed
  have "distinct (map ?nonce ds)"
    using differ by (auto simp: distinct_conv_nth) (metis linorder_neqE_nat)
  with ds show ?thesis by metis
qed

lemma securer_nonce_fresh_witness:
  "\<exists>d e s'. encrypt_all demo_crypto [(1000, [1]), (1000, [1])] (demo_securer 5 4294967295) = (Ok [d, e], s') \<and>
     datagram_nonce demo_crypto (replicate 16 7) d \<noteq> datagram_nonce demo_crypto (replicate 16 7) e"
proof -
  let ?ps = "[(1000, [1]), (1000, [1])] :: (nat \<times> bytes) list"
  have key: "sec_key (demo_securer 5 4294967295) = replicate 16 7" by (simp add: demo_securer_def)
  have "\<forall>(secs, payload) \<in> set ?ps. secs < 2 ^ 32" "length ?ps \<le> 2 ^ 32" by simp_all
  from securer_nonce_fresh [OF demo_crypto_ok this, of "demo_securer 5 4294967295"] obtain ds s' where
    ds: "encrypt_all demo_crypto ?ps (demo_securer 5 4294967295) = (Ok ds, s')" "length ds = length ?ps"
    "distinct (map (datagram_nonce demo_crypto (replicate 16 7)) ds)"
    unfolding key by blast
  from ds(2) obtain d e where de: "ds = [d, e]" by (auto simp: length_Suc_conv)
  have "datagram_nonce demo_crypto (replicate 16 7) d \<noteq> datagram_nonce demo_crypto (replicate 16 7) e"
    using ds(3) unfolding de list.map distinct_length_2_or_more by (rule conjunct1)
  with ds(1) show ?thesis unfolding de by blast
qed

end
