(* ===== verification/Udp.thy ===== *)
theory Udp imports Net Securer Stat Transport begin

unbundle bit_operations_syntax

text \<open>
  \<open>src/src/transport/udp/mod.rs\<close>: the UDP transport.  Each end tells the other, in one bit of
  every datagram, whether it hears it; a keep-alive goes out when nothing else has for three
  seconds; an end is connected while it hears that it is heard.

  The field \<open>udp_wire\<close> is what the socket has taken so far: each datagram with its destination, in order.
  The state behind the mutex is \<open>udp_state\<close>.  \<open>receive_message\<close> is one round of \<open>receiver\<close>,
  \<open>pinger_wake\<close> and \<open>pinger_sent\<close> are the two halves of a round of \<open>pinger\<close> (before and after
  the datagram is on its way), \<open>send_begin\<close> and \<open>send_end\<close> those of \<open>send\<close>, so that rounds of
  the three tasks can interleave where the code awaits.  The two clocks (the monotonic one and
  the system's, in seconds) and what the socket returns are arguments.

  The datagram layer below is optional encryption: \<open>seal_datagram\<close> and \<open>open_datagram\<close>, whose
  contract is the locale \<open>datagram_link\<close>.
\<close>

section \<open>Constants and state\<close>

definition INGRESS_STATE_MARKER :: u8 where "INGRESS_STATE_MARKER = push_bit 4 1"
definition KEEP_ALIVE_INTERVAL :: duration where "KEEP_ALIVE_INTERVAL = from_secs 3"
definition KEEP_ALIVE_TIMEOUT :: duration where "KEEP_ALIVE_TIMEOUT = from_secs 10"

record ingress_packet =
  ingress_time :: instant
  egress_works :: bool

record udp_state =
  last_ingress_packet :: "ingress_packet option"
  last_egress_packet_time :: "instant option"
  needs_connection_acknowledge :: bool

definition new_state :: udp_state where
  "new_state = \<lparr>last_ingress_packet = None, last_egress_packet_time = None,
     needs_connection_acknowledge = False\<rparr>"

definition is_timed_out :: "ingress_packet \<Rightarrow> instant \<Rightarrow> bool" where
  "is_timed_out p now \<longleftrightarrow> KEEP_ALIVE_TIMEOUT \<le> duration_since now (ingress_time p)"

definition state_connected :: "udp_state \<Rightarrow> instant \<Rightarrow> bool" where
  "state_connected st now =
     (case last_ingress_packet st of
        Some p \<Rightarrow> egress_works p \<and> \<not> is_timed_out p now
      | None \<Rightarrow> False)"

text \<open>Whether this end currently hears its peer: the marker it sends.\<close>

definition ingress_works :: "udp_state \<Rightarrow> instant \<Rightarrow> bool" where
  "ingress_works st now =
     (case last_ingress_packet st of Some p \<Rightarrow> \<not> is_timed_out p now | None \<Rightarrow> False)"

record 'c udp_transport =
  udp_name :: string
  udp_labels :: labels
  udp_securer :: "'c securer option"
  udp_peer_address :: socket_addr
  udp_state :: udp_state
  ping_needed :: bool
  udp_stat :: conn_stat
  udp_wire :: "(socket_addr \<times> bytes) list"

definition new_udp_transport ::
  "string \<Rightarrow> 'c securer option \<Rightarrow> socket_addr \<Rightarrow> 'c udp_transport" where
  "new_udp_transport name sec peer =
     \<lparr>udp_name = name, udp_labels = transport_labels name, udp_securer = sec,
      udp_peer_address = peer, udp_state = new_state, ping_needed = False,
      udp_stat = new_stat name name, udp_wire = []\<rparr>"

section \<open>Datagrams\<close>

definition seal_datagram ::
  "'c crypto \<Rightarrow> nat \<Rightarrow> bytes \<Rightarrow> 'c securer option \<Rightarrow> (decrypt_error, bytes) outcome \<times> 'c securer option" where
  "seal_datagram K secs packet sec =
     (case sec of
        Some s \<Rightarrow> (case encrypt K secs packet s of (r, s') \<Rightarrow> (r, Some s'))
      | None \<Rightarrow> (Ok packet, None))"

definition open_datagram ::
  "'c crypto \<Rightarrow> nat \<Rightarrow> bytes \<Rightarrow> 'c securer option \<Rightarrow> (decrypt_error, bytes) outcome \<times> 'c securer option" where
  "open_datagram K secs packet sec =
     (case sec of
        Some s \<Rightarrow> (case decrypt K secs packet s of (r, s') \<Rightarrow> (r, Some s'))
      | None \<Rightarrow> (Ok packet, None))"

section \<open>Receiving\<close>

datatype udp_verdict =
    UnknownPeer
  | EmptyMessage
  | TooBigMessage
  | DroppedPacket decrypt_error
  | KeepAlive bool
  | Deliver bytes

definition max_message_size :: nat where
  "max_message_size = MTU - IPV4_HEADER_SIZE - UDP_HEADER_SIZE"

text \<open>The part of \<open>on_ingress_packet\<close> under the lock: the new state, and whether the packet is
  the first one after a silence, which wakes the pinger.\<close>

definition ingress_state :: "instant \<Rightarrow> bool \<Rightarrow> udp_state \<Rightarrow> bool \<times> udp_state" where
  "ingress_state now works st =
     (let is_first_packet = (case last_ingress_packet st of
            Some prev \<Rightarrow> is_timed_out prev now | None \<Rightarrow> True)
      in (is_first_packet,
          st\<lparr>needs_connection_acknowledge :=
               (if is_first_packet then True else needs_connection_acknowledge st),
             last_ingress_packet := Some \<lparr>ingress_time = now, egress_works = works\<rparr>\<rparr>))"

definition on_ingress_packet :: "instant \<Rightarrow> bool \<Rightarrow> 'c udp_transport \<Rightarrow> 'c udp_transport" where
  "on_ingress_packet now works t =
     (case ingress_state now works (udp_state t) of
        (is_first_packet, st) \<Rightarrow>
          t\<lparr>udp_state := st, ping_needed := (if is_first_packet then True else ping_needed t)\<rparr>)"

definition on_egress_packet :: "instant \<Rightarrow> 'c udp_transport \<Rightarrow> 'c udp_transport" where
  "on_egress_packet now t =
     t\<lparr>udp_state := (udp_state t)\<lparr>last_egress_packet_time := Some now\<rparr>\<rparr>"

text \<open>\<open>send_to\<close> of the socket, which takes a datagram whole or fails.\<close>

definition send_to :: "bytes \<Rightarrow> string + nat \<Rightarrow> 'c udp_transport \<Rightarrow> 'c udp_transport" where
  "send_to datagram result t =
     (case result of
        Inr n \<Rightarrow> t\<lparr>udp_wire := udp_wire t @ [(udp_peer_address t, datagram)]\<rparr>
      | Inl err \<Rightarrow> t)"

text \<open>The first byte carries the marker; an empty packet would panic.\<close>

fun split_marker :: "bytes \<Rightarrow> (bool \<times> bytes) option" where
  "split_marker [] = None"
| "split_marker (b # bs) =
     Some (b AND INGRESS_STATE_MARKER \<noteq> 0, (b AND NOT INGRESS_STATE_MARKER) # bs)"

text \<open>One round of \<open>receiver\<close> on what \<open>recv_from\<close> returned.  The buffer is one byte longer than
  the largest message, so a longer datagram is recognised by its truncation.  An error ends
  the receiver (\<open>Err\<close>); a delivered packet goes to the tunnel.\<close>

definition receive_message ::
  "'c crypto \<Rightarrow> instant \<Rightarrow> nat \<Rightarrow> string + socket_addr \<times> bytes \<Rightarrow> 'c udp_transport
    \<Rightarrow> (string, udp_verdict) outcome \<times> 'c udp_transport" where
  "receive_message K now secs received t =
     (case received of
        Inl err \<Rightarrow> (Err err, t)
      | Inr (peer_address, datagram) \<Rightarrow>
          let msg = take (max_message_size + 1) datagram in
          if udp_securer t \<noteq> None \<and> peer_address \<noteq> udp_peer_address t then (Ok UnknownPeer, t)
          else if length msg = 0 then (Ok EmptyMessage, t)
          else if max_message_size < length msg then (Ok TooBigMessage, t)
          else case open_datagram K secs msg (udp_securer t) of
            (Err e, sec) \<Rightarrow> (Ok (DroppedPacket e), t\<lparr>udp_securer := sec\<rparr>)
          | (Panic, sec) \<Rightarrow> (Panic, t\<lparr>udp_securer := sec\<rparr>)
          | (Pending, sec) \<Rightarrow> (Pending, t\<lparr>udp_securer := sec\<rparr>)
          | (Ok packet, sec) \<Rightarrow>
              (case split_marker packet of
                 None \<Rightarrow> (Panic, t\<lparr>udp_securer := sec\<rparr>)
               | Some (works, packet') \<Rightarrow>
                   let t' = on_ingress_packet now works (t\<lparr>udp_securer := sec\<rparr>) in
                   if length packet' = 1 then (Ok (KeepAlive works), t')
                   else (Ok (Deliver packet'),
                         t'\<lparr>udp_stat := on_packet_received packet' (udp_stat t')\<rparr>)))"

section \<open>Keep-alives\<close>

text \<open>What the pinger decides under the lock: \<open>None\<close> to go on waiting, or the message's marker;
  and when it will look again.\<close>

definition pinger_check :: "instant \<Rightarrow> instant \<Rightarrow> udp_state \<Rightarrow> bool option \<times> instant \<times> udp_state" where
  "pinger_check now next_ping st =
     (if needs_connection_acknowledge st then
        (Some (ingress_works st now), next_ping, st\<lparr>needs_connection_acknowledge := False\<rparr>)
      else case last_egress_packet_time st of
          Some prev \<Rightarrow>
            if now < prev + KEEP_ALIVE_INTERVAL then (None, prev + KEEP_ALIVE_INTERVAL, st)
            else (Some (ingress_works st now), prev + KEEP_ALIVE_INTERVAL, st)
        | None \<Rightarrow> (Some (ingress_works st now), next_ping, st))"

definition ping_message :: "bool \<Rightarrow> bytes" where
  "ping_message works = [if works then INGRESS_STATE_MARKER else 0]"

text \<open>The pinger wakes when its time has come or a notification is there, which it then takes.
  The result is the datagram to send, if any, and the new wake-up time.\<close>

definition pinger_wake ::
  "'c crypto \<Rightarrow> instant \<Rightarrow> nat \<Rightarrow> bool \<Rightarrow> instant \<Rightarrow> 'c udp_transport
    \<Rightarrow> (decrypt_error, bytes option) outcome \<times> instant \<times> 'c udp_transport" where
  "pinger_wake K now secs notified next_ping t =
     (let t1 = (if notified then t\<lparr>ping_needed := False\<rparr> else t) in
      case pinger_check now next_ping (udp_state t1) of
        (None, next', st) \<Rightarrow> (Ok None, next', t1\<lparr>udp_state := st\<rparr>)
      | (Some works, next', st) \<Rightarrow>
          (case seal_datagram K secs (ping_message works) (udp_securer t1) of
             (r, sec) \<Rightarrow>
               (and_then r (\<lambda>d. Ok (Some d)), next', t1\<lparr>udp_state := st, udp_securer := sec\<rparr>)))"

definition pinger_sent ::
  "instant \<Rightarrow> bytes \<Rightarrow> string + nat \<Rightarrow> 'c udp_transport \<Rightarrow> instant \<times> 'c udp_transport" where
  "pinger_sent send_time datagram result t =
     (send_time + KEEP_ALIVE_INTERVAL, on_egress_packet send_time (send_to datagram result t))"

section \<open>Sending\<close>

text \<open>The marker is put into the packet in place; a packet without a first byte would panic.\<close>

definition mark_packet :: "bool \<Rightarrow> bytes \<Rightarrow> bytes option" where
  "mark_packet works packet =
     (if works then
        (case packet of [] \<Rightarrow> None | b # bs \<Rightarrow> Some ((b OR INGRESS_STATE_MARKER) # bs))
      else Some packet)"

definition send_begin ::
  "'c crypto \<Rightarrow> instant \<Rightarrow> nat \<Rightarrow> bytes \<Rightarrow> 'c udp_transport
    \<Rightarrow> (decrypt_error, bytes \<times> bytes) outcome \<times> 'c udp_transport" where
  "send_begin K now secs packet t =
     (case mark_packet (ingress_works (udp_state t) now) packet of
        None \<Rightarrow> (Panic, t)
      | Some marked \<Rightarrow>
          (case seal_datagram K secs marked (udp_securer t) of
             (r, sec) \<Rightarrow> (and_then r (\<lambda>d. Ok (marked, d)), t\<lparr>udp_securer := sec\<rparr>)))"

definition send_end ::
  "instant \<Rightarrow> bytes \<Rightarrow> bytes \<Rightarrow> string + nat \<Rightarrow> 'c udp_transport \<Rightarrow> (string, unit) outcome \<times> 'c udp_transport" where
  "send_end now packet datagram result t =
     (let t1 = on_egress_packet now (send_to datagram result t) in
      case result of
        Inl err \<Rightarrow> (Err err, t1\<lparr>udp_stat := on_packet_dropped (udp_stat t1)\<rparr>)
      | Inr n \<Rightarrow> (Ok (), t1\<lparr>udp_stat := on_packet_sent packet (udp_stat t1)\<rparr>))"

section \<open>The transport\<close>

definition udp_direction :: "'c udp_transport \<Rightarrow> transport_direction" where
  "udp_direction t = dir_all"

definition udp_connected :: "instant \<Rightarrow> 'c udp_transport \<Rightarrow> bool" where
  "udp_connected now t = state_connected (udp_state t) now"

definition udp_ready_for_sending :: "instant \<Rightarrow> 'c udp_transport \<Rightarrow> bool" where
  "udp_ready_for_sending now t = udp_connected now t"

definition udp_collect ::
  "(sample \<Rightarrow> 'enc \<Rightarrow> 'enc option) \<Rightarrow> socket_probe \<Rightarrow> 'c udp_transport \<Rightarrow> 'enc \<Rightarrow> 'enc option" where
  "udp_collect emit probe t enc =
     Option.bind (collect_stat emit (udp_stat t) enc) (collect_udp_socket emit (udp_stat t) probe)"

text \<open>At every instant the UDP transport keeps the contract of a connection.\<close>

interpretation udp: connection_transport udp_direction "udp_ready_for_sending now" "udp_connected now"
  for now
  by unfold_locales (simp_all add: udp_direction_def udp_ready_for_sending_def)

section \<open>The datagram layer\<close>

text \<open>The contract of the layer below: between two ends that are linked and whose clocks agree
  within the window, a packet arrives as it was sent, in a datagram that is longer by a fixed
  amount.\<close>

definition clocks_ok :: "nat \<Rightarrow> nat \<Rightarrow> bool" where
  "clocks_ok secs secs' \<longleftrightarrow> secs < 2 ^ 32 \<and> secs' < 2 ^ 32 \<and>
     - 20 \<le> int secs - int secs' \<and> int secs - int secs' \<le> 10"

definition marker_free :: "bytes \<Rightarrow> bool" where
  "marker_free p \<longleftrightarrow> (case p of [] \<Rightarrow> False | b # bs \<Rightarrow> b AND INGRESS_STATE_MARKER = 0)"

lemma bit_marker [simp]: "bit INGRESS_STATE_MARKER n \<longleftrightarrow> n = 4"
  unfolding INGRESS_STATE_MARKER_def bit_push_bit_iff by (auto simp: bit_1_iff)

lemma marker_nonzero [simp]: "INGRESS_STATE_MARKER \<noteq> 0"
  by (simp add: INGRESS_STATE_MARKER_def)

lemma marker_bit: "b AND INGRESS_STATE_MARKER = 0 \<longleftrightarrow> \<not> bit b 4"
proof
  assume "b AND INGRESS_STATE_MARKER = 0"
  from arg_cong [where f = "\<lambda>w. bit w 4", OF this] show "\<not> bit b 4" by (simp add: bit_and_iff)
next
  assume "\<not> bit b 4"
  then show "b AND INGRESS_STATE_MARKER = 0" by (intro bit_word_eqI) (auto simp: bit_and_iff)
qed

lemma split_mark_byte:
  "(b OR INGRESS_STATE_MARKER) AND INGRESS_STATE_MARKER \<noteq> 0"
  "b AND INGRESS_STATE_MARKER = 0 \<Longrightarrow> (b OR INGRESS_STATE_MARKER) AND NOT INGRESS_STATE_MARKER = b"
  "b AND INGRESS_STATE_MARKER = 0 \<Longrightarrow> b AND NOT INGRESS_STATE_MARKER = b"
proof -
  show "(b OR INGRESS_STATE_MARKER) AND INGRESS_STATE_MARKER \<noteq> 0"
    by (simp add: marker_bit bit_or_iff)
  assume "b AND INGRESS_STATE_MARKER = 0"
  then have "\<not> bit b 4" by (simp add: marker_bit)
  then show "(b OR INGRESS_STATE_MARKER) AND NOT INGRESS_STATE_MARKER = b"
    "b AND NOT INGRESS_STATE_MARKER = b"
    by (intro bit_word_eqI; auto simp: bit_and_iff bit_or_iff bit_not_iff)+
qed

lemma split_mark_packet:
  "marker_free p \<Longrightarrow> \<exists>m. mark_packet works p = Some m \<and> split_marker m = Some (works, p) \<and>
     length m = length p"
  by (auto simp: marker_free_def mark_packet_def split_mark_byte split: list.splits)

lemma split_ping_message: "split_marker (ping_message works) = Some (works, [0])"
  by (auto simp: ping_message_def)

lemma marker_free_ip:
  assumes "p \<noteq> []" "drop_bit 4 (p ! 0) = 4 \<or> drop_bit 4 (p ! 0) = 6"
  shows "marker_free p"
proof -
  have "bit (p ! 0) 4 \<longleftrightarrow> bit (drop_bit 4 (p ! 0)) 0" by (simp add: bit_simps)
  also have "\<dots> \<longleftrightarrow> False" using assms(2) by auto
  finally show ?thesis using assms(1) marker_bit by (cases p) (auto simp: marker_free_def)
qed

locale datagram_link =
  fixes seal :: "nat \<Rightarrow> bytes \<Rightarrow> 's \<Rightarrow> (decrypt_error, bytes) outcome \<times> 's"
    and unseal :: "nat \<Rightarrow> bytes \<Rightarrow> 's \<Rightarrow> (decrypt_error, bytes) outcome \<times> 's"
    and link :: "'s \<Rightarrow> 's \<Rightarrow> bool"
    and overhead :: "'s \<Rightarrow> nat"
  assumes transfer: "link s r \<Longrightarrow> p \<noteq> [] \<Longrightarrow> clocks_ok secs secs' \<Longrightarrow>
    \<exists>d s' r'. seal secs p s = (Ok d, s') \<and> unseal secs' d r = (Ok p, r') \<and> link s' r' \<and>
      length d = length p + overhead s"
begin

text \<open>The marker survives the layer, and the packet is itself again without it.\<close>

lemma transfer_marked:
  assumes "link s r" "marker_free p" "clocks_ok secs secs'"
  obtains m d s' r' where "mark_packet works p = Some m" "seal secs m s = (Ok d, s')"
    "unseal secs' d r = (Ok m, r')" "split_marker m = Some (works, p)" "link s' r'"
    "length d = length p + overhead s"
proof -
  from split_mark_packet [OF assms(2), of works] obtain m where
    m: "mark_packet works p = Some m" "split_marker m = Some (works, p)" "length m = length p"
    by blast
  then have "m \<noteq> []" by auto
  from transfer [OF assms(1) this assms(3)] m that show ?thesis by metis
qed

lemma transfer_ping:
  assumes "link s r" "clocks_ok secs secs'"
  obtains d s' r' where "seal secs (ping_message works) s = (Ok d, s')"
    "unseal secs' d r = (Ok (ping_message works), r')" "link s' r'" "length d = 1 + overhead s"
proof -
  have "ping_message works \<noteq> []" "length (ping_message works) = 1" by (simp_all add: ping_message_def)
  with transfer [OF assms(1) this(1) assms(2)] that show ?thesis by metis
qed

end

definition link_ok :: "'c crypto \<Rightarrow> 'c securer option \<Rightarrow> 'c securer option \<Rightarrow> bool" where
  "link_ok K s r =
     (case (s, r) of
        (Some s, Some r) \<Rightarrow> linked K s r
      | (None, None) \<Rightarrow> True
      | _ \<Rightarrow> False)"

text \<open>The securer of a transport is in order, if it has one.\<close>

definition securer_sound :: "'c crypto \<Rightarrow> 'c securer option \<Rightarrow> bool" where
  "securer_sound K sec \<longleftrightarrow> (\<forall>s. sec = Some s \<longrightarrow> crypto_ok K \<and> securer_ok K s)"

definition datagram_overhead :: "'c crypto \<Rightarrow> 'c securer option \<Rightarrow> nat" where
  "datagram_overhead K s = (case s of Some s \<Rightarrow> 16 + tag_len K | None \<Rightarrow> 0)"

lemma datagram_transfer:
  assumes "link_ok K s r" "p \<noteq> []" "clocks_ok secs secs'"
  shows "\<exists>d s' r'. seal_datagram K secs p s = (Ok d, s') \<and> open_datagram K secs' d r = (Ok p, r') \<and>
    link_ok K s' r' \<and> length d = length p + datagram_overhead K s"
proof (cases s)
  case None
  with assms(1) show ?thesis
    by (auto simp: link_ok_def seal_datagram_def open_datagram_def datagram_overhead_def
        split: option.splits)
next
  case (Some s0)
  with assms(1) obtain r0 where r: "r = Some r0" and l: "linked K s0 r0"
    by (auto simp: link_ok_def split: option.splits)
  have "secs < 2 ^ 32" "secs' < 2 ^ 32" using assms(3) by (simp_all add: clocks_ok_def)
  then obtain d s1 where enc: "encrypt K secs p s0 = (Ok d, s1)"
    by (auto simp: encrypt_def now_timestamp_def Let_def)
  moreover obtain r1 where "decrypt K secs' d r0 = (Ok p, r1)" "linked K s1 r1"
    using decrypt_encrypt [OF l enc assms(2) \<open>secs' < 2 ^ 32\<close>] assms(3) by (auto simp: clocks_ok_def)
  moreover have "length d = length p + (16 + tag_len K)"
    using encrypt_length [OF _ enc] l by (simp add: linked_def)
  ultimately show ?thesis
    using Some r by (simp add: link_ok_def seal_datagram_def open_datagram_def datagram_overhead_def)
qed

interpretation udp_link:
  datagram_link "seal_datagram K" "open_datagram K" "link_ok K" "datagram_overhead K" for K
  by unfold_locales (rule datagram_transfer)

lemma on_ingress_packet_simps [simp]:
  "udp_securer (on_ingress_packet now works t) = udp_securer t"
  "udp_stat (on_ingress_packet now works t) = udp_stat t"
  "udp_peer_address (on_ingress_packet now works t) = udp_peer_address t"
  "last_ingress_packet (udp_state (on_ingress_packet now works t)) =
     Some \<lparr>ingress_time = now, egress_works = works\<rparr>"
  by (simp_all add: on_ingress_packet_def ingress_state_def Let_def)

lemma receive_opened:
  assumes "udp_securer t = None \<or> from = udp_peer_address t" "d \<noteq> []" "length d \<le> max_message_size"
    "open_datagram K secs d (udp_securer t) = (Ok m, sec)" "split_marker m = Some (works, p)"
  shows "receive_message K now secs (Inr (from, d)) t =
    (if length p = 1 then (Ok (KeepAlive works), on_ingress_packet now works (t\<lparr>udp_securer := sec\<rparr>))
     else (Ok (Deliver p), on_ingress_packet now works
       (t\<lparr>udp_securer := sec, udp_stat := on_packet_received p (udp_stat t)\<rparr>)))"
proof -
  have d: "take (max_message_size + 1) d = d" using assms(3) by simp
  have "\<not> (udp_securer t \<noteq> None \<and> from \<noteq> udp_peer_address t)" using assms(1) by auto
  moreover have "\<not> max_message_size < length d" "length d \<noteq> 0" using assms(2,3) by auto
  ultimately show ?thesis
    by (simp only: receive_message_def sum.case prod.case Let_def d if_False assms(4,5)
        outcome.case option.case simp_thms)
      (simp add: on_ingress_packet_def ingress_state_def Let_def)
qed

lemma mark_then_open:
  assumes "link_ok K (udp_securer a) (udp_securer b)" "marker_free p" "clocks_ok secs secs'"
    "length p + datagram_overhead K (udp_securer a) \<le> max_message_size"
    "udp_securer b = None \<or> from = udp_peer_address b"
  shows "\<exists>m d s' r'. send_begin K now secs p a = (Ok (m, d), a\<lparr>udp_securer := s'\<rparr>) \<and>
    receive_message K now' secs' (Inr (from, d)) b =
      (let works = ingress_works (udp_state a) now; t = b\<lparr>udp_securer := r'\<rparr> in
       if length p = 1 then (Ok (KeepAlive works), on_ingress_packet now' works t)
       else (Ok (Deliver p), on_ingress_packet now' works
         (t\<lparr>udp_stat := on_packet_received p (udp_stat b)\<rparr>))) \<and>
    link_ok K s' r'"
proof -
  let ?works = "ingress_works (udp_state a) now"
  obtain m d s' r' where m: "mark_packet ?works p = Some m"
    "seal_datagram K secs m (udp_securer a) = (Ok d, s')"
    "open_datagram K secs' d (udp_securer b) = (Ok m, r')" "split_marker m = Some (?works, p)"
    "link_ok K s' r'" "length d = length p + datagram_overhead K (udp_securer a)"
    using udp_link.transfer_marked [OF assms(1-3)] by metis
  have "p \<noteq> []" using assms(2) by (auto simp: marker_free_def)
  then have "d \<noteq> []" "length d \<le> max_message_size" using m(6) assms(4) by auto
  note recv = receive_opened [OF assms(5) this m(3,4)]
  have "send_begin K now secs p a = (Ok (m, d), a\<lparr>udp_securer := s'\<rparr>)"
    by (simp add: send_begin_def m(1,2))
  with recv m(5) show ?thesis by (auto simp: Let_def)
qed

lemma ping_then_open:
  assumes "link_ok K (udp_securer a) (udp_securer b)" "clocks_ok secs secs'"
    "1 + datagram_overhead K (udp_securer a) \<le> max_message_size"
    "udp_securer b = None \<or> from = udp_peer_address b"
    "pinger_check now next_ping (udp_state a) = (Some works, next', st)"
  shows "\<exists>d s' r'. pinger_wake K now secs notified next_ping a =
      (Ok (Some d), next', a\<lparr>udp_state := st, udp_securer := s',
        ping_needed := (\<not> notified \<and> ping_needed a)\<rparr>) \<and>
    receive_message K now' secs' (Inr (from, d)) b =
      (Ok (KeepAlive works), on_ingress_packet now' works (b\<lparr>udp_securer := r'\<rparr>)) \<and>
    link_ok K s' r' \<and> datagram_overhead K s' = datagram_overhead K (udp_securer a) \<and>
    datagram_overhead K r' = datagram_overhead K (udp_securer b) \<and>
    (s' = None \<longleftrightarrow> udp_securer a = None) \<and> (r' = None \<longleftrightarrow> udp_securer b = None)"
proof -
  obtain d s' r' where m: "seal_datagram K secs (ping_message works) (udp_securer a) = (Ok d, s')"
    "open_datagram K secs' d (udp_securer b) = (Ok (ping_message works), r')"
    "link_ok K s' r'" "length d = 1 + datagram_overhead K (udp_securer a)"
    using udp_link.transfer_ping [OF assms(1,2)] by metis
  have "d \<noteq> []" "length d \<le> max_message_size" using m(4) assms(3) by auto
  note recv = receive_opened [OF assms(4) this m(2) split_ping_message]
  have none: "s' = None \<longleftrightarrow> udp_securer a = None" "r' = None \<longleftrightarrow> udp_securer b = None"
    using m(1,2) by (auto simp: seal_datagram_def open_datagram_def split: option.splits prod.splits)
  then have "datagram_overhead K s' = datagram_overhead K (udp_securer a)"
    "datagram_overhead K r' = datagram_overhead K (udp_securer b)"
    by (auto simp: datagram_overhead_def split: option.splits)
  moreover have "pinger_wake K now secs notified next_ping a =
      (Ok (Some d), next', a\<lparr>udp_state := st, udp_securer := s',
        ping_needed := (\<not> notified \<and> ping_needed a)\<rparr>)"
    by (cases notified) (simp_all add: pinger_wake_def assms(5) m(1))
  ultimately show ?thesis using recv m(3) none
    by (intro exI [of _ d] exI [of _ s'] exI [of _ r']) simp
qed

section \<open>Properties\<close>

text \<open>C17: delivery.  An IPv4 or IPv6 packet that fits a datagram goes through \<open>send\<close> at one end and
  the receiver at the other unchanged, although its first byte carries the marker on the way, with
  or without encryption; the receiving end learns whether the sending end hears it, counts the
  packet, and the two ends stay linked.\<close>
theorem udp_delivery:
  assumes "link_ok K (udp_securer a) (udp_securer b)" "clocks_ok secs secs'"
    "2 \<le> length p" "drop_bit 4 (p ! 0) = 4 \<or> drop_bit 4 (p ! 0) = 6"
    "length p + datagram_overhead K (udp_securer a) \<le> max_message_size"
    "udp_securer b = None \<or> from = udp_peer_address b"
  shows "\<exists>m d a' b'. send_begin K now secs p a = (Ok (m, d), a') \<and>
    receive_message K now' secs' (Inr (from, d)) b = (Ok (Deliver p), b') \<and>
    last_ingress_packet (udp_state b') =
      Some \<lparr>ingress_time = now', egress_works = ingress_works (udp_state a) now\<rparr> \<and>
    udp_stat b' = on_packet_received p (udp_stat b) \<and>
    link_ok K (udp_securer a') (udp_securer b')"
proof -
  have "p \<noteq> []" using assms(3) by auto
  from mark_then_open [OF assms(1) marker_free_ip [OF this assms(4)] assms(2,5,6), of now now']
  obtain m d s' r' where *: "send_begin K now secs p a = (Ok (m, d), a\<lparr>udp_securer := s'\<rparr>)"
    "receive_message K now' secs' (Inr (from, d)) b =
      (Ok (Deliver p), on_ingress_packet now' (ingress_works (udp_state a) now)
         (b\<lparr>udp_securer := r', udp_stat := on_packet_received p (udp_stat b)\<rparr>))" "link_ok K s' r'"
    using assms(3) by (auto simp: Let_def)
  define b' where "b' = on_ingress_packet now' (ingress_works (udp_state a) now)
    (b\<lparr>udp_securer := r', udp_stat := on_packet_received p (udp_stat b)\<rparr>)"
  show ?thesis
    by (intro exI [of _ m] exI [of _ d] exI [of _ "a\<lparr>udp_securer := s'\<rparr>"] exI [of _ b'])
      (simp add: * b'_def)
qed

definition demo_end :: "u64 \<Rightarrow> u64 udp_transport" where
  "demo_end sid = new_udp_transport ''udp'' (Some (demo_securer sid 0)) (V4 1 2)"

lemma demo_end_linked: "link_ok demo_crypto (udp_securer (demo_end x)) (udp_securer (demo_end y))"
  by (simp add: demo_end_def new_udp_transport_def link_ok_def demo_linked)

lemma demo_end_simps [simp]:
  "datagram_overhead demo_crypto (udp_securer (demo_end x)) = 32"
  "udp_peer_address (demo_end x) = V4 1 2" "max_message_size = 1472"
  by (simp_all add: demo_end_def new_udp_transport_def datagram_overhead_def demo_crypto_def
      max_message_size_def const_simps)

lemma udp_delivery_witness:
  "\<exists>m d a' b'. send_begin demo_crypto 0 100 [0x45, 7] (demo_end 5) = (Ok (m, d), a') \<and>
    receive_message demo_crypto 0 101 (Inr (V4 1 2, d)) (demo_end 6) = (Ok (Deliver [0x45, 7]), b')"
proof -
  have "drop_bit 4 (([0x45, 7] :: bytes) ! 0) = 4" "clocks_ok 100 101"
    by (simp_all add: clocks_ok_def)
  then show ?thesis
    using udp_delivery [OF demo_end_linked, of 100 101 "[0x45, 7]" 5 6 "V4 1 2" 0 0] by auto
qed

end
