(* ===== verification/UdpPeers.thy ===== *)
theory UdpPeers imports Udp begin

text \<open>
  Two ends of a UDP transport (\<open>src/src/transport/udp/mod.rs\<close>) and the network between them.

  \<open>keepalive_round\<close> composes a keep-alive of one end with its reception by the other, encryption
  included.  \<open>link_step\<close> is the whole protocol on the state behind the two mutexes: rounds of the
  pingers, sends and receptions interleave in any order, and the network loses, delays, repeats
  and reorders datagrams (a message that was sent may be delivered any number of times, or never).
  \<open>pacer_step\<close> is one end with its timer, which never fires late.
\<close>

section \<open>A keep-alive from one end to the other\<close>

definition keepalive_round ::
  "'c crypto \<Rightarrow> instant \<Rightarrow> nat \<Rightarrow> instant \<Rightarrow> 'c udp_transport \<Rightarrow> instant \<Rightarrow> nat \<Rightarrow> 'c udp_transport
    \<Rightarrow> ('c udp_transport \<times> 'c udp_transport) option" where
  "keepalive_round K now secs next_ping x now' secs' y =
     (case pinger_wake K now secs (ping_needed x) next_ping x of
        (Ok (Some d), next', x1) \<Rightarrow>
          (case receive_message K now' secs' (Inr (udp_peer_address y, d)) y of
             (Ok v, y1) \<Rightarrow> Some (snd (pinger_sent now d (Inr (length d)) x1), y1)
           | _ \<Rightarrow> None)
      | _ \<Rightarrow> None)"

definition udp_pair :: "'c crypto \<Rightarrow> 'c udp_transport \<Rightarrow> 'c udp_transport \<Rightarrow> bool" where
  "udp_pair K x y \<longleftrightarrow> link_ok K (udp_securer x) (udp_securer y) \<and>
     1 + datagram_overhead K (udp_securer x) \<le> max_message_size"

lemma link_ok_sym: "link_ok K s r \<Longrightarrow> link_ok K r s"
  by (auto simp: link_ok_def linked_def split: option.splits)

lemma link_ok_overhead: "link_ok K s r \<Longrightarrow> datagram_overhead K s = datagram_overhead K r"
  by (auto simp: link_ok_def datagram_overhead_def split: option.splits)

lemma udp_pair_sym: "udp_pair K x y \<Longrightarrow> udp_pair K y x"
  by (metis udp_pair_def link_ok_sym link_ok_overhead)

lemma keepalive_round_state:
  assumes "udp_pair K x y" "clocks_ok secs secs'"
    "pinger_check now next_ping (udp_state x) = (Some works, next', st)"
  obtains x' y' where "keepalive_round K now secs next_ping x now' secs' y = Some (x', y')"
    "udp_pair K x' y'" "udp_state x' = st\<lparr>last_egress_packet_time := Some now\<rparr>"
    "udp_state y' = snd (ingress_state now' works (udp_state y))"
proof -
  from assms(1) have pair: "link_ok K (udp_securer x) (udp_securer y)"
    "1 + datagram_overhead K (udp_securer x) \<le> max_message_size" by (simp_all add: udp_pair_def)
  obtain d s' r' where
    wake: "pinger_wake K now secs (ping_needed x) next_ping x =
      (Ok (Some d), next', x\<lparr>udp_state := st, udp_securer := s', ping_needed := False\<rparr>)" and
    recv: "receive_message K now' secs' (Inr (udp_peer_address y, d)) y =
      (Ok (KeepAlive works), on_ingress_packet now' works (y\<lparr>udp_securer := r'\<rparr>))" and
    link: "link_ok K s' r'" "datagram_overhead K s' = datagram_overhead K (udp_securer x)"
    using ping_then_open [OF pair(1) assms(2) pair(2) _ assms(3), of "udp_peer_address y" "ping_needed x" now']
    by auto
  define x' where "x' = on_egress_packet now
    (send_to d (Inr (length d)) (x\<lparr>udp_state := st, udp_securer := s', ping_needed := False\<rparr>))"
  define y' where "y' = on_ingress_packet now' works (y\<lparr>udp_securer := r'\<rparr>)"
  have "keepalive_round K now secs next_ping x now' secs' y = Some (x', y')"
    by (simp add: keepalive_round_def wake recv pinger_sent_def x'_def y'_def)
  moreover have "udp_securer x' = s'" "udp_state x' = st\<lparr>last_egress_packet_time := Some now\<rparr>"
    by (simp_all add: x'_def on_egress_packet_def send_to_def)
  moreover have "udp_securer y' = r'" by (simp add: y'_def)
  moreover have "udp_state y' = snd (ingress_state now' works (udp_state y))"
    by (cases "ingress_state now' works (udp_state y)") (simp add: y'_def on_ingress_packet_def)
  ultimately show ?thesis using that link pair(2) by (simp add: udp_pair_def)
qed

lemma ingress_state_fields [simp]:
  "last_ingress_packet (snd (ingress_state now works st)) =
     Some \<lparr>ingress_time = now, egress_works = works\<rparr>"
  "last_egress_packet_time (snd (ingress_state now works st)) = last_egress_packet_time st"
  "fst (ingress_state now works st) \<Longrightarrow> needs_connection_acknowledge (snd (ingress_state now works st))"
  "fst (ingress_state now works st) \<longleftrightarrow> \<not> ingress_works st now"
  by (simp_all add: ingress_state_def Let_def ingress_works_def split: option.splits)

section \<open>The protocol\<close>

text \<open>An end is a \<open>bool\<close>; \<open>\<not> x\<close> is the peer of \<open>x\<close>.  \<open>sent\<close> holds the messages sent so far: the end
  they are for, the time at which the marker was decided on, and the marker.  \<open>heard\<close> holds the
  receptions: by which end, when, and the message's time and marker.\<close>

record network =
  clock :: instant
  ends :: "bool \<Rightarrow> udp_state"
  sent :: "(bool \<times> instant \<times> bool) set"
  heard :: "(bool \<times> instant \<times> instant \<times> bool) set"

definition initial_network :: "instant \<Rightarrow> network" where
  "initial_network now = \<lparr>clock = now, ends = (\<lambda>x. new_state), sent = {}, heard = {}\<rparr>"

inductive link_step :: "network \<Rightarrow> network \<Rightarrow> bool" where
  tick: "link_step n (n\<lparr>clock := clock n + d\<rparr>)"
| ping: "pinger_check (clock n) next_ping (ends n x) = (Some works, next', st) \<Longrightarrow>
    link_step n (n\<lparr>ends := (ends n)(x := st), sent := insert (\<not> x, clock n, works) (sent n)\<rparr>)"
| rest: "pinger_check (clock n) next_ping (ends n x) = (None, next', st) \<Longrightarrow>
    link_step n (n\<lparr>ends := (ends n)(x := st)\<rparr>)"
| send: "link_step n (n\<lparr>sent := insert (\<not> x, clock n, ingress_works (ends n x) (clock n)) (sent n)\<rparr>)"
| egress: "link_step n (n\<lparr>ends := (ends n)(x := (ends n x)\<lparr>last_egress_packet_time := Some (clock n)\<rparr>)\<rparr>)"
| deliver: "(x, t0, works) \<in> sent n \<Longrightarrow> ingress_state (clock n) works (ends n x) = (is_first, st) \<Longrightarrow>
    link_step n (n\<lparr>ends := (ends n)(x := st), heard := insert (x, clock n, t0, works) (heard n)\<rparr>)"

definition link_reachable :: "instant \<Rightarrow> network \<Rightarrow> bool" where
  "link_reachable now n \<longleftrightarrow> link_step\<^sup>*\<^sup>* (initial_network now) n"

text \<open>\<open>x\<close> heard, less than the timeout before \<open>t\<close>, some message of its peer.\<close>

definition heard_by :: "network \<Rightarrow> bool \<Rightarrow> instant \<Rightarrow> bool" where
  "heard_by n x t \<longleftrightarrow>
     (\<exists>h h0 w. (x, h, h0, w) \<in> heard n \<and> h \<le> t \<and> t - h < KEEP_ALIVE_TIMEOUT)"

definition network_ok :: "network \<Rightarrow> bool" where
  "network_ok n \<longleftrightarrow>
     (\<forall>x t0 w. (x, t0, w) \<in> sent n \<longrightarrow> t0 \<le> clock n \<and> (w \<longrightarrow> heard_by n (\<not> x) t0)) \<and>
     (\<forall>x t t0 w. (x, t, t0, w) \<in> heard n \<longrightarrow> (x, t0, w) \<in> sent n \<and> t0 \<le> t \<and> t \<le> clock n) \<and>
     (\<forall>x p. last_ingress_packet (ends n x) = Some p \<longrightarrow>
        (\<exists>t0. (x, ingress_time p, t0, egress_works p) \<in> heard n))"

lemma network_okD:
  assumes "network_ok n"
  shows "(x, t0, w) \<in> sent n \<Longrightarrow> t0 \<le> clock n"
    "(x, t0, True) \<in> sent n \<Longrightarrow> heard_by n (\<not> x) t0"
    "(x, t, t0, w) \<in> heard n \<Longrightarrow> (x, t0, w) \<in> sent n \<and> t0 \<le> t \<and> t \<le> clock n"
    "last_ingress_packet (ends n x) = Some p \<Longrightarrow>
       \<exists>t0. (x, ingress_time p, t0, egress_works p) \<in> heard n"
  using assms unfolding network_ok_def by blast+

text \<open>The marker an end sends is backed by what it heard.\<close>

lemma ingress_works_heard:
  assumes "network_ok n" "ingress_works (ends n x) (clock n)"
  shows "heard_by n x (clock n)"
proof -
  obtain p where p: "last_ingress_packet (ends n x) = Some p" "\<not> is_timed_out p (clock n)"
    using assms(2) by (auto simp: ingress_works_def split: option.splits)
  then obtain t0 where h: "(x, ingress_time p, t0, egress_works p) \<in> heard n"
    using network_okD(4) [OF assms(1)] by blast
  then have "ingress_time p \<le> clock n" using network_okD(3) [OF assms(1)] by blast
  with h p(2) show ?thesis
    by (auto simp: heard_by_def is_timed_out_def duration_since_def not_le)
qed

lemma pinger_check_cases:
  assumes "pinger_check now next_ping st = (r, next', st')"
  shows "last_ingress_packet st' = last_ingress_packet st"
    "r = Some works \<Longrightarrow> works = ingress_works st now"
    "r = None \<Longrightarrow> st' = st \<and> \<not> needs_connection_acknowledge st \<and>
       (\<exists>prev. last_egress_packet_time st = Some prev \<and> next' = prev + KEEP_ALIVE_INTERVAL \<and> now < next')"
  using assms by (auto simp: pinger_check_def split: if_splits option.splits)

lemma network_ok_sent:
  assumes "network_ok n" "w \<longrightarrow> heard_by n (\<not> x) (clock n)"
    "\<And>y. last_ingress_packet (es y) = last_ingress_packet (ends n y)"
  shows "network_ok (n\<lparr>ends := es, sent := insert (x, clock n, w) (sent n)\<rparr>)"
  using assms unfolding network_ok_def by (auto simp: heard_by_def)

lemma network_ok_ends:
  assumes "network_ok n" "\<And>y. last_ingress_packet (es y) = last_ingress_packet (ends n y)"
  shows "network_ok (n\<lparr>ends := es\<rparr>)"
  using assms unfolding network_ok_def by (auto simp: heard_by_def)

lemma network_ok_heard:
  assumes "network_ok n" "(x, t0, w) \<in> sent n"
    "last_ingress_packet st = Some \<lparr>ingress_time = clock n, egress_works = w\<rparr>"
  shows "network_ok (n\<lparr>ends := (ends n)(x := st), heard := insert (x, clock n, t0, w) (heard n)\<rparr>)"
proof -
  have "t0 \<le> clock n" using network_okD(1) [OF assms(1,2)] .
  moreover have "heard_by (n\<lparr>ends := es, heard := insert e (heard n)\<rparr>) y t" if "heard_by n y t" for es e y t
    using that by (auto simp: heard_by_def)
  ultimately show ?thesis
    using assms unfolding network_ok_def by (auto split: if_splits)
qed

lemma network_ok_step:
  assumes "network_ok n" "link_step n n'"
  shows "network_ok n'"
  using assms(2)
proof cases
  case (tick d)
  then show ?thesis using assms(1) unfolding network_ok_def by (fastforce simp: heard_by_def)
next
  case (ping next_ping x works next' st)
  have "works \<longrightarrow> heard_by n x (clock n)"
    using ingress_works_heard [OF assms(1)] pinger_check_cases(2) [OF ping(2)] by blast
  then show ?thesis
    unfolding ping(1) using pinger_check_cases(1) [OF ping(2)]
    by (intro network_ok_sent assms(1)) auto
next
  case (rest next_ping x next' st)
  then show ?thesis
    unfolding rest(1) using pinger_check_cases(1) [OF rest(2)]
    by (intro network_ok_ends assms(1)) auto
next
  case (send x)
  have "network_ok (n\<lparr>ends := ends n, sent := insert (\<not> x, clock n, ingress_works (ends n x) (clock n)) (sent n)\<rparr>)"
    using ingress_works_heard [OF assms(1)] by (intro network_ok_sent assms(1)) auto
  then show ?thesis using send by simp
next
  case (egress x)
  show ?thesis unfolding egress by (intro network_ok_ends assms(1)) auto
next
  case (deliver x t0 works is_first st)
  have "last_ingress_packet st = Some \<lparr>ingress_time = clock n, egress_works = works\<rparr>"
    using ingress_state_fields(1) [of "clock n" works "ends n x"] deliver(3) by simp
  then show ?thesis unfolding deliver(1) by (intro network_ok_heard assms(1) deliver(2))
qed

lemma network_ok_initial: "network_ok (initial_network now)"
  by (simp add: initial_network_def network_ok_def new_state_def)

lemma network_ok_reachable: "link_reachable now n \<Longrightarrow> network_ok n"
  unfolding link_reachable_def
  by (induction rule: rtranclp_induct) (use network_ok_initial network_ok_step in blast)+

section \<open>One end and its timer\<close>

text \<open>The pinger sleeps until \<open>next_ping\<close> or a notification, and time does not pass beyond the
  moment it is due.  Sending takes no time here.\<close>

record pacer =
  now_time :: instant
  next_ping_time :: instant
  notified :: bool
  end_state :: udp_state

definition initial_pacer :: "instant \<Rightarrow> pacer" where
  "initial_pacer now =
     \<lparr>now_time = now, next_ping_time = now, notified = False, end_state = new_state\<rparr>"

inductive pacer_step :: "pacer \<Rightarrow> pacer \<Rightarrow> bool" where
  delay: "now_time s + d \<le> next_ping_time s \<Longrightarrow> \<not> notified s \<Longrightarrow>
    pacer_step s (s\<lparr>now_time := now_time s + d\<rparr>)"
| receive: "ingress_state (now_time s) works (end_state s) = (is_first, st) \<Longrightarrow>
    pacer_step s (s\<lparr>end_state := st, notified := (if is_first then True else notified s)\<rparr>)"
| transmit: "pacer_step s
    (s\<lparr>end_state := (end_state s)\<lparr>last_egress_packet_time := Some (now_time s)\<rparr>\<rparr>)"
| keep_alive: "next_ping_time s \<le> now_time s \<or> notified s \<Longrightarrow>
    pinger_check (now_time s) (next_ping_time s) (end_state s) = (Some works, next', st) \<Longrightarrow>
    pacer_step s (s\<lparr>end_state := st\<lparr>last_egress_packet_time := Some (now_time s)\<rparr>,
      next_ping_time := now_time s + KEEP_ALIVE_INTERVAL, notified := False\<rparr>)"
| skip: "next_ping_time s \<le> now_time s \<or> notified s \<Longrightarrow>
    pinger_check (now_time s) (next_ping_time s) (end_state s) = (None, next', st) \<Longrightarrow>
    pacer_step s (s\<lparr>end_state := st, next_ping_time := next', notified := False\<rparr>)"

definition pacer_ok :: "pacer \<Rightarrow> bool" where
  "pacer_ok s \<longleftrightarrow> now_time s \<le> next_ping_time s \<and>
     (case last_egress_packet_time (end_state s) of
        Some t \<Rightarrow> t \<le> now_time s \<and> next_ping_time s \<le> t + KEEP_ALIVE_INTERVAL
      | None \<Rightarrow> next_ping_time s \<le> now_time s)"

lemma pacer_ok_step:
  assumes "pacer_ok s" "pacer_step s s'"
  shows "pacer_ok s'"
  using assms(2)
proof cases
  case (delay d)
  then show ?thesis using assms(1) by (auto simp: pacer_ok_def split: option.splits)
next
  case (receive works is_first st)
  have "last_egress_packet_time st = last_egress_packet_time (end_state s)"
    using ingress_state_fields(2) [of "now_time s" works "end_state s"] receive(2) by simp
  then show ?thesis using assms(1) receive(1) by (auto simp: pacer_ok_def split: option.splits)
next
  case transmit
  then show ?thesis using assms(1) by (auto simp: pacer_ok_def split: option.splits)
next
  case (keep_alive works next' st)
  then show ?thesis by (simp add: pacer_ok_def)
next
  case (skip next' st)
  then obtain prev where "st = end_state s" "last_egress_packet_time (end_state s) = Some prev"
    "next' = prev + KEEP_ALIVE_INTERVAL" "now_time s < next'"
    using pinger_check_cases(3) by blast
  then show ?thesis using assms(1) skip(1) by (auto simp: pacer_ok_def split: option.splits)
qed

lemma pacer_ok_reachable: "pacer_step\<^sup>*\<^sup>* (initial_pacer now) s \<Longrightarrow> pacer_ok s"
proof (induction rule: rtranclp_induct)
  case base
  then show ?case by (simp add: initial_pacer_def pacer_ok_def new_state_def)
qed (rule pacer_ok_step)

section \<open>Properties\<close>

text \<open>C29: the handshake.  Two ends that have heard nothing yet are connected, both of them, after
  three keep-alives (one, the answer, and the answer to it), each of which the pinger sends
  without waiting for its interval, provided the answers come within the timeout.\<close>
theorem udp_handshake_connects:
  assumes "udp_pair K a b" "clocks_ok sa sb" "clocks_ok sb sa"
    "udp_state a = new_state" "udp_state b = new_state"
    "tb1 - tb0 < KEEP_ALIVE_TIMEOUT" "ta2 - ta1 < KEEP_ALIVE_TIMEOUT"
  shows "\<exists>a1 b1 a2 b2 a3 b3.
    keepalive_round K ta0 sa wa a tb0 sb b = Some (a1, b1) \<and>
    keepalive_round K tb1 sb wb b1 ta1 sa a1 = Some (b2, a2) \<and>
    keepalive_round K ta2 sa wa' a2 tb2 sb b2 = Some (a3, b3) \<and>
    udp_connected ta2 a3 \<and> udp_connected tb2 b3"
proof -
  have "pinger_check ta0 wa (udp_state a) = (Some False, wa, udp_state a)"
    using assms(4) by (simp add: pinger_check_def new_state_def ingress_works_def)
  from keepalive_round_state [OF assms(1,2) this] obtain a1 b1 where
    1: "keepalive_round K ta0 sa wa a tb0 sb b = Some (a1, b1)" "udp_pair K a1 b1"
    "udp_state a1 = new_state\<lparr>last_egress_packet_time := Some ta0\<rparr>"
    "udp_state b1 = snd (ingress_state tb0 False new_state)"
    using assms(4,5) by metis
  have "pinger_check tb1 wb (udp_state b1) =
    (Some True, wb, (udp_state b1)\<lparr>needs_connection_acknowledge := False\<rparr>)"
    using assms(6) by (simp add: 1(4) pinger_check_def new_state_def ingress_works_def ingress_state_def
        is_timed_out_def duration_since_def not_le)
  from keepalive_round_state [OF udp_pair_sym [OF 1(2)] assms(3) this] obtain b2 a2 where
    2: "keepalive_round K tb1 sb wb b1 ta1 sa a1 = Some (b2, a2)" "udp_pair K b2 a2"
    "udp_state a2 = snd (ingress_state ta1 True (udp_state a1))" by metis
  have "pinger_check ta2 wa' (udp_state a2) =
    (Some True, wa', (udp_state a2)\<lparr>needs_connection_acknowledge := False\<rparr>)"
    using assms(7) by (simp add: 2(3) 1(3) pinger_check_def new_state_def ingress_works_def
        ingress_state_def is_timed_out_def duration_since_def not_le)
  from keepalive_round_state [OF udp_pair_sym [OF 2(2)] assms(2) this] obtain a3 b3 where
    3: "keepalive_round K ta2 sa wa' a2 tb2 sb b2 = Some (a3, b3)"
    "udp_state a3 = (udp_state a2)\<lparr>needs_connection_acknowledge := False,
       last_egress_packet_time := Some ta2\<rparr>"
    "udp_state b3 = snd (ingress_state tb2 True (udp_state b2))" by metis
  have "udp_connected ta2 a3" "udp_connected tb2 b3"
    using assms(7) by (simp_all add: udp_connected_def state_connected_def 3 2(3) is_timed_out_def
        duration_since_def not_le KEEP_ALIVE_TIMEOUT_def)
  with 1(1) 2(1) 3(1) show ?thesis by blast
qed

lemma udp_handshake_connects_witness:
  "\<exists>a1 b1 a2 b2 a3 b3.
    keepalive_round demo_crypto 1 100 1 (demo_end 5) 2 100 (demo_end 6) = Some (a1, b1) \<and>
    keepalive_round demo_crypto 2 100 2 b1 3 100 a1 = Some (b2, a2) \<and>
    keepalive_round demo_crypto 3 100 4 a2 4 100 b2 = Some (a3, b3) \<and>
    udp_connected 3 a3 \<and> udp_connected 4 b3"
proof -
  have "udp_pair demo_crypto (demo_end 5) (demo_end 6)" by (simp add: udp_pair_def demo_end_linked)
  moreover have "clocks_ok 100 100" by (simp add: clocks_ok_def)
  moreover have "udp_state (demo_end x) = new_state" for x
    by (simp add: demo_end_def new_udp_transport_def)
  moreover have "0 < KEEP_ALIVE_TIMEOUT" by (simp add: KEEP_ALIVE_TIMEOUT_def)
  ultimately show ?thesis
    by (intro udp_handshake_connects) simp_all
qed

text \<open>C6: what \<open>connected\<close> promises.  However datagrams are lost, delayed, repeated or reordered and
  the tasks interleave, an end that says it is connected has, within the timeout, received a
  message of its peer that was sent when the peer itself had, within the timeout, received a
  message of this end: both directions have worked.\<close>
theorem udp_connected_both_ways:
  assumes "link_reachable now n" "state_connected (ends n x) (clock n)"
  shows "\<exists>t t0 h h0 w. (x, t, t0, True) \<in> heard n \<and> clock n - t < KEEP_ALIVE_TIMEOUT \<and>
    (\<not> x, h, h0, w) \<in> heard n \<and> (\<not> x, h0, w) \<in> sent n \<and>
    h0 \<le> h \<and> h \<le> t0 \<and> t0 - h < KEEP_ALIVE_TIMEOUT \<and> t0 \<le> t \<and> t \<le> clock n"
proof -
  have ok: "network_ok n" using network_ok_reachable [OF assms(1)] .
  obtain p where p: "last_ingress_packet (ends n x) = Some p" "egress_works p"
    "\<not> is_timed_out p (clock n)"
    using assms(2) by (auto simp: state_connected_def split: option.splits)
  then obtain t0 where t0: "(x, ingress_time p, t0, True) \<in> heard n"
    using network_okD(4) [OF ok] by fastforce
  then obtain h h0 w where h: "(\<not> x, h, h0, w) \<in> heard n" "h \<le> t0" "t0 - h < KEEP_ALIVE_TIMEOUT"
    using network_okD(2,3) [OF ok] unfolding heard_by_def by blast
  moreover have "clock n - ingress_time p < KEEP_ALIVE_TIMEOUT"
    using p(3) by (simp add: is_timed_out_def duration_since_def not_le)
  ultimately show ?thesis
    using t0 network_okD(3) [OF ok t0] network_okD(3) [OF ok h(1)] by blast
qed

lemma udp_connected_both_ways_witness:
  "\<exists>n t t0 h h0 w. link_reachable 0 n \<and> state_connected (ends n False) (clock n) \<and>
    (False, t, t0, True) \<in> heard n \<and> (True, h, h0, w) \<in> heard n"
proof -
  let ?fst = "new_state\<lparr>needs_connection_acknowledge := True,
    last_ingress_packet := Some \<lparr>ingress_time = 0, egress_works = False\<rparr>\<rparr>"
  let ?ack = "?fst\<lparr>needs_connection_acknowledge := False\<rparr>"
  let ?con = "new_state\<lparr>needs_connection_acknowledge := True,
    last_ingress_packet := Some \<lparr>ingress_time = 0, egress_works = True\<rparr>\<rparr>"
  define n1 where "n1 = (initial_network 0)\<lparr>ends := (\<lambda>x. new_state)(False := new_state),
    sent := insert (True, 0, False) {}\<rparr>"
  define n2 where "n2 = n1\<lparr>ends := (ends n1)(True := ?fst), heard := insert (True, 0, 0, False) {}\<rparr>"
  define n3 where "n3 = n2\<lparr>ends := (ends n2)(True := ?ack), sent := insert (False, 0, True) (sent n2)\<rparr>"
  define n4 where "n4 = n3\<lparr>ends := (ends n3)(False := ?con), heard := insert (False, 0, 0, True) (heard n3)\<rparr>"
  note net = initial_network_def n1_def n2_def n3_def n4_def
  have T: "0 < KEEP_ALIVE_TIMEOUT" by (simp add: KEEP_ALIVE_TIMEOUT_def)
  have "link_step (initial_network 0) n1"
    using link_step.ping [of "initial_network 0" 0 False False 0 new_state]
    by (simp add: net pinger_check_def ingress_works_def new_state_def)
  moreover have "link_step n1 n2"
    using link_step.deliver [of True 0 False n1 True ?fst]
    by (simp add: net ingress_state_def new_state_def)
  moreover have "link_step n2 n3"
    using link_step.ping [of n2 0 True True 0 ?ack] T
    by (simp add: net pinger_check_def ingress_works_def new_state_def is_timed_out_def duration_since_def)
  moreover have "link_step n3 n4"
    using link_step.deliver [of False 0 True n3 True ?con]
    by (simp add: net ingress_state_def new_state_def)
  ultimately have "link_reachable 0 n4"
    unfolding link_reachable_def by (meson rtranclp.rtrancl_into_rtrancl rtranclp.rtrancl_refl)
  moreover have "state_connected (ends n4 False) (clock n4)"
    using T by (simp add: net state_connected_def is_timed_out_def duration_since_def)
  ultimately show ?thesis using udp_connected_both_ways [of 0 n4 False] by auto
qed

text \<open>C36: keep-alives are often enough.  Once an end has sent its first datagram it never goes more
  than the interval without sending one, whatever it sends and receives otherwise, and its first
  one goes out at once; so a peer that loses two in a row still hears it within the timeout.\<close>
theorem udp_keep_alive_pace:
  assumes "pacer_step\<^sup>*\<^sup>* (initial_pacer now) s"
  shows "(case last_egress_packet_time (end_state s) of
       Some t \<Rightarrow> now_time s - t \<le> KEEP_ALIVE_INTERVAL
     | None \<Rightarrow> now_time s = next_ping_time s) \<and> 3 * KEEP_ALIVE_INTERVAL < KEEP_ALIVE_TIMEOUT"
  using pacer_ok_reachable [OF assms]
  by (auto simp: pacer_ok_def KEEP_ALIVE_INTERVAL_def KEEP_ALIVE_TIMEOUT_def from_secs_def
      split: option.splits)

lemma udp_keep_alive_pace_witness:
  "\<exists>s. pacer_step\<^sup>*\<^sup>* (initial_pacer 5) s \<and> last_egress_packet_time (end_state s) = Some 5 \<and>
    now_time s = 7 \<and> now_time s - 5 \<le> KEEP_ALIVE_INTERVAL"
proof -
  define s1 where "s1 = (initial_pacer 5)\<lparr>end_state := new_state\<lparr>last_egress_packet_time := Some 5\<rparr>,
    next_ping_time := 5 + KEEP_ALIVE_INTERVAL, notified := False\<rparr>"
  define s2 where "s2 = s1\<lparr>now_time := 7\<rparr>"
  have "pacer_step (initial_pacer 5) s1"
    using pacer_step.keep_alive [of "initial_pacer 5" False 5 new_state]
    by (simp add: s1_def initial_pacer_def pinger_check_def new_state_def ingress_works_def)
  moreover have "pacer_step s1 s2"
    using pacer_step.delay [of s1 2]
    by (simp add: s1_def s2_def initial_pacer_def KEEP_ALIVE_INTERVAL_def from_secs_def)
  ultimately have run: "pacer_step\<^sup>*\<^sup>* (initial_pacer 5) s2"
    by (meson rtranclp.rtrancl_into_rtrancl rtranclp.rtrancl_refl)
  moreover have "last_egress_packet_time (end_state s2) = Some 5" "now_time s2 = 7"
    by (simp_all add: s1_def s2_def)
  ultimately show ?thesis using udp_keep_alive_pace [OF run] by auto
qed

end
