(* ===== verification/Controller.thy ===== *)
theory Controller imports HttpClient HttpServer UdpPeers begin

text \<open>
  \<open>src/src/controller.rs\<close>: the controller names and starts the transports of the configuration
  (\<open>src/src/config.rs\<close>), and sends each packet of the tun device (\<open>src/src/tunnel.rs\<close>) through the
  first one that is ready.

  A configured transport is a value of \<open>'k\<close> with a kind, and a started one a value of \<open>'t\<close>; \<open>start\<close>
  gives it, or an error, for the configured one and its name.  What the controller asks a transport (\<open>ready\<close>, \<open>labels_of\<close>, \<open>send\<close>) is a
  function argument, with the transport trait's contract (\<open>egress_transport\<close>).  A metric family is
  a map from labels to counters.
\<close>

section \<open>Names\<close>

definition BLACKHOLE_TRANSPORT :: string where "BLACKHOLE_TRANSPORT = ''Blackhole''"

datatype transport_kind = HttpClientKind | HttpServerKind | InsecureUdpKind | UdpKind

fun kind_name :: "transport_kind \<Rightarrow> string" where
  "kind_name HttpClientKind = ''HTTP client''"
| "kind_name HttpServerKind = ''HTTP server''"
| "kind_name InsecureUdpKind = ''Insecure UDP transport''"
| "kind_name UdpKind = ''UDP transport''"

definition valid_transport_name :: "string \<Rightarrow> bool" where
  "valid_transport_name name \<longleftrightarrow>
     name \<noteq> [] \<and> str_trim name = name \<and> name \<noteq> BLACKHOLE_TRANSPORT \<and>
     list_all (\<lambda>c. is_ascii_alphanumeric c \<or> c = CHR '' '') name"

text \<open>\<open>counts\<close> holds the number of transports of each kind, \<open>index\<close> those of them seen so far.\<close>

definition auto_name :: "(transport_kind \<Rightarrow> nat) \<Rightarrow> (transport_kind \<Rightarrow> nat) \<Rightarrow> transport_kind \<Rightarrow> string" where
  "auto_name counts index kind =
     (if 1 < counts kind then kind_name kind @ '' #'' @ show_nat (index kind) else kind_name kind)"

datatype 'e controller_error =
    InvalidTransportName string
  | DuplicatedTransportName string
  | FailedToInitialize string 'e

type_synonym 'k transport_specs = "(string option \<times> 'k) list"

definition count_kinds :: "('k \<Rightarrow> transport_kind) \<Rightarrow> 'k transport_specs \<Rightarrow> transport_kind \<Rightarrow> nat" where
  "count_kinds kind_of specs kind = length (filter (\<lambda>(name, k). kind_of k = kind) specs)"

fun start_transports ::
  "('k \<Rightarrow> transport_kind) \<Rightarrow> ('k \<Rightarrow> string \<Rightarrow> ('e, 't) outcome) \<Rightarrow> (transport_kind \<Rightarrow> nat)
    \<Rightarrow> (transport_kind \<Rightarrow> nat) \<Rightarrow> string list \<Rightarrow> 'k transport_specs
    \<Rightarrow> ('e controller_error, (string \<times> 't) list) outcome" where
  "start_transports kind_of start counts index names [] = Ok []"
| "start_transports kind_of start counts index names ((name, k) # specs) =
     (if (\<exists>n. name = Some n) \<and> \<not> valid_transport_name (the name) then Err (InvalidTransportName (the name))
      else
        let index' = index(kind_of k := index (kind_of k) + 1);
            n = (case name of Some n \<Rightarrow> n | None \<Rightarrow> auto_name counts index' (kind_of k))
        in if n \<in> set names then Err (DuplicatedTransportName n)
           else case start k n of
               Ok t \<Rightarrow>
                 and_then (start_transports kind_of start counts index' (n # names) specs) (\<lambda>ts. Ok ((n, t) # ts))
             | Err e \<Rightarrow> Err (FailedToInitialize n e)
             | Panic \<Rightarrow> Panic
             | Pending \<Rightarrow> Pending)"

definition new_controller ::
  "('k \<Rightarrow> transport_kind) \<Rightarrow> ('k \<Rightarrow> string \<Rightarrow> ('e, 't) outcome) \<Rightarrow> 'k transport_specs
    \<Rightarrow> ('e controller_error, (string \<times> 't) list) outcome" where
  "new_controller kind_of start specs = start_transports kind_of start (count_kinds kind_of specs) (\<lambda>_. 0) [] specs"

section \<open>Packets\<close>

record 't controller =
  transports :: "'t list"
  transport_drops :: "labels \<Rightarrow> u64 option"
  transport_send_times :: "labels \<Rightarrow> u64 option"

definition counter_at :: "(labels \<Rightarrow> u64 option) \<Rightarrow> labels \<Rightarrow> u64" where
  "counter_at family l = (case family l of Some n \<Rightarrow> n | None \<Rightarrow> 0)"

definition get_or_create :: "labels \<Rightarrow> (labels \<Rightarrow> u64 option) \<Rightarrow> labels \<Rightarrow> u64 option" where
  "get_or_create l family = family(l \<mapsto> counter_at family l)"

definition inc_at :: "labels \<Rightarrow> (labels \<Rightarrow> u64 option) \<Rightarrow> labels \<Rightarrow> u64 option" where
  "inc_at l family = family(l \<mapsto> counter_at family l + 1)"

definition blackhole_labels :: labels where
  "blackhole_labels = transport_labels BLACKHOLE_TRANSPORT"

fun select_transport :: "('t \<Rightarrow> bool) \<Rightarrow> 't list \<Rightarrow> nat option" where
  "select_transport ready [] = None"
| "select_transport ready (t # ts) =
     (if ready t then Some 0 else map_option Suc (select_transport ready ts))"

text \<open>One round of the loop of \<open>handle\<close>.  The histogram of send times is represented by the number
  of its observations.\<close>

definition handle_packet ::
  "('t \<Rightarrow> bool) \<Rightarrow> ('t \<Rightarrow> labels) \<Rightarrow> ('t \<Rightarrow> bytes \<Rightarrow> (string + unit) \<times> 't) \<Rightarrow> bytes
    \<Rightarrow> 't controller \<Rightarrow> 't controller" where
  "handle_packet ready labels_of send packet c =
     (case select_transport ready (transports c) of
        None \<Rightarrow> c\<lparr>transport_drops := inc_at blackhole_labels (transport_drops c)\<rparr>
      | Some i \<Rightarrow>
          (case send (transports c ! i) packet of
             (result, t') \<Rightarrow>
               let l = labels_of (transports c ! i);
                   drops = get_or_create l (transport_drops c)
               in c\<lparr>transports := (transports c)[i := t'],
                    transport_drops := (case result of Inl e \<Rightarrow> inc_at l drops | Inr u \<Rightarrow> drops),
                    transport_send_times := inc_at l (transport_send_times c)\<rparr>))"

definition handle_start :: "'t controller \<Rightarrow> 't controller" where
  "handle_start c = c\<lparr>transport_drops := get_or_create blackhole_labels (transport_drops c)\<rparr>"

section \<open>The names that come out\<close>

lemma select_transport_iff:
  "select_transport ready ts = Some i \<longleftrightarrow> i < length ts \<and> ready (ts ! i) \<and> (\<forall>j < i. \<not> ready (ts ! j))"
proof (induction ts arbitrary: i)
  case (Cons t ts)
  show ?case
    by (cases i) (auto simp: Cons.IH less_Suc_eq_0_disj)
qed simp

lemma select_transport_None: "select_transport ready ts = None \<longleftrightarrow> \<not> list_ex ready ts"
  by (induction ts) auto

lemma kind_name_ok:
  "kind_name kind \<noteq> []" "\<not> is_whitespace (hd (kind_name kind))" "\<not> is_whitespace (last (kind_name kind))"
  "list_all (\<lambda>c. is_ascii_alphanumeric c \<or> c = CHR '' '') (kind_name kind)" "length (kind_name kind) \<le> 22"
  "kind_name kind \<noteq> BLACKHOLE_TRANSPORT"
  by (cases kind; simp add: is_whitespace_def is_ascii_alphanumeric_def BLACKHOLE_TRANSPORT_def)+

text \<open>What every name of a started transport is: printable, without a blank at either end.\<close>

definition presentable :: "string \<Rightarrow> bool" where
  "presentable name \<longleftrightarrow> name \<noteq> [] \<and> \<not> is_whitespace (hd name) \<and> \<not> is_whitespace (last name) \<and>
     list_all (\<lambda>c. is_ascii_alphanumeric c \<or> is_ascii_punctuation c \<or> c = CHR '' '') name"

lemma presentable_numbered: "presentable name \<Longrightarrow> presentable (name @ '' #'' @ show_nat k)"
  by (auto simp: presentable_def list_all_iff is_ascii_punctuation_def dest: show_nat_digits)
    (use show_nat_digits last_in_set show_nat_not_Nil in blast)

lemma presentable_valid: "valid_transport_name name \<Longrightarrow> presentable name"
  by (auto simp: valid_transport_name_def presentable_def str_trim_self list_all_iff)

lemma presentable_auto: "presentable (auto_name counts index kind)"
proof -
  have "presentable (kind_name kind)"
    using kind_name_ok [of kind] by (auto simp: presentable_def list_all_iff)
  then show ?thesis using presentable_numbered by (simp add: auto_name_def)
qed

lemma hash_not_plain: "\<not> is_ascii_alphanumeric CHR ''#''"
  by (simp add: is_ascii_alphanumeric_def)

lemma auto_name_not_blackhole: "auto_name counts index kind \<noteq> BLACKHOLE_TRANSPORT"
  by (cases kind) (simp_all add: auto_name_def BLACKHOLE_TRANSPORT_def)

lemma start_transports_names:
  "start_transports kind_of start counts index names specs = Ok ts \<Longrightarrow> distinct names \<Longrightarrow>
     distinct (map fst ts @ names) \<and> (\<forall>n \<in> set (map fst ts). presentable n \<and> n \<noteq> BLACKHOLE_TRANSPORT) \<and>
     length ts = length specs \<and>
     (\<forall>i < length specs. (\<forall>n. fst (specs ! i) = Some n \<longrightarrow> fst (ts ! i) = n) \<and>
        start (snd (specs ! i)) (fst (ts ! i)) = Ok (snd (ts ! i)))"
proof (induction specs arbitrary: index names ts)
  case (Cons spec specs)
  obtain name k where spec: "spec = (name, k)" by fastforce
  let ?index = "index(kind_of k := Suc (index (kind_of k)))"
  let ?n = "case name of Some n \<Rightarrow> n | None \<Rightarrow> auto_name counts ?index (kind_of k)"
  from Cons.prems(1) obtain t rest where step: "name \<noteq> None \<longrightarrow> valid_transport_name (the name)" "?n \<notin> set names"
    "start k ?n = Ok t" "start_transports kind_of start counts ?index (?n # names) specs = Ok rest" "ts = (?n, t) # rest"
    by (auto simp: spec Let_def outcome_simps split: if_splits outcome.splits)
  have n: "presentable ?n \<and> ?n \<noteq> BLACKHOLE_TRANSPORT"
    using step(1) presentable_valid presentable_auto auto_name_not_blackhole
    by (auto simp: valid_transport_name_def split: option.splits)
  have "distinct (?n # names)" using step(2) Cons.prems(2) by simp
  from Cons.IH [OF step(4) this] n step(3,5) show ?case
    by (auto simp: spec nth_Cons split: nat.splits option.splits)
qed simp

text \<open>A configured name is valid; an automatic one counts the transports of its kind up to its own.\<close>

lemma start_transports_given:
  assumes "start_transports kind_of start counts index names specs = Ok ts" "i < length specs"
  shows "case fst (specs ! i) of
      Some n \<Rightarrow> valid_transport_name n \<and> fst (ts ! i) = n
    | None \<Rightarrow> (let kind = kind_of (snd (specs ! i))
        in fst (ts ! i) = auto_name counts (\<lambda>_. index kind + count_kinds kind_of (take (Suc i) specs) kind) kind)"
  using assms
proof (induction specs arbitrary: index names ts i)
  case (Cons spec specs)
  obtain name k where spec: "spec = (name, k)" by fastforce
  let ?index = "index(kind_of k := Suc (index (kind_of k)))"
  let ?n = "case name of Some n \<Rightarrow> n | None \<Rightarrow> auto_name counts ?index (kind_of k)"
  from Cons.prems(1) obtain t rest where step: "name \<noteq> None \<longrightarrow> valid_transport_name (the name)"
    "start_transports kind_of start counts ?index (?n # names) specs = Ok rest" "ts = (?n, t) # rest"
    by (auto simp: spec Let_def outcome_simps split: if_splits outcome.splits)
  show ?case
  proof (cases i)
    case 0
    with step(1,3) show ?thesis
      by (cases name) (simp_all add: spec count_kinds_def auto_name_def Let_def)
  next
    case (Suc l)
    have "?index kind + count_kinds kind_of xs kind = index kind + count_kinds kind_of (spec # xs) kind" for kind xs
      by (simp add: spec count_kinds_def)
    with Cons.IH [OF step(2), of l] Cons.prems(2) Suc step(3) show ?thesis
      by (simp add: Let_def split: option.splits)
  qed
qed simp

lemma valid_name_no_hash: "valid_transport_name n \<Longrightarrow> CHR ''#'' \<notin> set n"
  using hash_not_plain by (auto simp: valid_transport_name_def list_all_iff)

text \<open>A name with a number is taken apart in one way only.\<close>

lemma numbered_inj:
  assumes "n @ '' #'' @ show_nat k = m @ '' #'' @ show_nat l"
  shows "n = m" "k = l"
proof -
  let ?P = "\<lambda>c. c \<noteq> CHR ''#''"
  have t: "takeWhile ?P (rev (x @ '' #'' @ show_nat j)) = rev (show_nat j)" for x j
  proof -
    have "\<And>c. c \<in> set (rev (show_nat j)) \<Longrightarrow> ?P c" using show_nat_digits hash_not_plain by fastforce
    from takeWhile_append2 [of "rev (show_nat j)" ?P, OF this] show ?thesis by simp
  qed
  have "rev (show_nat k) = rev (show_nat l)" by (metis t assms)
  then show "k = l" using show_nat_inj by simp
  with assms show "n = m" by simp
qed

lemma connection_names_meet:
  assumes "n \<noteq> m"
  shows "(\<exists>k \<in> {1..p}. \<exists>l \<in> {1..q}. client_connection_name n p k = client_connection_name m q l) \<longleftrightarrow>
    2 \<le> p \<and> q = 1 \<and> (\<exists>k \<in> {1..p}. m = n @ '' #'' @ show_nat k) \<or>
    2 \<le> q \<and> p = 1 \<and> (\<exists>k \<in> {1..q}. n = m @ '' #'' @ show_nat k)"
proof -
  consider "p = 0 \<or> q = 0" | "p = 1" "q = 1" | "2 \<le> p" "q = 1" | "p = 1" "2 \<le> q" | "2 \<le> p" "2 \<le> q" by linarith
  then show ?thesis
  proof cases
    case 5
    have "n @ '' #'' @ show_nat k \<noteq> m @ '' #'' @ show_nat l" for k l using assms numbered_inj(1) by blast
    with 5 show ?thesis by (simp add: client_connection_name_def)
  next
    case 3
    then show ?thesis by (auto simp: client_connection_name_def)
  next
    case 4
    then show ?thesis by (auto simp: client_connection_name_def)
  qed (use assms in \<open>auto simp: client_connection_name_def\<close>)
qed

lemma start_transports_no_panic:
  assumes "\<And>name k n. (name, k) \<in> set specs \<Longrightarrow> start k n \<noteq> Panic \<and> start k n \<noteq> Pending"
  shows "start_transports kind_of start counts index names specs \<noteq> Panic \<and>
    start_transports kind_of start counts index names specs \<noteq> Pending"
  using assms
proof (induction specs arbitrary: index names)
  case (Cons spec specs)
  obtain name k where spec: "spec = (name, k)" by fastforce
  have rest: "start_transports kind_of start counts i ns specs \<noteq> Panic \<and>
      start_transports kind_of start counts i ns specs \<noteq> Pending" for i ns
    using Cons by (meson list.set_intros(2))
  have "start k n \<noteq> Panic \<and> start k n \<noteq> Pending" for n using Cons.prems spec by (meson list.set_intros(1))
  with rest show ?case
    by (auto simp: spec Let_def outcome_simps split: outcome.splits)
qed simp

lemma presentable_connection_name:
  assumes "presentable name"
  shows "connection_name (as_bytes name) = Some name"
  using assms by (simp add: connection_name_def presentable_def str_trim_self Let_def)

section \<open>The model's own transports\<close>

datatype 'c any_transport =
    ClientTransport http_client
  | ServerTransport http_server
  | DatagramTransport "'c udp_transport"

fun any_ready :: "instant \<Rightarrow> 'c any_transport \<Rightarrow> bool" where
  "any_ready now (ClientTransport h) = ht_ready_for_sending h"
| "any_ready now (ServerTransport hs) = hs_ready_for_sending hs"
| "any_ready now (DatagramTransport u) = udp_ready_for_sending now u"

fun any_direction :: "'c any_transport \<Rightarrow> (unit, transport_direction) outcome" where
  "any_direction (ClientTransport h) = ht_direction h"
| "any_direction (ServerTransport hs) = Ok (hs_direction hs)"
| "any_direction (DatagramTransport u) = Ok (udp_direction u)"

fun any_ok :: "'c any_transport \<Rightarrow> bool" where
  "any_ok (ClientTransport h) = http_client_ok h"
| "any_ok (ServerTransport hs) = server_ok hs"
| "any_ok (DatagramTransport u) = True"

lemma any_ready_egress:
  assumes "any_ok t" "any_ready now t"
  shows "\<exists>d. any_direction t = Ok d \<and> contains d DIR_EGRESS"
proof (cases t)
  case (ClientTransport h)
  then have ok: "http_client_ok h" and r: "ht_ready_for_sending h" using assms by simp_all
  obtain d where d: "ht_direction h = Ok d" "\<forall>i < length (ht_clients h). cl_direction (ht_clients h ! i) = d"
    using ht_direction_ok [OF ok] by blast
  obtain i where "i < length (ht_clients h)" "cl_ready_for_sending (ht_clients h ! i)"
    using ht_select [OF ok, of "[0]"] r by auto
  with d ClientTransport show ?thesis using cl.ready_egress by auto
next
  case (ServerTransport hs)
  with assms show ?thesis using hs.ready_egress by auto
next
  case (DatagramTransport u)
  with assms show ?thesis using udp.ready_egress by auto
qed

section \<open>Accounting\<close>

definition accounted :: "labels set \<Rightarrow> 't controller \<Rightarrow> u64" where
  "accounted L c = (\<Sum>l \<in> L. counter_at (transport_send_times c) l) + counter_at (transport_drops c) blackhole_labels"

lemma counter_at_family:
  "counter_at (inc_at l f) k = (if k = l then counter_at f k + 1 else counter_at f k)"
  "counter_at (get_or_create l f) k = counter_at f k"
  by (simp_all add: counter_at_def inc_at_def get_or_create_def)

lemma sum_inc:
  assumes "finite L" "l \<in> L"
  shows "(\<Sum>k \<in> L. counter_at (inc_at l f) k) = (\<Sum>k \<in> L. counter_at f k) + 1"
proof -
  have "(\<Sum>k \<in> L. counter_at (inc_at l f) k) = (\<Sum>k \<in> L. counter_at f k + (if k = l then 1 else 0))"
    by (intro sum.cong) (auto simp: counter_at_family)
  also have "\<dots> = (\<Sum>k \<in> L. counter_at f k) + 1" using assms by (simp add: sum.distrib)
  finally show ?thesis .
qed

lemma handle_packet_step:
  assumes "\<And>t p. labels_of (snd (send t p)) = labels_of t" "labels_of ` set (transports c) = L"
    "blackhole_labels \<notin> L"
  shows "labels_of ` set (transports (handle_packet ready labels_of send packet c)) = L"
    "accounted L (handle_packet ready labels_of send packet c) = accounted L c + 1"
proof -
  let ?c' = "handle_packet ready labels_of send packet c"
  have fin: "finite L" using assms(2) by auto
  have "labels_of ` set (transports ?c') = L \<and> accounted L ?c' = accounted L c + 1"
  proof (cases "select_transport ready (transports c)")
    case None
    then have "?c' = c\<lparr>transport_drops := inc_at blackhole_labels (transport_drops c)\<rparr>"
      by (simp add: handle_packet_def)
    then show ?thesis using assms(2) by (simp add: accounted_def counter_at_family)
  next
    case (Some i)
    obtain result t' where s: "send (transports c ! i) packet = (result, t')" by fastforce
    let ?l = "labels_of (transports c ! i)"
    have i: "i < length (transports c)" using Some by (simp add: select_transport_iff)
    then have l: "?l \<in> L" using assms(2) by auto
    define drops where "drops = (case result of Inl e \<Rightarrow> inc_at ?l (get_or_create ?l (transport_drops c))
        | Inr u \<Rightarrow> get_or_create ?l (transport_drops c))"
    have c': "?c' = c\<lparr>transports := (transports c)[i := t'], transport_drops := drops,
        transport_send_times := inc_at ?l (transport_send_times c)\<rparr>"
      by (simp add: handle_packet_def Some s Let_def drops_def)
    have "labels_of t' = ?l" using assms(1) [of "transports c ! i" packet] s by simp
    then have same: "map labels_of ((transports c)[i := t']) = map labels_of (transports c)"
      using i by (simp add: map_update list_update_same_conv)
    have "set (map labels_of ((transports c)[i := t'])) = L"
      unfolding same using assms(2) by simp
    then have "labels_of ` set (transports ?c') = L" unfolding c' by simp
    moreover have "blackhole_labels \<noteq> ?l" using l assms(3) by auto
    then have "counter_at drops blackhole_labels = counter_at (transport_drops c) blackhole_labels"
      by (simp add: drops_def counter_at_family split: sum.splits)
    then have "accounted L ?c' = accounted L c + 1"
      using sum_inc [OF fin l, of "transport_send_times c"] by (simp add: accounted_def c')
    ultimately show ?thesis by blast
  qed
  then show "labels_of ` set (transports ?c') = L" "accounted L ?c' = accounted L c + 1" by blast+
qed

lemma handle_packets_accounted:
  assumes "\<And>t p. labels_of (snd (send t p)) = labels_of t" "labels_of ` set (transports c) = L"
    "blackhole_labels \<notin> L"
  shows "accounted L (fold (handle_packet ready labels_of send) packets c) = accounted L c + word_of_nat (length packets)"
  using assms(2)
proof (induction packets arbitrary: c)
  case (Cons packet packets)
  note step = handle_packet_step [where ready = ready, where packet = packet, OF assms(1) Cons.prems assms(3)]
  from Cons.IH [OF step(1)] step(2) show ?case by simp
qed simp

section \<open>Properties\<close>

text \<open>C27: the names of the transports.  A controller that starts has one transport per configured one, in
  the same order, with pairwise distinct names, none of them the blackhole's; a configured name is
  kept; and whatever number of connections a client of such a name opens, the server at the other
  end accepts the name of each and reads it back unchanged.\<close>
theorem controller_names:
  assumes "new_controller kind_of start specs = Ok ts"
  shows "length ts = length specs \<and> distinct (map fst ts) \<and> BLACKHOLE_TRANSPORT \<notin> set (map fst ts) \<and>
    (\<forall>i < length specs. \<forall>n. fst (specs ! i) = Some n \<longrightarrow> fst (ts ! i) = n) \<and>
    (\<forall>n \<in> set (map fst ts). \<forall>count k.
       connection_name (as_bytes (client_connection_name n count k)) = Some (client_connection_name n count k))"
proof -
  note names = start_transports_names [OF assms [unfolded new_controller_def] distinct.simps(1) [THEN iffD2, OF TrueI]]
  have "connection_name (as_bytes (client_connection_name n count k)) = Some (client_connection_name n count k)"
    if "presentable n" for n count k
    using that presentable_numbered
    by (intro presentable_connection_name) (simp add: client_connection_name_def)
  with names show ?thesis by auto
qed

definition demo_specs :: "transport_kind transport_specs" where
  "demo_specs = [(Some ''HTTP client'', HttpClientKind), (None, HttpClientKind)]"

lemma demo_specs_start:
  "new_controller id (\<lambda>kind n. Ok kind) demo_specs
     = Ok [(''HTTP client'', HttpClientKind), (''HTTP client #2'', HttpClientKind)]"
  by (simp add: new_controller_def demo_specs_def count_kinds_def auto_name_def valid_transport_name_def
      BLACKHOLE_TRANSPORT_def is_ascii_alphanumeric_def str_trim_self is_whitespace_def show_small
      outcome_simps numeral_2_eq_2 [symmetric])

lemma controller_names_witness:
  "connection_name (as_bytes (client_connection_name ''HTTP client #2'' 3 1)) = Some ''HTTP client #2 #1''"
proof -
  have "connection_name (as_bytes (client_connection_name ''HTTP client #2'' 3 1))
      = Some (client_connection_name ''HTTP client #2'' 3 1)"
    using controller_names [OF demo_specs_start] by auto
  then show ?thesis by (simp add: client_connection_name_def show_small)
qed

text \<open>Every packet is accounted for.  Over any number of packets, whatever the transports answer,
  each is either observed by the send times of the transport it was given to or counted as a drop
  of the blackhole: together these counters grow by one a packet.\<close>
theorem controller_accounting:
  assumes "\<And>t p. labels_of (snd (send t p)) = labels_of t" "blackhole_labels \<notin> labels_of ` set (transports c)"
  shows "accounted (labels_of ` set (transports c)) (fold (handle_packet ready labels_of send) packets c)
    = accounted (labels_of ` set (transports c)) c + word_of_nat (length packets)"
  by (rule handle_packets_accounted [OF assms(1) refl assms(2)])

lemma controller_accounting_witness:
  "accounted {transport_labels ''a''}
     (fold (handle_packet (\<lambda>n. n < (2 :: nat)) (\<lambda>n. transport_labels ''a'') (\<lambda>n p. (Inr (), n + 1)))
        [[1], [2], [3]] \<lparr>transports = [0], transport_drops = Map.empty, transport_send_times = Map.empty\<rparr>) = 3"
proof -
  have "blackhole_labels \<noteq> transport_labels ''a''"
    by (simp add: blackhole_labels_def transport_labels_def BLACKHOLE_TRANSPORT_def)
  with controller_accounting [of "\<lambda>n. transport_labels ''a''" "\<lambda>n p. (Inr (), n + 1)"
      "\<lparr>transports = [0 :: nat], transport_drops = Map.empty, transport_send_times = Map.empty\<rparr>"
      "\<lambda>n. n < 2" "[[1], [2], [3]]"]
  show ?thesis by (simp add: accounted_def counter_at_def)
qed

text \<open>Which transport a packet takes.  The first one in the order of the configuration that is ready
  for sending, and the direction that this transport reports includes egress, whatever its kind; the
  packet is dropped only if none is ready.\<close>
theorem controller_egress:
  assumes "list_all any_ok ts"
  shows "case select_transport (any_ready now) ts of
      Some i \<Rightarrow> i < length ts \<and> any_ready now (ts ! i) \<and> (\<forall>j < i. \<not> any_ready now (ts ! j)) \<and>
        (\<exists>d. any_direction (ts ! i) = Ok d \<and> contains d DIR_EGRESS)
    | None \<Rightarrow> \<forall>t \<in> set ts. \<not> any_ready now t"
proof (cases "select_transport (any_ready now) ts")
  case None
  then have "\<forall>t \<in> set ts. \<not> any_ready now t" by (simp add: select_transport_None list_ex_iff)
  with None show ?thesis by simp
next
  case (Some i)
  then have i: "i < length ts" "any_ready now (ts ! i)" "\<forall>j < i. \<not> any_ready now (ts ! j)"
    by (simp_all add: select_transport_iff)
  with assms have "any_ok (ts ! i)" by (simp add: list_all_length)
  from any_ready_egress [OF this i(2)] i show ?thesis unfolding Some by simp
qed

definition demo_transports :: "u64 any_transport list" where
  "demo_transports = [DatagramTransport (demo_end 5), ServerTransport demo_http_server]"

lemma controller_egress_witness:
  "select_transport (any_ready 7) demo_transports = Some 1 \<and>
   (\<exists>d. any_direction (demo_transports ! 1) = Ok d \<and> contains d DIR_EGRESS)"
proof -
  have "\<not> udp_ready_for_sending 7 (demo_end 5)"
    by (simp add: udp_ready_for_sending_def udp_connected_def demo_end_def new_udp_transport_def
        state_connected_def new_state_def)
  then have "select_transport (any_ready 7) demo_transports = Some 1"
    by (simp add: demo_transports_def demo_http_server_ready)
  moreover have "list_all any_ok demo_transports"
    by (simp add: demo_transports_def demo_http_server_ok)
  note controller_egress [OF this, of 7]
  ultimately show ?thesis by simp
qed

end
