(* ===== verification/CrawlRounds.thy ===== *)
theory CrawlRounds imports Crawler begin

text \<open>
  The rounds of the crawler's loop (\<open>Crawler::run\<close>): its iterations as a relation, and the
  invariants of the queue and of the HTTP client, with what a client is used for as a relation of its own
  (\<open>serving\<close>); and what sitemaps and pages put on the queue (\<open>schedules\<close>).
\<close>

section \<open>Assumptions\<close>

text \<open>Drawn capacities are in their range, and shuffling and iterating lose nothing.\<close>

definition world_ok :: "'u url_ops \<Rightarrow> 'u world \<Rightarrow> bool" where
  "world_ok U w \<longleftrightarrow> w_urls w = U \<and> (\<forall>m \<ge> 1. 1 \<le> w_capacity w m \<and> w_capacity w m \<le> m) \<and>
     (\<forall>xs. set (w_shuffle w xs) = set xs) \<and> (\<forall>xs. set (w_order w xs) = set xs)"

definition crawl_round :: "'u url_ops \<Rightarrow> 'u crawler \<Rightarrow> 'u crawler \<Rightarrow> bool" where
  "crawl_round U c c' \<longleftrightarrow> (\<exists>w reply task. world_ok U w \<and> run_round w reply c = (Ok task, c'))"

text \<open>\<open>iteration U c tasks c'\<close>: an iteration that has started at \<open>c\<close> has fetched \<open>tasks\<close> and is at \<open>c'\<close>.\<close>

inductive iteration :: "'u url_ops \<Rightarrow> 'u crawler \<Rightarrow> 'u crawl_task list \<Rightarrow> 'u crawler \<Rightarrow> bool" for U where
  first: "crawl_queue c = [] \<Longrightarrow> w_urls w = U \<Longrightarrow> run_round w reply c = (Ok task, c') \<Longrightarrow>
    iteration U c [task] c'"
| further: "iteration U c tasks c' \<Longrightarrow> crawl_queue c' \<noteq> [] \<Longrightarrow> w_urls w = U \<Longrightarrow>
    run_round w reply c' = (Ok task, c'') \<Longrightarrow> iteration U c (tasks @ [task]) c''"

section \<open>The steps of a round\<close>

lemma acquire_client_rest:
  "acquire_client w cost c = (r, c1) \<Longrightarrow> (ledger U f c1 \<longleftrightarrow> ledger U f c) \<and> crawl_base c1 = crawl_base c \<and>
     crawl_config c1 = crawl_config c \<and> crawl_sitemap c1 = crawl_sitemap c \<and> r \<noteq> Pending \<and>
     (r = Panic \<longrightarrow> max_client_capacity (crawl_config c) = Some 0)"
  by (auto simp: acquire_client_def create_client_def drop_client_def ledger_def Let_def
      split: option.splits if_splits)

lemmas resource_keeps =
  crawl_resource.after_observing [OF process_resource_contract] crawl_resource.no_panic [OF process_resource_contract]

lemma process_task_rest:
  assumes "ledger (w_urls w) f c" "process_task w reply task c = (r, c')"
  shows "ledger (w_urls w) f c'" "crawl_base c' = crawl_base c" "crawl_sitemap c' = crawl_sitemap c"
    "crawl_config c' = crawl_config c" "r = Panic \<Longrightarrow> max_client_capacity (crawl_config c) = Some 0"
proof -
  obtain r1 c1 where a: "acquire_client w (if task_delay task = None then 0 else 1) c = (r1, c1)" by fastforce
  note rest = acquire_client_rest [OF a, of "w_urls w" f]
  have res: "ledger (w_urls w) f (snd (process_resource w (task_resource task) resp (observe_request c1))) \<and>
      kept c1 (snd (process_resource w (task_resource task) resp (observe_request c1)))" for resp
    using resource_keeps rest assms(1) by blast
  have "ledger (w_urls w) f c' \<and> (kept c c' \<or> kept c1 c') \<and> (r = Panic \<longrightarrow> max_client_capacity (crawl_config c) = Some 0)"
    using assms res rest resource_keeps(3) [of w "task_resource task"]
    by (auto simp: process_task_def a split: if_splits outcome.splits sum.splits)
      (metis fst_conv snd_conv)+
  with rest show "ledger (w_urls w) f c'" "crawl_base c' = crawl_base c" "crawl_sitemap c' = crawl_sitemap c"
    "crawl_config c' = crawl_config c" "r = Panic \<Longrightarrow> max_client_capacity (crawl_config c) = Some 0"
    by (auto simp: kept_def)
qed

lemma on_error_rest [simp]:
  "crawl_sitemap (on_error c) = crawl_sitemap c" "crawl_config (on_error c) = crawl_config c"
  by (simp_all add: on_error_def)

lemma before_delay_rest [simp]:
  "ledger U f (before_delay task c) \<longleftrightarrow> ledger U f c" "crawl_base (before_delay task c) = crawl_base c"
  "crawl_config (before_delay task c) = crawl_config c" "crawl_sitemap (before_delay task c) = crawl_sitemap c"
  by (auto simp: before_delay_def drop_client_def ledger_def split: option.splits)

text \<open>Taking a task off the queue enters it into the ledger.\<close>

lemma next_task_ledger:
  assumes "next_task U c = (Ok task, c')" "crawl_queue c \<noteq> [] \<Longrightarrow> ledger U f c"
  shows "\<exists>p. validate_url_base U (crawl_base c) (task_url task) = Some p \<and>
      ledger U (if crawl_queue c = [] then [p] else f @ [p]) c'"
    "crawl_base c' = crawl_base c" "crawl_sitemap c' = crawl_sitemap c" "crawl_config c' = crawl_config c"
proof -
  have "(\<exists>p. validate_url_base U (crawl_base c) (task_url task) = Some p \<and>
      ledger U (if crawl_queue c = [] then [p] else f @ [p]) c') \<and>
      crawl_base c' = crawl_base c \<and> crawl_sitemap c' = crawl_sitemap c \<and> crawl_config c' = crawl_config c"
  proof (cases "crawl_queue c")
    case Nil
    with assms(1) show ?thesis
      by (auto simp: next_task_def start_iteration_def drop_client_def Let_def ledger_def
          MAX_RESOURCES_PER_ITERATION_def split: option.splits)
  next
    case (Cons t ts)
    with assms(2) have "ledger U f c" by simp
    then obtain ps where
      "map (\<lambda>task. validate_url_base U (crawl_base c) (task_url task)) (crawl_queue c) = map Some ps"
      "distinct (f @ ps)" "crawled_resources c = set (f @ ps)" "length (f @ ps) \<le> MAX_RESOURCES_PER_ITERATION"
      unfolding ledger_def by blast
    moreover from this Cons obtain p qs where "ps = p # qs" by (cases ps) auto
    ultimately show ?thesis using Cons assms(1)
      by (auto simp: next_task_def ledger_def intro!: exI [of _ qs])
  qed
  then show "\<exists>p. validate_url_base U (crawl_base c) (task_url task) = Some p \<and>
      ledger U (if crawl_queue c = [] then [p] else f @ [p]) c'"
    "crawl_base c' = crawl_base c" "crawl_sitemap c' = crawl_sitemap c" "crawl_config c' = crawl_config c" by blast+
qed

lemma run_round_ledger:
  assumes "run_round w reply c = (Ok task, c')" "crawl_queue c \<noteq> [] \<Longrightarrow> ledger (w_urls w) f c"
  shows "\<exists>p. validate_url_base (w_urls w) (crawl_base c) (task_url task) = Some p \<and>
      ledger (w_urls w) (if crawl_queue c = [] then [p] else f @ [p]) c'" "crawl_base c' = crawl_base c"
    "crawl_sitemap c' = crawl_sitemap c" "crawl_config c' = crawl_config c"
proof -
  obtain c1 where n: "next_task (w_urls w) c = (Ok task, c1)"
    using assms(1) by (auto simp: run_round_def split: prod.splits outcome.splits)
  obtain p where p: "validate_url_base (w_urls w) (crawl_base c) (task_url task) = Some p"
    "ledger (w_urls w) (if crawl_queue c = [] then [p] else f @ [p]) c1"
    using next_task_ledger(1) [OF n assms(2)] by blast
  obtain r c2 where t: "process_task w reply task (before_delay task c1) = (r, c2)" by fastforce
  have "c' = c2 \<or> c' = on_error c2" using assms(1) by (auto simp: run_round_def n t split: outcome.splits)
  moreover have "ledger (w_urls w) (if crawl_queue c = [] then [p] else f @ [p]) (before_delay task c1)"
    using p(2) by simp
  note process_task_rest [OF this t]
  moreover note next_task_ledger(2-) [OF n assms(2)] p(1)
  ultimately show "\<exists>p. validate_url_base (w_urls w) (crawl_base c) (task_url task) = Some p \<and>
      ledger (w_urls w) (if crawl_queue c = [] then [p] else f @ [p]) c'" "crawl_base c' = crawl_base c"
    "crawl_sitemap c' = crawl_sitemap c" "crawl_config c' = crawl_config c"
    by auto
qed

lemma iteration_ledger:
  "iteration U c tasks c' \<Longrightarrow> \<exists>ps. map (\<lambda>task. validate_url_base U (crawl_base c) (task_url task)) tasks = map Some ps \<and>
     ledger U ps c' \<and> crawl_base c' = crawl_base c"
proof (induction rule: iteration.induct)
  case (first c w reply task c')
  from run_round_ledger [OF first(3), of "[]"] first(1,2) show ?case
    by (auto intro: exI [of _ "[_]"])
next
  case (further c tasks c' w reply task c'')
  then obtain ps where ps: "map (\<lambda>task. validate_url_base U (crawl_base c) (task_url task)) tasks = map Some ps"
    "ledger U ps c'" "crawl_base c' = crawl_base c" by blast
  from run_round_ledger [OF further(4), of ps] further(2,3) ps obtain p where
    "validate_url_base U (crawl_base c) (task_url task) = Some p" "ledger U (ps @ [p]) c''" "crawl_base c'' = crawl_base c"
    by auto
  with ps show ?case by (intro exI [of _ "ps @ [p]"]) simp
qed

section \<open>The HTTP client\<close>

text \<open>The gauge counts the open client, and a client with a capacity has not used more than it.\<close>

fun capacity_ok :: "nat option \<Rightarrow> nat option \<Rightarrow> nat \<Rightarrow> bool" where
  "capacity_ok None None used = True"
| "capacity_ok (Some m) (Some capacity) used = (used \<le> capacity \<and> 1 \<le> capacity \<and> capacity \<le> m)"
| "capacity_ok _ _ used = False"

lemma capacity_ok_Some: "capacity_ok m (Some capacity) used \<longleftrightarrow> (\<exists>n. m = Some n \<and> used \<le> capacity \<and> 1 \<le> capacity \<and> capacity \<le> n)"
  by (cases m) auto

definition client_ok :: "'u crawler \<Rightarrow> bool" where
  "client_ok c \<longleftrightarrow> active_connections (crawl_metrics c) = (if crawl_client c = None then 0 else 1) \<and>
     (\<forall>lc. crawl_client c = Some lc \<longrightarrow>
        capacity_ok (max_client_capacity (crawl_config c)) (lc_capacity lc) (lc_used lc))"

lemma client_ok_kept: "kept c c' \<Longrightarrow> client_ok c' \<longleftrightarrow> client_ok c"
  by (simp add: kept_def client_ok_def)

lemma client_ok_drop: "client_ok c \<Longrightarrow> crawl_client c \<noteq> None \<Longrightarrow> client_ok (drop_client c)"
  by (simp add: client_ok_def drop_client_def)

lemma client_ok_create:
  assumes "client_ok c" "crawl_client c = None" "world_ok U w" "cost \<le> 1"
  shows "client_ok (snd (create_client w cost c))"
proof (cases "max_client_capacity (crawl_config c) = Some 0")
  case False
  have "capacity_ok (max_client_capacity (crawl_config c))
      (map_option (w_capacity w) (max_client_capacity (crawl_config c))) cost"
  proof (cases "max_client_capacity (crawl_config c)")
    case (Some m)
    with False have "1 \<le> m" by simp
    with assms(3) have "1 \<le> w_capacity w m \<and> w_capacity w m \<le> m"
      unfolding world_ok_def by blast
    with Some assms(4) show ?thesis by simp
  qed simp
  then show ?thesis using assms(1,2) False
    by (simp add: create_client_def client_ok_def split: option.split)
qed (use assms in \<open>simp add: create_client_def split: option.split\<close>)

lemma client_ok_acquire:
  assumes "client_ok c" "world_ok U w" "cost \<le> 1"
  shows "client_ok (snd (acquire_client w cost c))"
proof (cases "crawl_client c")
  case None
  then show ?thesis using client_ok_create [OF assms(1) None assms(2,3)] by (simp add: acquire_client_def)
next
  case (Some lc)
  show ?thesis
  proof (cases "lc_capacity lc")
    case None
    with Some assms(1) show ?thesis by (simp add: acquire_client_def)
  next
    case capacity: (Some capacity)
    show ?thesis
    proof (cases "lc_used lc + cost \<le> capacity")
      case True
      with assms(1) Some capacity show ?thesis
        by (cases "max_client_capacity (crawl_config c)") (simp_all add: acquire_client_def Let_def client_ok_def)
    next
      case False
      have "client_ok (drop_client c)" by (rule client_ok_drop [OF assms(1)]) (simp add: Some)
      then have "client_ok (snd (create_client w cost (drop_client c)))"
        by (rule client_ok_create [OF _ _ assms(2,3)]) (simp add: drop_client_def)
      then show ?thesis using False by (simp add: acquire_client_def Some capacity Let_def)
    qed
  qed
qed

lemma client_ok_process:
  assumes "client_ok c" "world_ok U w" "ledger U f c"
    "process_task w reply task c = (r, c')"
  shows "client_ok c'"
proof -
  obtain r1 c1 where a: "acquire_client w (if task_delay task = None then 0 else 1) c = (r1, c1)" by fastforce
  have U: "w_urls w = U" using assms(2) by (simp add: world_ok_def)
  have ok: "client_ok c1"
    using client_ok_acquire [OF assms(1,2), of "if task_delay task = None then 0 else 1"] a by simp
  have "ledger U f c1" using acquire_client_rest [OF a] assms(3) by blast
  then have res: "kept c1 (snd (process_resource w (task_resource task) resp (observe_request c1)))" for resp
    using resource_keeps(2) U by blast
  have "c' = c \<or> c' = c1 \<or> c' = observe_request c1 \<or>
      (\<exists>resp. process_resource w (task_resource task) resp (observe_request c1) = (r, c'))"
    using assms(4) by (auto simp: process_task_def a split: if_splits outcome.splits sum.splits)
  then have "c' = c \<or> kept c1 c'" using res by (metis kept_refl kept_simple(3) snd_conv)
  with assms(1) ok client_ok_kept show ?thesis by blast
qed

lemma client_ok_next:
  assumes "client_ok c" "next_task U c = (r, c')"
  shows "client_ok c'" "crawl_config c' = crawl_config c"
proof -
  have "client_ok c' \<and> crawl_config c' = crawl_config c"
  proof (cases "crawl_queue c")
    case (Cons t ts)
    with assms show ?thesis by (auto simp: next_task_def client_ok_def)
  next
    case Nil
    define d where "d = c\<lparr>crawled_resources := {}\<rparr>"
    have "client_ok d" using assms(1) by (simp add: client_ok_def d_def)
    then have ok: "client_ok (if crawl_client d \<noteq> None then drop_client d else d)" (is "client_ok ?e")
      using client_ok_drop [of d] by simp
    have "c' = ?e \<or> (\<exists>p. c' = ?e\<lparr>crawled_resources := {p}\<rparr>)"
      using assms(2) Nil by (auto simp: next_task_def start_iteration_def d_def Let_def split: option.splits)
    then have "client_ok c' \<longleftrightarrow> client_ok ?e" "crawl_config c' = crawl_config ?e"
      by (auto simp: client_ok_def)
    with ok show ?thesis by (simp add: d_def drop_client_def)
  qed
  then show "client_ok c'" "crawl_config c' = crawl_config c" by blast+
qed

lemma client_ok_before_delay: "client_ok c \<Longrightarrow> client_ok (before_delay task c)"
  using client_ok_drop [of c] by (auto simp: before_delay_def split: option.splits)

lemma client_ok_round:
  assumes "client_ok c" "ledger U f c" "world_ok U w"
    "run_round w reply c = (r, c')"
  shows "client_ok c'"
proof (cases "fst (next_task U c)")
  case (Ok task)
  then obtain c1 where n: "next_task U c = (Ok task, c1)" by (metis prod.collapse)
  have U: "w_urls w = U" using assms(3) by (simp add: world_ok_def)
  obtain g where "ledger U g c1" using next_task_ledger(1) [OF n assms(2)] by blast
  then have l: "ledger U g (before_delay task c1)" by simp
  obtain r2 c2 where t: "process_task w reply task (before_delay task c1) = (r2, c2)" by fastforce
  have "client_ok c2"
    by (rule client_ok_process [OF client_ok_before_delay [OF client_ok_next(1) [OF assms(1) n]] assms(3) l t])
  moreover have "c' = c2 \<or> c' = on_error c2"
    using assms(4) by (auto simp: run_round_def U n t split: outcome.splits)
  ultimately show ?thesis using client_ok_kept [of c2 "on_error c2"] by auto
next
  case Panic
  with assms client_ok_next show ?thesis
    by (auto simp: run_round_def world_ok_def split: prod.splits outcome.splits)
next
  case Pending
  with assms client_ok_next show ?thesis
    by (auto simp: run_round_def world_ok_def split: prod.splits outcome.splits)
next
  case (Err e)
  with assms client_ok_next show ?thesis
    by (auto simp: run_round_def world_ok_def split: prod.splits outcome.splits)
qed

section \<open>Reachable states\<close>

definition crawler_ok :: "'u url_ops \<Rightarrow> 'u crawler \<Rightarrow> bool" where
  "crawler_ok U c \<longleftrightarrow> (\<exists>f. ledger U f c) \<and> client_ok c"

lemma new_crawler_ok:
  assumes "new_crawler U domain_base lost max_idle config = Ok c"
  shows "crawler_ok U c"
  using assms
  by (auto simp: new_crawler_def build_cache_def crawler_ok_def ledger_def client_ok_def new_metrics_def outcome_simps
      split: option.splits intro!: exI [of _ "[]"])

lemma crawl_round_ok:
  assumes "crawl_round U c c'" "crawler_ok U c"
  shows "crawler_ok U c'" "crawl_base c' = crawl_base c" "crawl_sitemap c' = crawl_sitemap c"
    "crawl_config c' = crawl_config c"
proof -
  obtain w reply task f where r: "world_ok U w" "run_round w reply c = (Ok task, c')" "ledger U f c"
    using assms by (auto simp: crawl_round_def crawler_ok_def)
  then have U: "w_urls w = U" by (simp add: world_ok_def)
  note rest = run_round_ledger [OF r(2), of f, unfolded U, OF r(3)]
  with client_ok_round [OF _ r(3,1,2)] assms(2) show "crawler_ok U c'"
    by (auto simp: crawler_ok_def)
  show "crawl_base c' = crawl_base c" "crawl_sitemap c' = crawl_sitemap c" "crawl_config c' = crawl_config c"
    using rest(2-4) by simp_all
qed

lemma reachable_ok:
  assumes "(crawl_round U)\<^sup>*\<^sup>* c c'" "crawler_ok U c"
  shows "crawler_ok U c' \<and> crawl_base c' = crawl_base c \<and> crawl_sitemap c' = crawl_sitemap c \<and>
    crawl_config c' = crawl_config c"
  using assms(1)
proof (induction rule: rtranclp_induct)
  case (step d e)
  with crawl_round_ok [OF step(2)] show ?case by simp
qed (simp add: assms(2))

lemma new_crawler_fields:
  "new_crawler U domain_base lost max_idle config = Ok c \<Longrightarrow>
     crawl_queue c = [] \<and> crawl_config c = config \<and> crawl_client c = None"
  by (auto simp: new_crawler_def build_cache_def outcome_simps split: option.splits)

lemma run_round_panic:
  assumes "ledger (w_urls w) f c" "fst (run_round w reply c) = Panic"
  shows "crawl_queue c = [] \<and> validate_url_base (w_urls w) (crawl_base c) (crawl_sitemap c) = None \<or>
    max_client_capacity (crawl_config c) = Some 0"
proof (rule ccontr)
  assume a: "\<not> ?thesis"
  then obtain task c1 where n: "next_task (w_urls w) c = (Ok task, c1)"
    by (cases "crawl_queue c") (auto simp: next_task_def start_iteration_def Let_def)
  obtain g where "ledger (w_urls w) g c1" using next_task_ledger(1) [OF n assms(1)] by blast
  then have l: "ledger (w_urls w) g (before_delay task c1)" by simp
  obtain r c2 where t: "process_task w reply task (before_delay task c1) = (r, c2)" by fastforce
  have "r \<noteq> Panic" using process_task_rest(5) [OF l t] next_task_ledger(2-) [OF n assms(1)] a by auto
  with assms(2) t show False by (cases r) (simp_all add: run_round_def n)
qed

lemma first_round_panic:
  assumes "crawl_queue c = []" "crawl_client c = None"
    "validate_url_base (w_urls w) (crawl_base c) (crawl_sitemap c) = None \<or>
     max_client_capacity (crawl_config c) = Some 0 \<and> w_client_error w = None"
  shows "fst (run_round w reply c) = Panic"
  using assms
  by (auto simp: run_round_def next_task_def start_iteration_def Let_def before_delay_def process_task_def
      acquire_client_def create_client_def split: option.splits)

section \<open>The requests of a client\<close>

text \<open>The delayed requests made over the client that is open, counted from what a round shows: a request is one
  more observed time, a new client one more counted connection.\<close>

definition served :: "'u crawl_task \<Rightarrow> 'u crawler \<Rightarrow> 'u crawler \<Rightarrow> nat \<Rightarrow> nat" where
  "served task c c' n =
     (let requested = request_times (crawl_metrics c') \<noteq> request_times (crawl_metrics c);
          opened = new_connections_count (crawl_metrics c') \<noteq> new_connections_count (crawl_metrics c);
          before = (if opened then 0 else n)
      in if crawl_client c' = None then 0
         else if requested \<and> task_delay task \<noteq> None then before + 1 else before)"

inductive serving :: "'u url_ops \<Rightarrow> 'u crawler \<Rightarrow> nat \<Rightarrow> 'u crawler \<Rightarrow> bool" for U c0 where
  created: "serving U c0 0 c0"
| round: "serving U c0 n c \<Longrightarrow> world_ok U w \<Longrightarrow> run_round w reply c = (Ok task, c') \<Longrightarrow>
    serving U c0 (served task c c' n) c'"

lemma serving_reachable: "serving U c0 n c \<Longrightarrow> (crawl_round U)\<^sup>*\<^sup>* c0 c"
proof (induction rule: serving.induct)
  case (round n c w reply task c')
  then have "crawl_round U c c'" unfolding crawl_round_def by blast
  with round.IH show ?case by (rule rtranclp.rtrancl_into_rtrancl)
qed simp

definition used_by :: "nat \<Rightarrow> 'u crawler \<Rightarrow> bool" where
  "used_by n c \<longleftrightarrow> (\<forall>lc. crawl_client c = Some lc \<and> lc_capacity lc \<noteq> None \<longrightarrow> lc_used lc = n)"

text \<open>What the count depends on, and what does not change it.\<close>

definition client_view :: "'u crawler \<Rightarrow> limited_client option \<times> u64 \<times> u64" where
  "client_view c = (crawl_client c, new_connections_count (crawl_metrics c), request_times (crawl_metrics c))"

lemma client_view_simps [simp]:
  "client_view (on_error c) = client_view c" "client_view (cache_add U url t c) = client_view c"
  "client_view (add_task U url d r c) = client_view c" "client_view (queue_link w l c) = client_view c"
  "client_view (queue_sitemap_entry U at d rs location c) = client_view c"
  by (auto simp: client_view_def on_error_def cache_add_def add_task_def queue_link_def queue_sitemap_entry_def Let_def
      split: option.splits prod.splits)

lemma client_view_fold: "(\<And>x d. client_view (g x d) = client_view d) \<Longrightarrow> client_view (fold g xs c) = client_view c"
  by (induction xs arbitrary: c) simp_all

lemma client_view_skip [simp]: "client_view (snd (skip_asset sz s c)) = client_view c"
  by (induction sz s c rule: skip_asset.induct) simp_all

lemma client_view_page [simp]: "client_view (snd (process_page w resp c)) = client_view c"
  by (simp add: process_page_def process_asset_def client_view_fold split: outcome.split)

lemma client_view_resource: "client_view (snd (process_resource w r resp c)) = client_view c"
  by (cases r) (simp_all add: process_sitemap_def process_unknown_def process_asset_def client_view_fold Let_def
      split: outcome.split sum.split sitemap.split)

lemma client_view_process: "process_resource w r resp c = (q, c') \<Longrightarrow> client_view c' = client_view c"
  using client_view_resource [of w r resp c] by simp

lemma acquire_view:
  assumes "acquire_client w cost d = (r, d1)" "used_by n d"
  shows "request_times (crawl_metrics d1) = request_times (crawl_metrics d)"
    "r = Ok u \<Longrightarrow> crawl_client d1 \<noteq> None \<and>
       used_by (if new_connections_count (crawl_metrics d1) \<noteq> new_connections_count (crawl_metrics d)
                then cost else n + cost) d1"
    "\<nexists>u. r = Ok u \<Longrightarrow> crawl_client d1 = None"
  using assms
  by (auto simp: acquire_client_def create_client_def drop_client_def used_by_def Let_def
      split: option.splits if_splits)

lemma before_task_view:
  assumes "next_task U c = (Ok task, c1)" "used_by n c"
  shows "used_by n (before_delay task c1)"
    "request_times (crawl_metrics (before_delay task c1)) = request_times (crawl_metrics c)"
    "new_connections_count (crawl_metrics (before_delay task c1)) = new_connections_count (crawl_metrics c)"
proof -
  have "used_by n c1 \<and> request_times (crawl_metrics c1) = request_times (crawl_metrics c) \<and>
      new_connections_count (crawl_metrics c1) = new_connections_count (crawl_metrics c)"
    using assms
    by (cases "crawl_queue c")
      (auto simp: next_task_def start_iteration_def drop_client_def used_by_def Let_def split: option.splits if_splits)
  then show "used_by n (before_delay task c1)"
    "request_times (crawl_metrics (before_delay task c1)) = request_times (crawl_metrics c)"
    "new_connections_count (crawl_metrics (before_delay task c1)) = new_connections_count (crawl_metrics c)"
    by (auto simp: before_delay_def drop_client_def used_by_def split: option.splits)
qed

lemma served_round:
  assumes "run_round w reply c = (Ok task, c')" "used_by n c"
  shows "used_by (served task c c' n) c'"
proof -
  obtain c1 where taken: "next_task (w_urls w) c = (Ok task, c1)"
    using assms(1) by (auto simp: run_round_def split: prod.splits outcome.splits)
  define d where "d = before_delay task c1"
  note start = before_task_view [OF taken assms(2), folded d_def]
  let ?cost = "if task_delay task = None then 0 else 1 :: nat"
  obtain r d1 where acq: "acquire_client w ?cost d = (r, d1)" by fastforce
  note view = acquire_view [OF acq start(1)]
  obtain r2 c2 where t: "process_task w reply task d = (r2, c2)" by fastforce
  have c': "client_view c' = client_view c2"
    using assms(1) t by (auto simp: run_round_def taken d_def split: outcome.splits)
  consider "c2 = d" | u where "r = Ok u" "client_view c2 = client_view (observe_request d1)"
    | "\<nexists>u. r = Ok u" "c2 = d1"
    using t by (auto simp: process_task_def acq dest: client_view_process split: if_splits outcome.splits sum.splits)
  then show ?thesis
  proof cases
    case 1
    with c' start show ?thesis by (simp add: client_view_def served_def used_by_def)
  next
    case 2
    from view(2) [OF this(1)] view(1) start(2,3) 2(2) c' show ?thesis
      by (simp add: client_view_def served_def used_by_def observe_request_def split: if_splits)
  next
    case 3
    from view(3) [OF this(1)] 3(2) c' show ?thesis by (simp add: client_view_def used_by_def)
  qed
qed

lemma serving_used: "serving U c0 n c \<Longrightarrow> used_by 0 c0 \<Longrightarrow> used_by n c"
  by (induction rule: serving.induct) (auto intro: served_round)

section \<open>Nothing is left out\<close>

text \<open>A URL has been entered into the iteration unless it is outside the base or the limit is reached.\<close>

definition entered :: "'u url_ops \<Rightarrow> 'u crawler \<Rightarrow> 'u \<Rightarrow> bool" where
  "entered U c url \<longleftrightarrow> card (crawled_resources c) = MAX_RESOURCES_PER_ITERATION \<or>
     (\<forall>p. validate_url_base U (crawl_base c) url = Some p \<longrightarrow> p \<in> crawled_resources c)"

lemma ledger_card:
  assumes "ledger U f c"
  shows "card (crawled_resources c) \<le> MAX_RESOURCES_PER_ITERATION" "finite (crawled_resources c)"
proof -
  obtain ps where "distinct (f @ ps)" "crawled_resources c = set (f @ ps)"
    "length (f @ ps) \<le> MAX_RESOURCES_PER_ITERATION"
    using assms unfolding ledger_def by blast
  then show "card (crawled_resources c) \<le> MAX_RESOURCES_PER_ITERATION" "finite (crawled_resources c)"
    using distinct_card by fastforce+
qed

lemma entered_kept:
  assumes "kept c c'" "ledger U f c'" "entered U c url"
  shows "entered U c' url"
proof -
  have "card (crawled_resources c) \<le> card (crawled_resources c')"
    using assms(1) ledger_card(2) [OF assms(2)] by (intro card_mono) (auto simp: kept_def)
  with assms ledger_card(1) [OF assms(2)] show ?thesis by (auto simp: entered_def kept_def)
qed

lemma entered_add_task:
  assumes "ledger U f c"
  shows "entered U (add_task U url d r c) url"
  using ledger_card [OF assms]
  by (auto simp: add_task_def entered_def on_error_def Let_def card_insert_if split: option.splits if_splits)

text \<open>Entering a list of tasks, in which \<open>None\<close> stands for a URL that is reported.\<close>

fun enter :: "'u url_ops \<Rightarrow> 'u crawl_task option \<Rightarrow> 'u crawler \<Rightarrow> 'u crawler" where
  "enter U None c = on_error c"
| "enter U (Some t) c = add_task U (task_url t) (task_delay t) (task_resource t) c"

lemma fold_enter:
  assumes "\<And>x d. I d \<Longrightarrow> g x d = enter U (task_of x) d" "\<And>t d. I d \<Longrightarrow> I (enter U t d)" "I c"
  shows "fold g xs c = fold (enter U) (map task_of xs) c"
  using assms(3) by (induction xs arbitrary: c) (simp_all add: assms(1,2))

text \<open>What becomes of the queue: the tasks that are not delayed go before what was queued, the others
  behind it, and no path that is not on the queue becomes a crawled one.\<close>

definition queued_by ::
  "'u url_ops \<Rightarrow> 'u crawl_task set \<Rightarrow> 'u crawler \<Rightarrow> 'u crawl_task list \<Rightarrow> 'u crawl_task list \<Rightarrow> 'u crawler \<Rightarrow> bool" where
  "queued_by U E c front behind d \<longleftrightarrow> crawl_queue d = front @ crawl_queue c @ behind \<and> crawl_base d = crawl_base c \<and>
     (\<forall>t \<in> set front. t \<in> E \<and> task_delay t = None) \<and> (\<forall>t \<in> set behind. t \<in> E \<and> task_delay t \<noteq> None) \<and>
     (\<forall>t \<in> E. entered U d (task_url t)) \<and>
     (\<forall>p \<in> crawled_resources d. p \<in> crawled_resources c \<or>
        (\<exists>t \<in> set (front @ behind). validate_url_base U (crawl_base c) (task_url t) = Some p))"

lemma add_task_cases:
  "add_task U url ds r d = d \<or> add_task U url ds r d = on_error d \<or>
   (\<exists>p. validate_url_base U (crawl_base d) url = Some p \<and>
      add_task U url ds r d =
        (let task = \<lparr>task_url = url, task_delay = ds, task_resource = r\<rparr>
         in d\<lparr>crawled_resources := insert p (crawled_resources d),
              crawl_queue := (if ds = None then task # crawl_queue d else crawl_queue d @ [task])\<rparr>))"
  by (simp add: add_task_def split: option.split)

lemma queued_by_enter:
  assumes "ledger U f d" "queued_by U E c front behind d"
  shows "\<exists>front' behind'. queued_by U (set_option t \<union> E) c front' behind' (enter U t d)"
proof (cases t)
  case None
  with assms(2) show ?thesis
    by - (rule exI [of _ front], rule exI [of _ behind], auto simp: queued_by_def on_error_def entered_def)
next
  case (Some task)
  let ?d = "add_task U (task_url task) (task_delay task) (task_resource task) d"
  have ent: "entered U ?d (task_url e)" if "e \<in> insert task E" for e
    using that assms(2) entered_add_task [OF assms(1)] entered_kept [OF ledger_add_task(2,1) [OF assms(1)]]
    by (auto simp: queued_by_def)
  have base: "crawl_base ?d = crawl_base d" using ledger_add_task(2) [OF assms(1)] by (simp add: kept_def)
  consider "crawl_queue ?d = crawl_queue d" "crawled_resources ?d = crawled_resources d"
    | p where "validate_url_base U (crawl_base d) (task_url task) = Some p"
      "crawled_resources ?d = insert p (crawled_resources d)"
      "crawl_queue ?d = (if task_delay task = None then task # crawl_queue d else crawl_queue d @ [task])"
    using add_task_cases [of U "task_url task" "task_delay task" "task_resource task" d]
    by (auto simp: on_error_def Let_def)
  then show ?thesis
  proof cases
    case 1
    with assms(2) ent base Some show ?thesis
      by - (rule exI [of _ front], rule exI [of _ behind], simp add: queued_by_def)
  next
    case 2
    let ?front = "if task_delay task = None then task # front else front"
    let ?behind = "if task_delay task = None then behind else behind @ [task]"
    show ?thesis using 2 assms(2) ent base Some
      by - (rule exI [of _ ?front], rule exI [of _ ?behind], auto simp: queued_by_def)
  qed
qed

lemma queued_by_fold:
  assumes "ledger U f d" "queued_by U E c front behind d"
  shows "\<exists>front' behind'. queued_by U ({t. Some t \<in> set ts} \<union> E) c front' behind' (fold (enter U) ts d)"
  using assms
proof (induction ts arbitrary: d E front behind)
  case (Cons t ts)
  have "ledger U f (enter U t d)" using Cons.prems(1) ledger_add_task(1) by (cases t) simp_all
  moreover obtain front' behind' where "queued_by U (set_option t \<union> E) c front' behind' (enter U t d)"
    using queued_by_enter [OF Cons.prems] by blast
  ultimately have "\<exists>front' behind'. queued_by U ({t. Some t \<in> set ts} \<union> (set_option t \<union> E)) c front' behind'
      (fold (enter U) ts (enter U t d))" by (rule Cons.IH)
  moreover have "{t. Some t \<in> set ts} \<union> (set_option t \<union> E) = {s. Some s \<in> set (t # ts)} \<union> E"
    by (cases t) auto
  ultimately show ?case by simp
qed auto

text \<open>The specification of a processed resource that names the tasks \<open>E\<close>: what it adds to the queue are tasks
  of \<open>E\<close>, those without a delay first and the others last; and of each task of \<open>E\<close> within the base the path
  had been taken before, or it is one of those added, or the limit of the iteration is reached.\<close>

definition schedules :: "'u url_ops \<Rightarrow> 'u crawl_task set \<Rightarrow> 'u crawler \<Rightarrow> 'u crawler \<Rightarrow> bool" where
  "schedules U E c c' \<longleftrightarrow> (\<exists>front behind. crawl_queue c' = front @ crawl_queue c @ behind \<and>
     (\<forall>t \<in> set front. t \<in> E \<and> task_delay t = None) \<and> (\<forall>t \<in> set behind. t \<in> E \<and> task_delay t \<noteq> None) \<and>
     (\<forall>t \<in> E. \<forall>p. make_relative U (crawl_base c) (task_url t) = Some p \<and> \<not> climbs p \<longrightarrow>
        p \<in> crawled_resources c \<or> (\<exists>s \<in> set (front @ behind). make_relative U (crawl_base c) (task_url s) = Some p) \<or>
        card (crawled_resources c') = MAX_RESOURCES_PER_ITERATION))"

lemma validate_url_base_Some:
  "validate_url_base U base url = Some p \<longleftrightarrow> make_relative U base url = Some p \<and> \<not> climbs p"
  by (auto simp: validate_url_base_def climbs_iff split: option.splits)

lemma schedules_fold:
  assumes "ledger U f c" "E = {t. Some t \<in> set ts}"
  shows "schedules U E c (fold (enter U) ts c)"
proof -
  have "queued_by U {} c [] [] c" by (simp add: queued_by_def)
  from queued_by_fold [OF assms(1) this, of ts] obtain front behind where
    "queued_by U E c front behind (fold (enter U) ts c)" using assms(2) by auto
  note q = this [unfolded queued_by_def entered_def validate_url_base_Some]
  show ?thesis unfolding schedules_def
  proof (rule exI [of _ front], rule exI [of _ behind], intro conjI ballI allI impI)
    fix t p
    assume "t \<in> E" "make_relative U (crawl_base c) (task_url t) = Some p \<and> \<not> climbs p"
    then have "card (crawled_resources (fold (enter U) ts c)) = MAX_RESOURCES_PER_ITERATION \<or>
        p \<in> crawled_resources (fold (enter U) ts c)" using q by auto
    then show "p \<in> crawled_resources c \<or>
        (\<exists>s \<in> set (front @ behind). make_relative U (crawl_base c) (task_url s) = Some p) \<or>
        card (crawled_resources (fold (enter U) ts c)) = MAX_RESOURCES_PER_ITERATION" using q by blast
  qed (use q in blast)+
qed

section \<open>Properties\<close>

text \<open>C13: iterations end.  Whatever the server answers and however its pages link to each other, an
  iteration fetches at most 1000 resources, each of them once and all of them within the base; what
  is queued has not been fetched yet.\<close>
theorem crawl_iteration:
  assumes "iteration U c tasks c'"
  shows "length tasks + length (crawl_queue c') \<le> MAX_RESOURCES_PER_ITERATION \<and>
    distinct (map (\<lambda>task. validate_url_base U (crawl_base c) (task_url task)) (tasks @ crawl_queue c')) \<and>
    (\<forall>task \<in> set (tasks @ crawl_queue c'). validate_url_base U (crawl_base c) (task_url task) \<noteq> None)"
proof -
  let ?v = "\<lambda>task. validate_url_base U (crawl_base c) (task_url task)"
  obtain ps where ps: "map ?v tasks = map Some ps" "ledger U ps c'" "crawl_base c' = crawl_base c"
    using iteration_ledger [OF assms] by blast
  then obtain qs where qs: "map ?v (crawl_queue c') = map Some qs" "distinct (ps @ qs)"
    "length (ps @ qs) \<le> MAX_RESOURCES_PER_ITERATION"
    unfolding ledger_def by auto
  have all: "map ?v (tasks @ crawl_queue c') = map Some (ps @ qs)" using ps(1) qs(1) by simp
  have "distinct (map ?v (tasks @ crawl_queue c'))"
    unfolding all using qs(2) by (simp only: distinct_map) (simp add: inj_on_def)
  moreover have "length tasks + length (crawl_queue c') \<le> MAX_RESOURCES_PER_ITERATION"
    using qs(3) arg_cong [OF all, of length] by simp
  moreover have "?v task \<noteq> None" if "task \<in> set (tasks @ crawl_queue c')" for task
  proof -
    have "?v task \<in> set (map ?v (tasks @ crawl_queue c'))" using that by auto
    then show ?thesis unfolding all by auto
  qed
  ultimately show ?thesis by blast
qed

text \<open>C18: connections of the crawler.  In every state the crawler can reach, the gauge of active
  connections is the number of its open clients, which is at most one; and a client that has a capacity has
  made no more delayed requests than that, and has drawn no more than is configured.\<close>
theorem crawler_clients:
  assumes "new_crawler U domain_base lost max_idle config = Ok c" "serving U c n c'"
  shows "active_connections (crawl_metrics c') = (if crawl_client c' = None then 0 else 1) \<and>
    (\<forall>lc capacity. crawl_client c' = Some lc \<and> lc_capacity lc = Some capacity \<longrightarrow>
       n \<le> capacity \<and> (\<exists>m. max_client_capacity config = Some m \<and> capacity \<le> m))"
proof -
  have "client_ok c'" "crawl_config c' = config"
    using reachable_ok [OF serving_reachable [OF assms(2)] new_crawler_ok [OF assms(1)]] new_crawler_fields [OF assms(1)]
    by (auto simp: crawler_ok_def)
  moreover have "lc_used lc = n" if "crawl_client c' = Some lc" "lc_capacity lc = Some capacity" for lc capacity
    using serving_used [OF assms(2)] new_crawler_fields [OF assms(1)] that by (auto simp: used_by_def)
  ultimately show ?thesis by (auto simp: client_ok_def capacity_ok_Some dest: spec)
qed

text \<open>C14: when the crawler panics.  If the configured sitemap is within the base and the capacity of
  clients is not 0, the crawler never does, whatever it is answered.  Otherwise it is nevertheless
  created, and panics in its first round.\<close>
theorem crawler_panics_iff:
  assumes "new_crawler U domain_base lost max_idle config = Ok c" "(crawl_round U)\<^sup>*\<^sup>* c c'" "w_urls w = U"
  shows "(validate_url_base U (crawl_base c) (crawl_sitemap c) \<noteq> None \<and> max_client_capacity config \<noteq> Some 0 \<longrightarrow>
      fst (run_round w reply c') \<noteq> Panic) \<and>
    (validate_url_base U (crawl_base c) (crawl_sitemap c) = None \<or>
      max_client_capacity config = Some 0 \<and> w_client_error w = None \<longrightarrow> fst (run_round w reply c) = Panic)"
proof -
  note ok = new_crawler_ok [OF assms(1)]
  obtain f where "ledger U f c'" "crawl_base c' = crawl_base c" "crawl_sitemap c' = crawl_sitemap c"
    "crawl_config c' = crawl_config c"
    using reachable_ok [OF assms(2) ok] by (auto simp: crawler_ok_def)
  with run_round_panic [of w f c' reply] first_round_panic [of c w reply] new_crawler_fields [OF assms(1)] assms(3)
  show ?thesis by auto
qed

text \<open>What the tasks of a sitemap and of a page are.  A link is known by the cache, if it still has it, or
  guessed from its source: only what is known as a page, or linked to and unknown, is delayed.\<close>

definition known_as :: "'u world \<Rightarrow> 'u crawler \<Rightarrow> 'u \<Rightarrow> resource_type \<Rightarrow> bool" where
  "known_as w c url t \<longleftrightarrow> (\<exists>p. make_relative (w_urls w) (crawl_base c) url = Some p \<and> \<not> climbs p \<and>
     w_keep w p \<and> resource_type_cache c p = Some t)"

fun sitemap_tasks :: "'u url_ops \<Rightarrow> 'u \<Rightarrow> 'u sitemap \<Rightarrow> 'u crawl_task set" where
  "sitemap_tasks U at (Index sitemaps) =
     {\<lparr>task_url = url, task_delay = None, task_resource = Sitemap url\<rparr> | url. url \<in> set sitemaps \<and> within U at url}"
| "sitemap_tasks U at (UrlSet urls) =
     {\<lparr>task_url = url, task_delay = Some DelayPage, task_resource = Page\<rparr> | url. url \<in> set urls \<and> within U at url}"

definition page_tasks :: "'u world \<Rightarrow> 'u crawler \<Rightarrow> 'u \<Rightarrow> html_element list \<Rightarrow> 'u crawl_task set" where
  "page_tasks w c page elements =
     {\<lparr>task_url = url,
       task_delay = (if known_as w c url TypePage \<or> (\<nexists>t. known_as w c url t) \<and> source = SourceLink
                     then Some DelayPage else None),
       task_resource = UnknownResource\<rparr> | url source.
        resource_of (w_urls w) page (crawl_base c) elements url = Some source}"

lemma cache_get_known: "cache_get w url c = Some t \<longleftrightarrow> known_as w c url t"
proof (cases "validate_url_base (w_urls w) (crawl_base c) url")
  case None
  then have "\<not> (make_relative (w_urls w) (crawl_base c) url = Some p \<and> \<not> climbs p)" for p
    by (simp flip: validate_url_base_Some)
  with None show ?thesis by (auto simp: cache_get_def known_as_def)
next
  case (Some p)
  then have "make_relative (w_urls w) (crawl_base c) url = Some p" "\<not> climbs p"
    by (simp_all add: validate_url_base_Some)
  with Some show ?thesis by (auto simp: cache_get_def known_as_def)
qed

lemma queued_type:
  "type_delay (case cache_get w url c of Some t \<Rightarrow> t | None \<Rightarrow> guess_from_source source) =
     (if known_as w c url TypePage \<or> (\<nexists>t. known_as w c url t) \<and> source = SourceLink then Some DelayPage else None)"
proof (cases "cache_get w url c")
  case None
  then have "\<not> known_as w c url t" for t by (simp flip: cache_get_known)
  with None show ?thesis by (cases source) simp_all
next
  case (Some t)
  then have "known_as w c url s \<longleftrightarrow> s = t" for s by (auto simp flip: cache_get_known)
  with Some show ?thesis by (cases t) auto
qed

text \<open>C24: the crawler is complete.  A sitemap, be it an index of others or a set of URLs, and a page put
  on the queue the tasks that they name and no other: a sitemap those of its locations within itself,
  at once for an index and with a page's delay for a URL; a page its resources, delayed if they are
  taken for pages.  None is forgotten whatever the order in which they are taken, unless its path was taken
  before, lies outside the base, or the iteration's limit is reached.\<close>
theorem crawl_complete:
  assumes "ledger U f c" "world_ok U w"
  shows "(\<forall>data sitemap. read_response SITEMAP_SIZE_LIMIT resp = Ok data \<and> w_parse_sitemap w data = Inr sitemap \<and>
      within U origin (resp_url resp) \<longrightarrow>
      fst (process_sitemap w origin resp c) = Ok (length data) \<and>
      schedules U (sitemap_tasks U (resp_url resp) sitemap) c (snd (process_sitemap w origin resp c))) \<and>
    (\<forall>data. read_response HTML_SIZE_LIMIT resp = Ok data \<and> get_content_type w resp = Inr (''text'', ''html'') \<longrightarrow>
      fst (process_page w resp c) = Ok (length data) \<and>
      schedules U (page_tasks w c (resp_url resp) (w_elements w data)) c (snd (process_page w resp c)))"
proof (intro conjI allI impI)
  have U: "w_urls w = U" using assms(2) by (simp add: world_ok_def)
  fix data sitemap
  assume a: "read_response SITEMAP_SIZE_LIMIT resp = Ok data \<and> w_parse_sitemap w data = Inr sitemap \<and>
      within U origin (resp_url resp)"
  let ?at = "resp_url resp"
  let ?task = "\<lambda>ds resource url. if within U ?at url
    then Some \<lparr>task_url = url, task_delay = ds, task_resource = resource url\<rparr> else None"
  have g: "fold (queue_sitemap_entry U ?at ds resource) xs c = fold (enter U) (map (?task ds resource) xs) c"
    for ds resource and xs :: "'a list"
    by (rule fold_enter [where I = "\<lambda>_. True"]) (simp_all add: queue_sitemap_entry_def validate_url_base_within)
  have "set (w_shuffle w xs) = set xs" for xs using assms(2) by (simp add: world_ok_def)
  then have "schedules U {\<lparr>task_url = url, task_delay = ds, task_resource = resource url\<rparr> | url. url \<in> set xs \<and> within U ?at url}
      c (fold (queue_sitemap_entry U ?at ds resource) (w_shuffle w xs) c)" for ds resource xs
    unfolding g by (intro schedules_fold [OF assms(1)]) (auto split: if_splits)
  then show "fst (process_sitemap w origin resp c) = Ok (length data)"
    "schedules U (sitemap_tasks U ?at sitemap) c (snd (process_sitemap w origin resp c))"
    using a by (cases sitemap; simp add: process_sitemap_def U validate_url_base_within)+
next
  have U: "w_urls w = U" using assms(2) by (simp add: world_ok_def)
  fix data
  assume a: "read_response HTML_SIZE_LIMIT resp = Ok data \<and> get_content_type w resp = Inr (''text'', ''html'')"
  let ?found = "find_resources U (resp_url resp) (w_elements w data) (crawl_base c)"
  let ?task = "\<lambda>(url, source). Some \<lparr>task_url = url,
    task_delay = type_delay (case cache_get w url c of Some t \<Rightarrow> t | None \<Rightarrow> guess_from_source source),
    task_resource = UnknownResource\<rparr>"
  have "fold (queue_link w) (w_order w ?found) c = fold (enter U) (map ?task (w_order w ?found)) c"
  proof (rule fold_enter [where I = "\<lambda>d. crawl_base d = crawl_base c \<and> resource_type_cache d = resource_type_cache c"])
    show "queue_link w x d = enter U (?task x) d"
      if "crawl_base d = crawl_base c \<and> resource_type_cache d = resource_type_cache c" for x d
    proof -
      have "cache_get w url d = cache_get w url c" for url
        using that by (auto simp: cache_get_def split: option.split)
      then show ?thesis by (simp add: queue_link_def U Let_def split: prod.split)
    qed
    show "crawl_base d = crawl_base c \<and> resource_type_cache d = resource_type_cache c \<Longrightarrow>
        crawl_base (enter U t d) = crawl_base c \<and> resource_type_cache (enter U t d) = resource_type_cache c" for t d
      by (cases t) (auto simp: add_task_def on_error_def Let_def split: option.splits)
  qed simp
  moreover have "set (w_order w ?found) = set ?found" using assms(2) by (simp add: world_ok_def)
  then have "page_tasks w c (resp_url resp) (w_elements w data) = {t. Some t \<in> set (map ?task (w_order w ?found))}"
    unfolding page_tasks_def queued_type [symmetric] U resource_of_found [symmetric] by force
  then have "schedules U (page_tasks w c (resp_url resp) (w_elements w data)) c
      (fold (enter U) (map ?task (w_order w ?found)) c)" by (rule schedules_fold [OF assms(1)])
  ultimately show "fst (process_page w resp c) = Ok (length data)"
    "schedules U (page_tasks w c (resp_url resp) (w_elements w data)) c (snd (process_page w resp c))"
    using a by (simp_all add: process_page_def U)
qed

section \<open>Witnesses\<close>

definition demo_crawler_config :: crawler_config where
  "demo_crawler_config = \<lparr>crawl_domain = ''d'', sitemap_path = ''s'', max_period = 5, max_delay = 2, max_client_capacity = Some 3\<rparr>"

definition demo_max_idle :: duration where
  "demo_max_idle = 1000 * 365 * 24 * 60 * 60 * 10 ^ 9"

text \<open>A period of 600 years is longer than the cache takes after it has been doubled.\<close>

lemma long_period_panics:
  "new_crawler demo_urls (\<lambda>_. Some []) (\<lambda>_. 1) demo_max_idle
     (demo_crawler_config\<lparr>max_period := 600 * 365 * 24 * 60 * 60 * 10 ^ 9\<rparr>) = Panic"
  by (simp add: new_crawler_def build_cache_def demo_max_idle_def demo_crawler_config_def time_to_idle_def
      checked_duration_def MAX_RESOURCES_PER_ITERATION_def demo_urls_def)

definition demo_crawler :: "string crawler" where
  "demo_crawler = \<lparr>crawl_base = [], crawl_sitemap = ''s'', crawl_config = demo_crawler_config, crawl_queue = [],
     crawled_resources = {}, resource_type_cache = Map.empty, cache_time_to_idle = 3010,
     crawl_client = None, crawl_metrics = new_metrics\<rparr>"

definition demo_world :: "string world" where
  "demo_world = \<lparr>w_urls = demo_urls, w_shuffle = rev, w_order = (\<lambda>r. r), w_keep = (\<lambda>_. True),
     w_parse_sitemap = (\<lambda>_. Inr (UrlSet [''a'', ''b'', ''a''])), w_elements = (\<lambda>_. []), w_header_text = (\<lambda>_. Some ''text/html''),
     w_parse_mime = (\<lambda>_. Some (''text'', ''html'')), w_capacity = (\<lambda>m. m),
     w_client_error = None\<rparr>"

definition demo_response :: "string response" where
  "demo_response = \<lparr>resp_status = 200, resp_url = ''s'', resp_content_type = Some [0],
     resp_content_length = None, resp_body = [Recv [1], Eof]\<rparr>"

lemma demo_world_ok: "world_ok demo_urls demo_world"
  by (simp add: world_ok_def demo_world_def)

lemma demo_validate [simp]: "validate_url_base demo_urls b [c] = Some [c]"
  by (simp add: validate_url_base_def demo_urls_def first_segment_def)

lemma demo_new_crawler: "new_crawler demo_urls (\<lambda>_. Some []) (\<lambda>_. 1) demo_max_idle demo_crawler_config = Ok demo_crawler"
proof -
  have "resolve demo_urls [] ''s'' = Some ''s''" by (simp add: demo_urls_def)
  then show ?thesis
    by (simp add: new_crawler_def build_cache_def demo_max_idle_def demo_crawler_config_def demo_crawler_def time_to_idle_def checked_duration_def
        MAX_RESOURCES_PER_ITERATION_def)
qed

lemma demo_round:
  "\<exists>c'. run_round demo_world (Inr demo_response) demo_crawler =
       (Ok \<lparr>task_url = ''s'', task_delay = Some DelayCrawl, task_resource = Sitemap ''s''\<rparr>, c') \<and>
     map task_url (crawl_queue c') = [''a'', ''b'']"
  by (simp add: run_round_def next_task_def start_iteration_def demo_crawler_def demo_world_def before_delay_def
      process_task_def acquire_client_def create_client_def demo_crawler_config_def observe_request_def
      demo_response_def process_sitemap_def read_response_def SITEMAP_SIZE_LIMIT_def
      queue_sitemap_entry_def add_task_def MAX_RESOURCES_PER_ITERATION_def card_insert_if Let_def)

lemma demo_reached:
  obtains task c' where "run_round demo_world (Inr demo_response) demo_crawler = (Ok task, c')"
    "(crawl_round demo_urls)\<^sup>*\<^sup>* demo_crawler c'" "iteration demo_urls demo_crawler [task] c'"
    "map task_url (crawl_queue c') = [''a'', ''b'']" "task_url task = ''s''"
proof -
  obtain task c' where r: "run_round demo_world (Inr demo_response) demo_crawler = (Ok task, c')"
    "map task_url (crawl_queue c') = [''a'', ''b'']" "task_url task = ''s''"
    using demo_round by auto
  have "crawl_round demo_urls demo_crawler c'"
    unfolding crawl_round_def using r(1) demo_world_ok by blast
  then have "(crawl_round demo_urls)\<^sup>*\<^sup>* demo_crawler c'" by (rule r_into_rtranclp)
  moreover have "iteration demo_urls demo_crawler [task] c'"
    by (rule iteration.first [OF _ _ r(1)]) (simp_all add: demo_crawler_def demo_world_def)
  ultimately show thesis by (rule that [OF r(1) _ _ r(2,3)])
qed

lemma crawl_iteration_witness:
  "\<exists>task c'. iteration demo_urls demo_crawler [task] c' \<and>
     distinct (map (\<lambda>t. validate_url_base demo_urls [] (task_url t)) (task # crawl_queue c'))"
proof -
  obtain task c' where i: "iteration demo_urls demo_crawler [task] c'" by (rule demo_reached)
  from crawl_iteration [OF i] i show ?thesis by (auto simp: demo_crawler_def)
qed

lemma crawler_clients_witness:
  "\<exists>n c'. serving demo_urls demo_crawler n c' \<and> crawl_queue c' \<noteq> [] \<and>
     active_connections (crawl_metrics c') = (if crawl_client c' = None then 0 else 1)"
proof -
  obtain task c' where c: "run_round demo_world (Inr demo_response) demo_crawler = (Ok task, c')"
    "map task_url (crawl_queue c') = [''a'', ''b'']"
    by (rule demo_reached)
  have "serving demo_urls demo_crawler (served task demo_crawler c' 0) c'"
    by (rule serving.round [OF serving.created demo_world_ok c(1)])
  from crawler_clients [OF demo_new_crawler this] this c(2) show ?thesis by fastforce
qed

text \<open>A sitemap on another host, for the same crawler; and a capacity of 0.\<close>

definition other_urls :: "string url_ops" where
  "other_urls = demo_urls\<lparr>make_relative := (\<lambda>base url. None)\<rparr>"

definition zero_config :: crawler_config where
  "zero_config = demo_crawler_config\<lparr>max_client_capacity := Some 0\<rparr>"

lemma zero_new_crawler:
  "new_crawler demo_urls (\<lambda>_. Some []) (\<lambda>_. 1) demo_max_idle zero_config = Ok (demo_crawler\<lparr>crawl_config := zero_config\<rparr>)"
proof -
  have "resolve demo_urls [] ''s'' = Some ''s''" by (simp add: demo_urls_def)
  then show ?thesis
    by (simp add: new_crawler_def build_cache_def demo_max_idle_def demo_crawler_config_def demo_crawler_def time_to_idle_def checked_duration_def
        MAX_RESOURCES_PER_ITERATION_def zero_config_def)
qed

lemma crawler_panics_iff_witness:
  "fst (run_round (demo_world\<lparr>w_urls := other_urls\<rparr>) (Inr demo_response) demo_crawler) = Panic \<and>
   fst (run_round demo_world (Inr demo_response) (demo_crawler\<lparr>crawl_config := zero_config\<rparr>)) = Panic \<and>
   (\<exists>c'. (crawl_round demo_urls)\<^sup>*\<^sup>* demo_crawler c' \<and> fst (run_round demo_world (Inr demo_response) c') \<noteq> Panic)"
proof (intro conjI)
  have "resolve other_urls [] ''s'' = Some ''s''" by (simp add: other_urls_def demo_urls_def)
  then have new: "new_crawler other_urls (\<lambda>_. Some []) (\<lambda>_. 1) demo_max_idle demo_crawler_config = Ok demo_crawler"
    by (simp add: new_crawler_def build_cache_def demo_max_idle_def demo_crawler_config_def demo_crawler_def time_to_idle_def checked_duration_def
        MAX_RESOURCES_PER_ITERATION_def)
  have "validate_url_base other_urls (crawl_base demo_crawler) (crawl_sitemap demo_crawler) = None"
    by (simp add: validate_url_base_def other_urls_def)
  then show "fst (run_round (demo_world\<lparr>w_urls := other_urls\<rparr>) (Inr demo_response) demo_crawler) = Panic"
    using crawler_panics_iff [OF new rtranclp.rtrancl_refl] by simp
  have "max_client_capacity zero_config = Some 0 \<and> w_client_error demo_world = None"
    by (simp add: zero_config_def demo_world_def)
  then show "fst (run_round demo_world (Inr demo_response) (demo_crawler\<lparr>crawl_config := zero_config\<rparr>)) = Panic"
    using crawler_panics_iff [OF zero_new_crawler rtranclp.rtrancl_refl, of demo_world "Inr demo_response"] by (simp add: demo_world_def)
  obtain c' where c: "(crawl_round demo_urls)\<^sup>*\<^sup>* demo_crawler c'" by (rule demo_reached)
  have "validate_url_base demo_urls (crawl_base demo_crawler) (crawl_sitemap demo_crawler) \<noteq> None"
    "max_client_capacity demo_crawler_config \<noteq> Some 0"
    by (simp_all add: demo_crawler_def demo_crawler_config_def)
  with crawler_panics_iff [OF demo_new_crawler c, of demo_world "Inr demo_response"] c
  show "\<exists>c'. (crawl_round demo_urls)\<^sup>*\<^sup>* demo_crawler c' \<and> fst (run_round demo_world (Inr demo_response) c') \<noteq> Panic"
    by (auto simp: demo_world_def)
qed

lemma crawl_complete_witness:
  "schedules demo_urls (sitemap_tasks demo_urls ''s'' (UrlSet [''a'', ''b'', ''a''])) demo_crawler
     (snd (process_sitemap demo_world ''s'' demo_response demo_crawler))"
proof -
  have "ledger demo_urls [] demo_crawler"
    by (simp add: ledger_def demo_crawler_def)
  note complete = crawl_complete [OF this demo_world_ok, of demo_response "''s''"]
  have "read_response SITEMAP_SIZE_LIMIT demo_response = Ok [1]"
    by (simp add: read_response_def demo_response_def SITEMAP_SIZE_LIMIT_def)
  moreover have "w_parse_sitemap demo_world [1] = Inr (UrlSet [''a'', ''b'', ''a''])" by (simp add: demo_world_def)
  moreover have "resp_url demo_response = ''s''" by (simp add: demo_response_def)
  moreover have "within demo_urls ''s'' ''s''" by (simp add: within_def climbs_def demo_urls_def)
  ultimately show ?thesis using complete by simp
qed

end
