(* ===== verification/Program.thy ===== *)
theory Program imports Configuration Controller CrawlRounds begin

text \<open>
  How the program starts: \<open>run\<close> of \<open>src/src/main.rs\<close>, which loads the configuration, attaches the
  tun device, starts the controller's transports, creates the crawler and binds the metrics server, in this order; and the
  constructors of the transports as the controller calls them (\<open>src/src/controller.rs\<close>,
  \<open>src/src/transport/udp/mod.rs\<close>).

  The record \<open>system\<close> holds what the operating system, the files and the crates answer meanwhile; what is
  drawn at random for each transport is given by its name.  The names of the connections of all clients follow
  from their configuration (\<open>client_names_collide\<close>).
\<close>

section \<open>The transports\<close>

record ('c, 'key, 'roots, 'cfg, 'ccfg) system =
  sys_attach :: "string \<Rightarrow> string option"
  sys_urlencode :: "string \<Rightarrow> string"
  sys_sha224_hex :: "string \<Rightarrow> string"
  sys_parse_endpoint :: "string \<Rightarrow> string option"
  sys_hash_one :: "string \<Rightarrow> bytes \<Rightarrow> u64"
  sys_roots :: "string + 'roots"
  sys_client_config :: "'roots \<Rightarrow> 'ccfg"
  sys_read_certs :: "string \<Rightarrow> string + certificate list"
  sys_read_keys :: "string \<Rightarrow> string + 'key list"
  sys_single_cert :: "certificate list \<Rightarrow> 'key \<Rightarrow> string + 'cfg"
  sys_open_files :: "string + nat"
  sys_max_permits :: nat
  sys_bind :: "socket_addr \<Rightarrow> string option"
  sys_crypto :: "'c crypto"
  sys_session :: "string \<Rightarrow> u64 \<times> u32"

datatype ('c, 'cfg, 'ccfg) started =
    StartedClient http_client
  | StartedServer "('cfg, 'ccfg) http_server_transport"
  | StartedUdp "'c udp_transport"

datatype start_error =
    ClientFailed client_error
  | ServerFailed server_error
  | SecretRejected secret_error
  | UdpBindFailed string

fun config_kind :: "transport_config \<Rightarrow> transport_kind" where
  "config_kind (HttpClientConfig c) = HttpClientKind"
| "config_kind (HttpServerConfig c) = HttpServerKind"
| "config_kind (InsecureUdpConfig c) = InsecureUdpKind"
| "config_kind (UdpConfig c) = UdpKind"

text \<open>\<open>UdpTransport::new\<close> up to the spawning of its tasks.\<close>

definition open_udp_transport ::
  "('c, 'key, 'roots, 'cfg, 'ccfg) system \<Rightarrow> string \<Rightarrow> udp_config \<Rightarrow> string option
    \<Rightarrow> (start_error, 'c udp_transport) outcome" where
  "open_udp_transport sys name c securer_config =
     and_then
       (case securer_config of
          Some secret \<Rightarrow>
            and_then (map_err SecretRejected
                (new_securer (sys_crypto sys) secret (fst (sys_session sys name)) (snd (sys_session sys name))))
              (\<lambda>s. Ok (Some s))
        | None \<Rightarrow> Ok None)
       (\<lambda>sec. case sys_bind sys (uc_bind_address c) of
          Some e \<Rightarrow> Err (UdpBindFailed e)
        | None \<Rightarrow> Ok (new_udp_transport name sec (uc_peer_address c)))"

fun start_transport ::
  "('c, 'key, 'roots, 'cfg, 'ccfg) system \<Rightarrow> transport_config \<Rightarrow> string
    \<Rightarrow> (start_error, ('c, 'cfg, 'ccfg) started) outcome" where
  "start_transport sys (HttpClientConfig c) name =
     and_then (map_err ClientFailed
         (new_http_client (sys_urlencode sys) (sys_parse_endpoint sys)
           (case sys_roots sys of Inl e \<Rightarrow> Some e | Inr r \<Rightarrow> None) (sys_hash_one sys name) name c))
       (\<lambda>t. Ok (StartedClient t))"
| "start_transport sys (HttpServerConfig c) name =
     and_then (map_err ServerFailed
         (new_http_server_transport (sys_urlencode sys) (sys_sha224_hex sys)
           (load_certs (sys_read_certs sys) (sys_read_keys sys) (sys_single_cert sys))
           (sys_roots sys) (sys_client_config sys) (sys_open_files sys) (sys_max_permits sys) (sys_bind sys)
           (sys_hash_one sys name) name c))
       (\<lambda>t. Ok (StartedServer t))"
| "start_transport sys (InsecureUdpConfig c) name =
     and_then (open_udp_transport sys name c None) (\<lambda>t. Ok (StartedUdp t))"
| "start_transport sys (UdpConfig c) name =
     and_then (open_udp_transport sys name (suc_udp c) (Some (suc_secret c))) (\<lambda>t. Ok (StartedUdp t))"

text \<open>A started transport as the controller sees it.\<close>

fun as_any :: "('c, 'cfg, 'ccfg) started \<Rightarrow> 'c any_transport" where
  "as_any (StartedClient t) = ClientTransport t"
| "as_any (StartedServer t) = ServerTransport (hst_pool t)"
| "as_any (StartedUdp t) = DatagramTransport t"

section \<open>The program\<close>

record ('u, 't) program =
  prog_transports :: "(string \<times> 't) list"
  prog_crawler :: "'u crawler option"
  prog_metrics :: "socket_addr option"

datatype program_error =
    ConfigFailed config_error
  | TunFailed string
  | ControllerFailed "start_error controller_error"
  | CrawlerFailed string
  | MetricsFailed string

text \<open>\<open>new_crawler'\<close> stands for \<open>Crawler::new\<close> with the crates' functions filled in.  The tun device is
  attached before the transports are started.\<close>

definition start_program ::
  "('c, 'key, 'roots, 'cfg, 'ccfg) system \<Rightarrow> (config_error, config) outcome
    \<Rightarrow> (crawler_config \<Rightarrow> (string, 'u crawler) outcome)
    \<Rightarrow> (program_error, ('u, ('c, 'cfg, 'ccfg) started) program) outcome" where
  "start_program sys loaded_config new_crawler' =
     and_then (map_err ConfigFailed loaded_config) (\<lambda>c.
     and_then (case sys_attach sys (config_name c) of Some e \<Rightarrow> Err (TunFailed e) | None \<Rightarrow> Ok ()) (\<lambda>_.
     and_then (map_err ControllerFailed (new_controller config_kind (start_transport sys) (config_transports c))) (\<lambda>ts.
     and_then
       (case config_crawler c of
          Some k \<Rightarrow> and_then (map_err CrawlerFailed (new_crawler' k)) (\<lambda>cr. Ok (Some cr))
        | None \<Rightarrow> Ok None) (\<lambda>crawler.
     case config_metrics_bind_address c of
       None \<Rightarrow> Ok \<lparr>prog_transports = ts, prog_crawler = crawler, prog_metrics = None\<rparr>
     | Some address \<Rightarrow>
         (case sys_bind sys address of
            Some e \<Rightarrow> Err (MetricsFailed e)
          | None \<Rightarrow> Ok \<lparr>prog_transports = ts, prog_crawler = crawler, prog_metrics = Some address\<rparr>)))))"

section \<open>What a start gives\<close>

text \<open>A started transport keeps the contract of the controller, a server's connections find their
  rules and certificates, and a UDP transport can open what its peer seals.\<close>

fun started_ok :: "('c, 'key, 'roots, 'cfg, 'ccfg) system \<Rightarrow> ('c, 'cfg, 'ccfg) started \<Rightarrow> bool" where
  "started_ok sys (StartedServer t) \<longleftrightarrow> server_ok (hst_pool t) \<and>
     (\<forall>show_addr peer loc. configured (sys_urlencode sys) (sys_sha224_hex sys) (hst_connection show_addr peer loc t)) \<and>
     (\<forall>show_addr peer loc requested alpn. is_ok (negotiate_tls requested alpn (hst_connection show_addr peer loc t)))"
| "started_ok sys (StartedClient t) \<longleftrightarrow> http_client_ok t"
| "started_ok sys (StartedUdp t) \<longleftrightarrow> udp_state t = new_state \<and>
     (crypto_ok (sys_crypto sys) \<longrightarrow> securer_sound (sys_crypto sys) (udp_securer t))"

lemma started_ok_any: "started_ok sys t \<Longrightarrow> any_ok (as_any t)"
  by (cases t) simp_all

lemma open_udp_cases:
  assumes "key_len (sys_crypto sys) = 16"
  shows "case open_udp_transport sys name c securer_config of
    Ok t \<Rightarrow> started_ok sys (StartedUdp t) | Err e \<Rightarrow> True | _ \<Rightarrow> False"
proof (cases securer_config)
  case None
  then show ?thesis
    by (simp add: open_udp_transport_def new_udp_transport_def securer_sound_def split: option.split)
next
  case (Some secret)
  show ?thesis
  proof (cases "new_securer (sys_crypto sys) secret (fst (sys_session sys name)) (snd (sys_session sys name))")
    case (Ok s)
    with new_securer_ok [OF Ok] Some show ?thesis
      by (simp add: open_udp_transport_def new_udp_transport_def securer_sound_def split: option.split)
  qed (use assms Some in \<open>auto simp: open_udp_transport_def new_securer_def decode_secret_def split: sum.splits option.splits if_splits\<close>)
qed

lemma start_transport_ok:
  assumes "key_len (sys_crypto sys) = 16" "hex_digest (sys_sha224_hex sys)"
    "\<forall>c. t = HttpClientConfig c \<longrightarrow> 1 \<le> hcc_connections c \<and> hcc_connections c \<le> 10"
  shows "case start_transport sys t name of Ok s \<Rightarrow> started_ok sys s | Err e \<Rightarrow> True | _ \<Rightarrow> False"
proof (cases t)
  case (HttpClientConfig c)
  then have "1 \<le> hcc_connections c" "hcc_connections c < 2 ^ 64" using assms(3) by simp_all
  from new_http_client_cases [OF this, of "sys_urlencode sys" "sys_parse_endpoint sys"
      "case sys_roots sys of Inl e \<Rightarrow> Some e | Inr r \<Rightarrow> None" "sys_hash_one sys name" name]
  show ?thesis unfolding HttpClientConfig by (elim disjE exE conjE) simp_all
next
  case (HttpServerConfig c)
  from new_http_server_transport_cases [OF assms(2), of "sys_urlencode sys" "sys_read_certs sys" "sys_read_keys sys"
      "sys_single_cert sys" "sys_roots sys" "sys_client_config sys" "sys_open_files sys" "sys_max_permits sys"
      "sys_bind sys" "sys_hash_one sys name" name c]
  show ?thesis unfolding HttpServerConfig start_transport.simps
    by (cases "new_http_server_transport (sys_urlencode sys) (sys_sha224_hex sys)
           (load_certs (sys_read_certs sys) (sys_read_keys sys) (sys_single_cert sys))
           (sys_roots sys) (sys_client_config sys) (sys_open_files sys) (sys_max_permits sys) (sys_bind sys)
           (sys_hash_one sys name) name c") simp_all
next
  case (InsecureUdpConfig c)
  with open_udp_cases [OF assms(1), of name c None] show ?thesis
    by (cases "open_udp_transport sys name c None") simp_all
next
  case (UdpConfig c)
  with open_udp_cases [OF assms(1), of name "suc_udp c" "Some (suc_secret c)"] show ?thesis
    by (cases "open_udp_transport sys name (suc_udp c) (Some (suc_secret c))") simp_all
qed

text \<open>The controller with the transports of a valid configuration.\<close>

lemma controller_starts:
  assumes "key_len (sys_crypto sys) = 16" "hex_digest (sys_sha224_hex sys)"
    "\<forall>(name, t) \<in> set specs. \<forall>c. t = HttpClientConfig c \<longrightarrow> http_client_config_valid no_control char_count c"
  shows "settled (new_controller config_kind (start_transport sys) specs)"
    "new_controller config_kind (start_transport sys) specs = Ok ts \<Longrightarrow>
      length ts = length specs \<and> distinct (map fst ts) \<and> (\<forall>t \<in> snd ` set ts. started_ok sys t)"
proof -
  have start: "case start_transport sys t n of Ok s \<Rightarrow> started_ok sys s | Err e \<Rightarrow> True | _ \<Rightarrow> False"
    if "(name, t) \<in> set specs" for name t n
    by (rule start_transport_ok [OF assms(1,2)])
      (use assms(3) that in \<open>auto simp: http_client_config_valid_def\<close>)
  then have "start_transport sys t n \<noteq> Panic \<and> start_transport sys t n \<noteq> Pending"
    if "(name, t) \<in> set specs" for name t n
    using start [OF that, of n] by (cases "start_transport sys t n") simp_all
  from start_transports_no_panic [OF this] show "settled (new_controller config_kind (start_transport sys) specs)"
    by (simp add: new_controller_def settled_def)
  assume c: "new_controller config_kind (start_transport sys) specs = Ok ts"
  note names = start_transports_names [OF c [unfolded new_controller_def] distinct.simps(1) [THEN iffD2, OF TrueI]]
  have "started_ok sys t" if "t \<in> snd ` set ts" for t
  proof -
    obtain i where i: "i < length ts" "t = snd (ts ! i)" using \<open>t \<in> snd ` set ts\<close> by (auto simp: in_set_conv_nth)
    with names have "(fst (specs ! i), snd (specs ! i)) \<in> set specs"
      "start_transport sys (snd (specs ! i)) (fst (ts ! i)) = Ok t" by auto
    with start [of "fst (specs ! i)" "snd (specs ! i)" "fst (ts ! i)"] show ?thesis by simp
  qed
  with names show "length ts = length specs \<and> distinct (map fst ts) \<and> (\<forall>t \<in> snd ` set ts. started_ok sys t)"
    by simp
qed

text \<open>The time to idle of the crawler's cache, in unbounded numbers: the longest iteration, the longest time
  between two, and as many of those as an hour may lose.\<close>

definition idle_fits :: "(duration \<Rightarrow> nat) \<Rightarrow> duration \<Rightarrow> crawler_config \<Rightarrow> bool" where
  "idle_fits lost max_idle k \<longleftrightarrow>
     (let crawling = max_delay k div 2 * 1000;
          following = max_period k + crawling;
          idle = crawling + following * lost following + following
      in idle < 2 ^ 64 * 10 ^ 9 \<and> idle \<le> max_idle)"

lemma time_to_idle_cases:
  "time_to_idle lost k =
     (let crawling = max_delay k div 2 * 1000; following = max_period k + crawling;
          idle = crawling + following * lost following + following
      in if idle < 2 ^ 64 * 10 ^ 9 then Ok idle else Panic)"
  by (auto simp: time_to_idle_def checked_duration_def MAX_RESOURCES_PER_ITERATION_def Let_def)

lemma new_crawler_cases:
  "new_crawler U domain_base lost max_idle k = Panic \<Longrightarrow> \<not> idle_fits lost max_idle k"
  "new_crawler U domain_base lost max_idle k = Ok c \<Longrightarrow> idle_fits lost max_idle k"
  "new_crawler U domain_base lost max_idle k \<noteq> Pending"
  by (auto simp: new_crawler_def time_to_idle_cases idle_fits_def build_cache_def Let_def
      split: option.splits if_splits)

section \<open>Names of connections\<close>

text \<open>The client at \<open>i\<close> bears a name that is made for unnamed clients, and the one at \<open>j\<close> is unnamed, has one
  connection, and bears the name that a connection of the former has: that of its number among the clients.\<close>

definition names_clash :: "transport_config transport_specs \<Rightarrow> nat \<Rightarrow> nat \<Rightarrow> bool" where
  "names_clash specs i j \<longleftrightarrow> (\<exists>a b.
     specs ! i = (Some ''HTTP client'', HttpClientConfig a) \<and> specs ! j = (None, HttpClientConfig b) \<and>
     2 \<le> hcc_connections a \<and> hcc_connections b = 1 \<and>
     count_kinds config_kind (take (Suc j) specs) HttpClientKind \<le> hcc_connections a)"

lemma two_of_a_kind:
  assumes "i < length specs" "j < length specs" "i \<noteq> j" "kind_of (snd (specs ! i)) = kind" "kind_of (snd (specs ! j)) = kind"
  shows "1 < count_kinds kind_of specs kind"
proof -
  let ?L = "{l. l < length specs \<and> (\<lambda>(n, k). kind_of k = kind) (specs ! l)}"
  have "{i, j} \<subseteq> ?L" using assms by (auto simp: case_prod_beta)
  then have "card {i, j} \<le> card ?L" by (intro card_mono) auto
  then show ?thesis using assms(3) by (simp add: count_kinds_def length_filter_conv_card)
qed

lemma count_own_kind: "j < length specs \<Longrightarrow> kind_of (snd (specs ! j)) = kind \<Longrightarrow> 1 \<le> count_kinds kind_of (take (Suc j) specs) kind"
  by (auto simp: count_kinds_def take_Suc_conv_app_nth case_prod_beta)

lemma numbered_names:
  assumes "new_controller config_kind start specs = Ok ts" "i < length specs" "j < length specs" "i \<noteq> j"
    "specs ! i = (given_i, HttpClientConfig a)" "specs ! j = (given_j, HttpClientConfig b)"
  shows "fst (ts ! j) = fst (ts ! i) @ '' #'' @ show_nat k \<longleftrightarrow>
    given_i = Some ''HTTP client'' \<and> given_j = None \<and> k = count_kinds config_kind (take (Suc j) specs) HttpClientKind"
proof -
  note given = start_transports_given [OF assms(1) [unfolded new_controller_def]]
  have many: "1 < count_kinds config_kind specs HttpClientKind"
    by (rule two_of_a_kind [OF assms(2-4)]) (simp_all add: assms(5,6))
  have i: "case given_i of Some n \<Rightarrow> valid_transport_name n \<and> fst (ts ! i) = n
      | None \<Rightarrow> fst (ts ! i) = ''HTTP client'' @ '' #'' @ show_nat (count_kinds config_kind (take (Suc i) specs) HttpClientKind)"
    using given [OF assms(2)] many by (simp add: assms(5) auto_name_def Let_def del: append.simps split: option.splits)
  have j: "case given_j of Some n \<Rightarrow> valid_transport_name n \<and> fst (ts ! j) = n
      | None \<Rightarrow> fst (ts ! j) = ''HTTP client'' @ '' #'' @ show_nat (count_kinds config_kind (take (Suc j) specs) HttpClientKind)"
    using given [OF assms(3)] many by (simp add: assms(6) auto_name_def Let_def del: append.simps split: option.splits)
  show ?thesis
  proof (cases given_j)
    case (Some m)
    with j valid_name_no_hash [of "fst (ts ! j)"] show ?thesis by auto
  next
    case None
    then have m: "fst (ts ! j) = fst (ts ! i) @ '' #'' @ show_nat k \<longleftrightarrow>
        fst (ts ! i) = ''HTTP client'' \<and> k = count_kinds config_kind (take (Suc j) specs) HttpClientKind"
      using j numbered_inj [of "''HTTP client''" _ "fst (ts ! i)" k] by auto
    have "fst (ts ! i) = ''HTTP client'' \<longleftrightarrow> given_i = Some ''HTTP client''"
      using i by (cases given_i) simp_all
    with m None show ?thesis by simp
  qed
qed

section \<open>Properties\<close>

text \<open>C5: the start of the program.  With a loaded configuration the program reports an error or starts;
  it panics only if the time to idle that follows from the crawler's periods does not fit a duration or
  is longer than the cache takes, and a program that has started has a crawler whose time to idle is
  within both.  When it has started, there is one transport for each configured
  one, under distinct names; each keeps the contract that the controller relies on, so that a packet
  goes to a transport of egress direction; every connection that a server accepts is routed by
  the configured rules and finds a certificate; and what the properties of a UDP transport assume of it
  holds.\<close>
theorem program_starts:
  assumes "load_config open_file parse no_control char_count path = Ok c"
    "key_len (sys_crypto sys) = 16" "hex_digest (sys_sha224_hex sys)"
    "start_program sys (load_config open_file parse no_control char_count path)
       (new_crawler U domain_base lost max_idle) = result"
  shows "case result of
      Ok p \<Rightarrow> length (prog_transports p) = length (config_transports c) \<and> distinct (map fst (prog_transports p)) \<and>
        (\<forall>t \<in> snd ` set (prog_transports p). started_ok sys t) \<and>
        (\<forall>i. select_transport (any_ready now) (map (as_any \<circ> snd) (prog_transports p)) = Some i \<longrightarrow>
           (\<exists>d. any_direction (as_any (snd (prog_transports p ! i))) = Ok d \<and> contains d DIR_EGRESS)) \<and>
        (prog_crawler p \<noteq> None \<longleftrightarrow> config_crawler c \<noteq> None) \<and> prog_metrics p = config_metrics_bind_address c \<and>
        (\<forall>k. config_crawler c = Some k \<longrightarrow> idle_fits lost max_idle k)
    | Err e \<Rightarrow> True
    | Panic \<Rightarrow> \<exists>k. config_crawler c = Some k \<and> \<not> idle_fits lost max_idle k
    | Pending \<Rightarrow> False"
proof -
  let ?new = "new_controller config_kind (start_transport sys) (config_transports c)"
  have "\<forall>(name, t) \<in> set (config_transports c). \<forall>cc. t = HttpClientConfig cc \<longrightarrow>
      http_client_config_valid no_control char_count cc"
    using assms(1) by (auto simp: load_config_Ok config_violations_Nil)
  note starts = controller_starts [OF assms(2,3) this]
  define crawler where "crawler = (case config_crawler c of
      Some k \<Rightarrow> and_then (map_err CrawlerFailed (new_crawler U domain_base lost max_idle k)) (\<lambda>cr. Ok (Some cr))
    | None \<Rightarrow> Ok None)"
  have cr: "case crawler of
      Ok oc \<Rightarrow> (oc \<noteq> None \<longleftrightarrow> config_crawler c \<noteq> None) \<and> (\<forall>k. config_crawler c = Some k \<longrightarrow> idle_fits lost max_idle k)
    | Err e \<Rightarrow> True | Panic \<Rightarrow> \<exists>k. config_crawler c = Some k \<and> \<not> idle_fits lost max_idle k | Pending \<Rightarrow> False"
  proof (cases "config_crawler c")
    case (Some k)
    note new = new_crawler_cases [of U domain_base lost max_idle k]
    show ?thesis unfolding crawler_def Some
      by (cases "new_crawler U domain_base lost max_idle k") (use new in simp_all)
  qed (simp add: crawler_def)
  have egress: "\<exists>d. any_direction (as_any (snd (ts ! i))) = Ok d \<and> contains d DIR_EGRESS"
    if "\<forall>t \<in> snd ` set ts. started_ok sys t" "select_transport (any_ready now) (map (as_any \<circ> snd) ts) = Some i" for ts i
  proof -
    have i: "i < length ts" "any_ready now (as_any (snd (ts ! i)))" using that(2) by (auto simp: select_transport_iff)
    with that(1) have "any_ok (as_any (snd (ts ! i)))" by (intro started_ok_any) auto
    from any_ready_egress [OF this i(2)] show ?thesis .
  qed
  have result: "result = and_then (case sys_attach sys (config_name c) of Some e \<Rightarrow> Err (TunFailed e) | None \<Rightarrow> Ok ()) (\<lambda>_.
      and_then (map_err ControllerFailed ?new) (\<lambda>ts. and_then crawler (\<lambda>cr.
      case config_metrics_bind_address c of
        None \<Rightarrow> Ok \<lparr>prog_transports = ts, prog_crawler = cr, prog_metrics = None\<rparr>
      | Some address \<Rightarrow> (case sys_bind sys address of Some e \<Rightarrow> Err (MetricsFailed e)
          | None \<Rightarrow> Ok \<lparr>prog_transports = ts, prog_crawler = cr, prog_metrics = Some address\<rparr>))))"
    using assms(4) by (simp add: start_program_def assms(1) crawler_def [symmetric])
  show ?thesis
  proof (cases ?new)
    case (Ok ts)
    note ts = starts(2) [OF Ok]
    show ?thesis
      using cr ts egress [of ts] Ok
      by (cases crawler) (simp_all add: result split: option.split)
  qed (use starts(1) result in \<open>simp_all split: option.split\<close>)
qed

text \<open>C28: when two clients have connections of the same name, by which a server takes each for a reconnection of
  the other.  Of the HTTP clients that a loaded configuration has started, two share the name of a connection
  just when one is configured as \<open>''HTTP client''\<close> with several connections, the other has no name and one
  connection, and the first has as many connections as there are clients up to the second.  No other names of
  clients do.\<close>
theorem client_names_collide:
  assumes "load_config open_file parse no_control char_count path = Ok c"
    "new_controller config_kind (start_transport sys) (config_transports c) = Ok ts"
    "i < length ts" "j < length ts" "i \<noteq> j" "snd (ts ! i) = StartedClient g" "snd (ts ! j) = StartedClient h"
  shows "set (map cl_name (ht_clients g)) \<inter> set (map cl_name (ht_clients h)) \<noteq> {} \<longleftrightarrow>
    names_clash (config_transports c) i j \<or> names_clash (config_transports c) j i"
proof -
  let ?specs = "config_transports c"
  note names = start_transports_names [OF assms(2) [unfolded new_controller_def] distinct.simps(1) [THEN iffD2, OF TrueI]]
  have client: "\<exists>given a. ?specs ! l = (given, HttpClientConfig a) \<and>
      set (map cl_name (ht_clients t)) = client_connection_name (fst (ts ! l)) (hcc_connections a) ` {1..hcc_connections a}"
    if l: "l < length ts" "snd (ts ! l) = StartedClient t" for l t
  proof -
    obtain given k where spec: "?specs ! l = (given, k)" by fastforce
    have start: "start_transport sys k (fst (ts ! l)) = Ok (StartedClient t)"
      using names l spec by (metis snd_conv)
    then obtain a where a: "k = HttpClientConfig a" by (cases k) (auto simp: outcome_simps)
    have "(given, k) \<in> set ?specs" using names l(1) spec nth_mem by metis
    then have valid: "http_client_config_valid no_control char_count a"
      using assms(1) a by (auto simp: load_config_Ok config_violations_Nil)
    then have "1 \<le> hcc_connections a" "hcc_connections a < 2 ^ 64" by (auto simp: http_client_config_valid_def)
    from new_http_client_cases [OF this, of "sys_urlencode sys" "sys_parse_endpoint sys"
        "case sys_roots sys of Inl e \<Rightarrow> Some e | Inr r \<Rightarrow> None" "sys_hash_one sys (fst (ts ! l))" "fst (ts ! l)"] start a
    have "map cl_name (ht_clients t) = map (client_connection_name (fst (ts ! l)) (hcc_connections a)) [1..<hcc_connections a + 1]"
      by (auto simp: outcome_simps simp del: upt_Suc)
    moreover have "set [1..<hcc_connections a + 1] = {1..hcc_connections a}" by auto
    ultimately show ?thesis using spec a by (metis list.set_map)
  qed
  obtain given_i a where a: "?specs ! i = (given_i, HttpClientConfig a)"
    "set (map cl_name (ht_clients g)) = client_connection_name (fst (ts ! i)) (hcc_connections a) ` {1..hcc_connections a}"
    using client [OF assms(3,6)] by (elim exE conjE)
  obtain given_j b where b: "?specs ! j = (given_j, HttpClientConfig b)"
    "set (map cl_name (ht_clients h)) = client_connection_name (fst (ts ! j)) (hcc_connections b) ` {1..hcc_connections b}"
    using client [OF assms(4,7)] by (elim exE conjE)
  have len: "i < length ?specs" "j < length ?specs" using names assms(3,4) by simp_all
  have "fst (ts ! i) \<noteq> fst (ts ! j)"
    using names assms(3-5) nth_eq_iff_index_eq [of "map fst ts" i j] by simp
  note meet = connection_names_meet [OF this, of "hcc_connections a" "hcc_connections b"]
  note number = numbered_names [OF assms(2) len assms(5) a(1) b(1)] numbered_names [OF assms(2) len(2,1) assms(5) [symmetric] b(1) a(1)]
  have one: "1 \<le> count_kinds config_kind (take (Suc l) ?specs) HttpClientKind" if "l \<in> {i, j}" for l
    using that len a(1) b(1) by (intro count_own_kind) auto
  have "set (map cl_name (ht_clients g)) \<inter> set (map cl_name (ht_clients h)) \<noteq> {} \<longleftrightarrow>
      (\<exists>k \<in> {1..hcc_connections a}. \<exists>l \<in> {1..hcc_connections b}.
         client_connection_name (fst (ts ! i)) (hcc_connections a) k = client_connection_name (fst (ts ! j)) (hcc_connections b) l)"
    unfolding a(2) b(2) by blast
  also have "\<dots> \<longleftrightarrow> names_clash ?specs i j \<or> names_clash ?specs j i"
    unfolding meet number names_clash_def a(1) b(1) using one by auto
  finally show ?thesis .
qed

definition demo_system :: "(u64, unit, unit, nat, nat) system" where
  "demo_system = \<lparr>sys_attach = (\<lambda>n. None), sys_urlencode = id, sys_sha224_hex = (\<lambda>_. replicate 56 CHR ''a''),
     sys_parse_endpoint = (\<lambda>e. Some ''h''), sys_hash_one = (\<lambda>_ _. 0), sys_roots = Inr (), sys_client_config = (\<lambda>_. 0),
     sys_read_certs = (\<lambda>p. Inr [demo_cert ''a'']), sys_read_keys = (\<lambda>p. Inr [()]), sys_single_cert = (\<lambda>c k. Inr 5),
     sys_open_files = Inr 1024, sys_max_permits = 100, sys_bind = (\<lambda>a. None),
     sys_crypto = demo_crypto, sys_session = (\<lambda>_. (1, 2))\<rparr>"

lemma program_starts_witness:
  "\<exists>c p. load_config (\<lambda>p. Inr []) (\<lambda>d. Inr (demo_main_config ''0123456789'' 3)) (\<lambda>s. True) length ''path'' = Ok c \<and>
     start_program demo_system (Ok c) (new_crawler demo_urls (\<lambda>_. Some []) (\<lambda>_. 1) demo_max_idle) = Ok p \<and>
     length (prog_transports p) = 1 \<and> prog_crawler p \<noteq> None \<and>
     (\<forall>t \<in> snd ` set (prog_transports p). started_ok demo_system t)"
proof -
  let ?load = "load_config (\<lambda>p. Inr []) (\<lambda>d. Inr (demo_main_config ''0123456789'' 3)) (\<lambda>s. True) length ''path''"
  let ?c = "(demo_main_config ''0123456789'' 3)\<lparr>config_path := ''path''\<rparr>"
  have load: "?load = Ok ?c"
    by (simp add: load_config_Ok config_violations_Nil demo_main_config_def)
  obtain cr where cr: "new_crawler demo_urls (\<lambda>_. Some []) (\<lambda>_. 1) demo_max_idle (the (config_crawler ?c)) = Ok cr"
    using demo_new_crawler by (simp add: demo_main_config_def demo_crawler_config_def)
  have "plain_dns_name ''a''"
    by (simp add: plain_dns_name_def suffix_def sublist_def append_eq_Cons_conv Cons_eq_append_conv)
  from demo_load [OF this] have cert: "load_cert [demo_cert ''a''] = Ok [''a'']" by (simp add: demo_domain_def)
  have name: "kind_name HttpServerKind = ''HTTP server''" by simp
  obtain t where t: "start_transport demo_system (HttpServerConfig (demo_server_config ''0123456789'')) ''HTTP server''
      = Ok t"
    by (simp add: demo_system_def new_http_server_transport_def demo_server_config_def new_tls_domains_def
        new_tls_domain_def load_certs_def cert load_key_def)
  then have "new_controller config_kind (start_transport demo_system) (config_transports ?c) = Ok [(''HTTP server'', t)]"
    by (simp add: new_controller_def demo_main_config_def count_kinds_def auto_name_def)
  then obtain p where p: "start_program demo_system ?load (new_crawler demo_urls (\<lambda>_. Some []) (\<lambda>_. 1) demo_max_idle) = Ok p"
    using cr by (simp add: start_program_def load) (simp add: demo_main_config_def demo_system_def)
  have "key_len (sys_crypto demo_system) = 16" "hex_digest (sys_sha224_hex demo_system)"
    using demo_hex_digest by (simp_all add: demo_system_def demo_crypto_def)
  from program_starts [OF load this p] p load show ?thesis
    by (auto simp: demo_main_config_def)
qed

text \<open>Two clients, one named like an automatic name and with two connections, the other without a name.\<close>

definition demo_clients :: "transport_config transport_specs" where
  "demo_clients = [(Some ''HTTP client'', HttpClientConfig demo_client_config),
     (None, HttpClientConfig (demo_client_config\<lparr>hcc_connections := 1\<rparr>))]"

lemma demo_client_starts:
  "\<exists>h. start_transport demo_system (HttpClientConfig demo_client_config) name = Ok (StartedClient h)"
  "\<exists>h. start_transport demo_system (HttpClientConfig (demo_client_config\<lparr>hcc_connections := 1\<rparr>)) name = Ok (StartedClient h)"
proof -
  have upt: "[1..<2 + 1] = [1, 2::nat]" "[1..<1 + 1] = [1::nat]" by (simp_all add: upt_rec)
  show "\<exists>h. start_transport demo_system (HttpClientConfig demo_client_config) name = Ok (StartedClient h)"
    using upt by (simp add: demo_system_def new_http_client_def demo_client_config_def add_def new_connections_def
        http_client_nm_def new_client_connection_def client_connection_name_def show_small Let_def del: upt_Suc)
  show "\<exists>h. start_transport demo_system (HttpClientConfig (demo_client_config\<lparr>hcc_connections := 1\<rparr>)) name = Ok (StartedClient h)"
    using upt by (simp add: demo_system_def new_http_client_def demo_client_config_def add_def new_connections_def
        http_client_nm_def new_client_connection_def client_connection_name_def show_small Let_def del: upt_Suc)
qed

lemma client_names_collide_witness:
  "\<exists>c ts g h. load_config (\<lambda>p. Inr []) (\<lambda>d. Inr ((demo_main_config ''0123456789'' 3)\<lparr>config_transports := demo_clients\<rparr>))
       (\<lambda>s. True) length ''path'' = Ok c \<and>
     new_controller config_kind (start_transport demo_system) (config_transports c) = Ok ts \<and>
     snd (ts ! 0) = StartedClient g \<and> snd (ts ! 1) = StartedClient h \<and>
     set (map cl_name (ht_clients g)) \<inter> set (map cl_name (ht_clients h)) \<noteq> {}"
proof -
  let ?c = "(demo_main_config ''0123456789'' 3)\<lparr>config_transports := demo_clients, config_path := ''path''\<rparr>"
  let ?load = "load_config (\<lambda>p. Inr []) (\<lambda>d. Inr ((demo_main_config ''0123456789'' 3)\<lparr>config_transports := demo_clients\<rparr>))
       (\<lambda>s. True) length ''path''"
  have "http_client_config_valid (\<lambda>_. True) length (demo_client_config\<lparr>hcc_connections := 1\<rparr>)"
    by (simp add: http_client_config_valid_def demo_client_config_def MIN_SECRET_LEN_def)
  then have load: "?load = Ok ?c"
    using demo_client_valid by (simp add: load_config_Ok config_violations_Nil demo_main_config_def demo_clients_def)
  obtain g h where g: "start_transport demo_system (HttpClientConfig demo_client_config) ''HTTP client'' = Ok (StartedClient g)"
    and h: "start_transport demo_system (HttpClientConfig (demo_client_config\<lparr>hcc_connections := 1\<rparr>)) ''HTTP client #2''
      = Ok (StartedClient h)"
    using demo_client_starts by blast
  let ?ts = "[(''HTTP client'', StartedClient g), (''HTTP client #2'', StartedClient h)]"
  have ts: "new_controller config_kind (start_transport demo_system) (config_transports ?c) = Ok ?ts"
    using g h by (simp add: new_controller_def demo_clients_def count_kinds_def auto_name_def valid_transport_name_def
      BLACKHOLE_TRANSPORT_def is_ascii_alphanumeric_def str_trim_self is_whitespace_def show_small
      outcome_simps numeral_2_eq_2 [symmetric] del: start_transport.simps)
  have "names_clash (config_transports ?c) 0 1"
    by (simp add: names_clash_def demo_clients_def demo_client_config_def count_kinds_def)
  then have "set (map cl_name (ht_clients g)) \<inter> set (map cl_name (ht_clients h)) \<noteq> {}"
    by (subst client_names_collide [OF load ts, of 0 1]) simp_all
  with load ts show ?thesis
    by - (rule exI [of _ ?c], rule exI [of _ ?ts], rule exI [of _ g], rule exI [of _ h], intro conjI, assumption+, simp_all)
qed

end
