(* ===== verification/Host.thy ===== *)
theory Host imports Controller begin

text \<open>
  What the program does with its host: the tun device (\<open>src/src/tunnel.rs\<close>), the trace of packets
  (\<open>src/src/util.rs\<close>), the verbosity (\<open>src/src/cli.rs\<close>), and the controller's loop and metrics on top of
  it (\<open>src/src/controller.rs\<close>, \<open>src/src/metrics/server.rs\<close>).

  Answers of system calls and of the packet parser (crate \<open>pktparse\<close>) are arguments, as is the time
  that a call takes.
\<close>

section \<open>The tun device\<close>

text \<open>The counter is a number of nanoseconds, the histogram the list of its observations.\<close>

record tunnel =
  tun_recv_time :: nat
  tun_send_times :: "duration list"

definition new_tunnel :: tunnel where
  "new_tunnel = \<lparr>tun_recv_time = 0, tun_send_times = []\<rparr>"

definition tunnel_mtu :: "string + int \<Rightarrow> string + nat" where
  "tunnel_mtu answer =
     (case answer of
        Inl e \<Rightarrow> Inl (''Failed to obtain tunnel MTU: '' @ e)
      | Inr mtu \<Rightarrow> if mtu < 0 then Inl ''Got an invalid MTU value'' else Inr (nat mtu))"

definition tunnel_recv :: "duration \<Rightarrow> string + nat \<Rightarrow> tunnel \<Rightarrow> (string + nat) \<times> tunnel" where
  "tunnel_recv elapsed answer t =
     (case answer of Inl e \<Rightarrow> Inl (''Failed to read from tun device: '' @ e) | Inr sz \<Rightarrow> Inr sz,
      t\<lparr>tun_recv_time := tun_recv_time t + elapsed\<rparr>)"

definition tunnel_send :: "duration \<Rightarrow> string + nat \<Rightarrow> tunnel \<Rightarrow> (string + nat) \<times> tunnel" where
  "tunnel_send elapsed answer t =
     (case answer of Inl e \<Rightarrow> Inl (''Failed to send packet to tun device: '' @ e) | Inr sz \<Rightarrow> Inr sz,
      t\<lparr>tun_send_times := tun_send_times t @ [elapsed]\<rparr>)"

text \<open>\<open>collect_metric\<close> is \<open>collect_family\<close> without labels.\<close>

definition tunnel_collect :: "(sample \<Rightarrow> 'enc \<Rightarrow> 'enc option) \<Rightarrow> tunnel \<Rightarrow> 'enc \<Rightarrow> 'enc option" where
  "tunnel_collect emit t =
     collect_all emit
       [(''tunnel_packet_receive_time'', [], ElapsedOf (tun_recv_time t)),
        (''tunnel_packet_send_time'', [], ObservedOf (length (tun_send_times t)))]"

section \<open>Tracing\<close>

datatype trace_event = TracedV4 nat | InvalidV4 nat | TracedV6 nat | InvalidV6 nat | InvalidPacket nat

text \<open>\<open>v4_header\<close> gives the length field of the header; \<open>v6_header\<close> that field, which does not count the
  header, and the length of what follows the header.  Indexing an empty packet panics.\<close>

definition trace_packet ::
  "bool \<Rightarrow> (bytes \<Rightarrow> nat option) \<Rightarrow> (bytes \<Rightarrow> (nat \<times> nat) option) \<Rightarrow> bytes \<Rightarrow> (unit, trace_event option) outcome" where
  "trace_packet enabled v4_header v6_header data =
     (if \<not> enabled then Ok None
      else if data = [] then Panic
      else if drop_bit 4 (data ! 0) = 4 then
        (case v4_header data of
           Some len \<Rightarrow> Ok (Some (if len = length data then TracedV4 len else InvalidV4 (length data)))
         | None \<Rightarrow> Ok (Some (InvalidV4 (length data))))
      else if drop_bit 4 (data ! 0) = 6 then
        (case v6_header data of
           Some (len, rest) \<Rightarrow> Ok (if len = rest then Some (TracedV6 (length data)) else None)
         | None \<Rightarrow> Ok (Some (InvalidV6 (length data))))
      else Ok (Some (InvalidPacket (length data))))"

text \<open>\<open>{:02x}\<close> of the bytes, joined by blanks.\<close>

definition hex_byte :: "u8 \<Rightarrow> string" where
  "hex_byte b = (let d = (\<lambda>n. if n < 10 then char_of (48 + n) else char_of (87 + n :: nat))
     in [d (unat b div 16), d (unat b mod 16)])"

fun format_packet :: "bytes \<Rightarrow> string" where
  "format_packet [] = []"
| "format_packet [b] = hex_byte b"
| "format_packet (b # bs) = hex_byte b @ '' '' @ format_packet bs"

section \<open>Verbosity and the metrics page\<close>

datatype verbosity_level = LevelInfo | LevelDebug | LevelTrace

definition verbosity :: "nat \<Rightarrow> (string, verbosity_level) outcome" where
  "verbosity count =
     (if count = 0 then Ok LevelInfo
      else if count = 1 then Ok LevelDebug
      else if count = 2 then Ok LevelTrace
      else Err ''Invalid verbosity level'')"

record page =
  page_status :: nat
  page_content_type :: string
  page_body :: string

definition get_metrics :: "string + string \<Rightarrow> page" where
  "get_metrics encoded =
     (case encoded of
        Inr text \<Rightarrow> \<lparr>page_status = 200,
          page_content_type = ''application/openmetrics-text; version=1.0.0; charset=utf-8'', page_body = text\<rparr>
      | Inl e \<Rightarrow> \<lparr>page_status = 500, page_content_type = ''text/plain'', page_body = ''Metrics collection error''\<rparr>)"

section \<open>The controller's loop\<close>

text \<open>One round: what is read off the tun device into a buffer of the MTU's size, traced, and given to
  a transport.  An error of the device ends the loop with it.\<close>

definition controller_round ::
  "bool \<Rightarrow> (bytes \<Rightarrow> nat option) \<Rightarrow> (bytes \<Rightarrow> (nat \<times> nat) option)
    \<Rightarrow> ('t \<Rightarrow> bool) \<Rightarrow> ('t \<Rightarrow> labels) \<Rightarrow> ('t \<Rightarrow> bytes \<Rightarrow> (string + unit) \<times> 't)
    \<Rightarrow> nat \<Rightarrow> duration \<Rightarrow> string + bytes \<Rightarrow> tunnel \<times> 't controller \<Rightarrow> (string, tunnel \<times> 't controller) outcome" where
  "controller_round enabled v4_header v6_header ready labels_of send mtu elapsed received st =
     (case tunnel_recv elapsed (map_sum id length received) (fst st) of
        (Inl e, t) \<Rightarrow> Err (''Failed to read from tun device: '' @ e)
      | (Inr sz, t) \<Rightarrow>
          if mtu < sz then Panic
          else
            let packet = (case received of Inr data \<Rightarrow> data | Inl e \<Rightarrow> [])
            in case trace_packet enabled v4_header v6_header packet of
                 Panic \<Rightarrow> Panic
               | _ \<Rightarrow> Ok (t, handle_packet ready labels_of send packet (snd st)))"

text \<open>The metrics of the controller: the tunnel's, then the state and the own metrics of each transport,
  then the two families; the first error ends the collection.\<close>

definition state_sample :: "string \<Rightarrow> bool \<Rightarrow> sample" where
  "state_sample name connected =
     \<lparr>sample_name = ''transport_state'',
      sample_labels = [(TRANSPORT_LABEL, name), (''state'', if connected then ''connected'' else ''unavailable'')],
      sample_value = GaugeOf 1\<rparr>"

fun collect_transports ::
  "(sample \<Rightarrow> 'enc \<Rightarrow> 'enc option) \<Rightarrow> ('t \<Rightarrow> string) \<Rightarrow> ('t \<Rightarrow> bool) \<Rightarrow> ('t \<Rightarrow> 'enc \<Rightarrow> 'enc option) \<Rightarrow> 't list
    \<Rightarrow> 'enc \<Rightarrow> 'enc option" where
  "collect_transports emit nm connected collect [] enc = Some enc"
| "collect_transports emit nm connected collect (t # ts) enc =
     Option.bind (emit (state_sample (nm t) (connected t)) enc) (\<lambda>enc.
     Option.bind (collect t enc) (collect_transports emit nm connected collect ts))"

definition controller_collect ::
  "(sample \<Rightarrow> 'enc \<Rightarrow> 'enc option) \<Rightarrow> ('t \<Rightarrow> string) \<Rightarrow> ('t \<Rightarrow> bool) \<Rightarrow> ('t \<Rightarrow> 'enc \<Rightarrow> 'enc option)
    \<Rightarrow> ('enc \<Rightarrow> 'enc option) \<Rightarrow> tunnel \<Rightarrow> 't list \<Rightarrow> 'enc \<Rightarrow> 'enc option" where
  "controller_collect emit nm connected collect families t ts enc =
     Option.bind (tunnel_collect emit t enc) (\<lambda>enc.
     Option.bind (collect_transports emit nm connected collect ts enc) families)"

section \<open>Tracing does no harm\<close>

lemma trace_packet_Panic: "trace_packet enabled v4_header v6_header data = Panic \<longleftrightarrow> enabled \<and> data = []"
  by (auto simp: trace_packet_def split: option.splits)

lemma parse_frame_nonempty: "parse_frame s = Packet p rest \<Longrightarrow> p \<noteq> []"
  using parse_frame_Packet_size by fastforce

lemma packet_end_no_packet [simp]: "packet_end nothing r \<noteq> Ok (Some p)"
  by (cases r) simp_all

lemma read_packet_nonempty:
  assumes "reader_ready r" "fst (read_packet r) = Ok (Some p)"
  shows "p \<noteq> []"
proof (cases "parse_frame (reader_left r)")
  case (Packet q rest)
  with read_packet_Packet [OF assms(1) Packet] assms(2) show ?thesis by (auto dest: parse_frame_nonempty)
qed (use assms read_packet_view [OF assms(1)] in
    \<open>auto simp: view_read_def split: outcome.splits if_splits\<close>)

lemma split_marker_nonempty: "split_marker packet = Some (works, packet') \<Longrightarrow> packet' \<noteq> []"
  by (cases packet) auto

lemma receive_message_nonempty: "fst (receive_message K now secs received t) = Ok (Deliver p) \<Longrightarrow> p \<noteq> []"
  by (auto simp: receive_message_def Let_def dest: split_marker_nonempty
      split: sum.splits prod.splits if_splits outcome.splits option.splits)

section \<open>Rounds of the loop\<close>

text \<open>As long as the device gives packets of one to \<open>mtu\<close> bytes the loop goes on, and each is accounted
  for.\<close>

fun controller_rounds where
  "controller_rounds rnd [] st = Ok st"
| "controller_rounds rnd (received # rest) st = and_then (rnd received st) (controller_rounds rnd rest)"

lemma controller_rounds_append:
  "controller_rounds rnd (xs @ ys) st = and_then (controller_rounds rnd xs st) (controller_rounds rnd ys)"
proof (induction xs arbitrary: st)
  case (Cons x xs)
  then show ?case by (cases "rnd x st") simp_all
qed simp

text \<open>One round, on a packet that fits and on an error.\<close>

lemma controller_round_Ok:
  assumes "p \<noteq> []" "length p \<le> mtu"
  shows "controller_round enabled v4_header v6_header ready labels_of send mtu elapsed (Inr p) st =
    Ok ((fst st)\<lparr>tun_recv_time := tun_recv_time (fst st) + elapsed\<rparr>, handle_packet ready labels_of send p (snd st))"
proof -
  have "trace_packet enabled v4_header v6_header p \<noteq> Panic" using assms(1) by (simp add: trace_packet_Panic)
  then show ?thesis
    using assms(2)
    by (cases "trace_packet enabled v4_header v6_header p") (simp_all add: controller_round_def tunnel_recv_def)
qed

lemma controller_round_Err:
  "\<exists>e'. controller_round enabled v4_header v6_header ready labels_of send mtu elapsed (Inl e) st = Err e'"
  by (simp add: controller_round_def tunnel_recv_def)

lemma controller_rounds_accounted:
  assumes "\<And>t p. labels_of (snd (send t p)) = labels_of t" "labels_of ` set (transports (snd st)) = L"
    "blackhole_labels \<notin> L" "\<forall>p \<in> set packets. p \<noteq> [] \<and> length p \<le> mtu"
  shows "\<exists>st'. controller_rounds (controller_round enabled v4_header v6_header ready labels_of send mtu elapsed)
      (map Inr packets) st = Ok st' \<and>
    accounted L (snd st') = accounted L (snd st) + word_of_nat (length packets)"
  using assms(2,4)
proof (induction packets arbitrary: st)
  case (Cons p ps)
  let ?c = "handle_packet ready labels_of send p (snd st)"
  let ?st = "((fst st)\<lparr>tun_recv_time := tun_recv_time (fst st) + elapsed\<rparr>, ?c)"
  have round: "controller_round enabled v4_header v6_header ready labels_of send mtu elapsed (Inr p) st = Ok ?st"
    using Cons.prems(2) by (intro controller_round_Ok) simp_all
  note step = handle_packet_step [where ready = ready, where packet = p, OF assms(1) Cons.prems(1) assms(3)]
  have "labels_of ` set (transports (snd ?st)) = L" using step(1) by simp
  from Cons.IH [OF this] Cons.prems(2) step(2) show ?case by (auto simp: round)
qed simp

section \<open>Properties\<close>

text \<open>The controller's loop.  As long as the device gives packets that are not empty and fit the
  buffer the loop goes on, whatever the transports answer and whether packets are traced, and each
  packet is either observed by the send times of the transport it was given to or counted as a drop
  of the blackhole: together these counters grow by one a packet.  An error of the device ends it.\<close>
theorem controller_loop:
  assumes "\<And>t p. labels_of (snd (send t p)) = labels_of t" "blackhole_labels \<notin> labels_of ` set (transports c)"
    "\<forall>p \<in> set packets. p \<noteq> [] \<and> length p \<le> mtu"
  shows "\<exists>tun c'.
    controller_rounds (controller_round enabled v4_header v6_header ready labels_of send mtu elapsed)
      (map Inr packets) (tunnel, c) = Ok (tun, c') \<and>
    accounted (labels_of ` set (transports c)) c' =
      accounted (labels_of ` set (transports c)) c + word_of_nat (length packets) \<and>
    (\<exists>e'. controller_rounds (controller_round enabled v4_header v6_header ready labels_of send mtu elapsed)
      (map Inr packets @ [Inl e]) (tunnel, c) = Err e')"
proof -
  let ?round = "controller_round enabled v4_header v6_header ready labels_of send mtu elapsed"
  obtain st' where st: "controller_rounds ?round (map Inr packets) (tunnel, c) = Ok st'"
    "accounted (labels_of ` set (transports c)) (snd st') =
      accounted (labels_of ` set (transports c)) c + word_of_nat (length packets)"
    using controller_rounds_accounted [where labels_of = labels_of and send = send and st = "(tunnel, c)"
        and enabled = enabled and v4_header = v4_header and v6_header = v6_header and ready = ready and elapsed = elapsed,
        OF assms(1) _ assms(2,3)] by auto
  have "\<exists>e'. ?round (Inl e) st' = Err e'" by (rule controller_round_Err)
  then have "\<exists>e'. controller_rounds ?round (map Inr packets @ [Inl e]) (tunnel, c) = Err e'"
    by (auto simp: controller_rounds_append st(1))
  with st show ?thesis by (cases st') auto
qed

definition demo_loop :: "(string + bytes) list \<Rightarrow> (string, tunnel \<times> nat controller) outcome" where
  "demo_loop received = controller_rounds
     (controller_round True (\<lambda>p. None) (\<lambda>p. None) (\<lambda>n. n < 2) (\<lambda>n. transport_labels ''a'')
        (\<lambda>n p. (Inr (), n + 1)) 1500 7) received
     (new_tunnel, \<lparr>transports = [0], transport_drops = Map.empty, transport_send_times = Map.empty\<rparr>)"

lemma controller_loop_witness:
  "\<exists>tun c'. demo_loop (map Inr [[1], [2], [3]]) = Ok (tun, c') \<and> accounted {transport_labels ''a''} c' = 3"
proof -
  let ?c = "\<lparr>transports = [0 :: nat], transport_drops = Map.empty, transport_send_times = Map.empty\<rparr>"
  have "blackhole_labels \<noteq> transport_labels ''a''"
    by (simp add: blackhole_labels_def transport_labels_def BLACKHOLE_TRANSPORT_def)
  then have b: "blackhole_labels \<notin> (\<lambda>n. transport_labels ''a'') ` set (transports ?c)" by simp
  have "accounted ((\<lambda>n. transport_labels ''a'') ` set (transports ?c)) ?c = 0"
    by (simp add: accounted_def counter_at_def)
  moreover have "\<forall>p \<in> set [[1], [2], [3]]. p \<noteq> [] \<and> length p \<le> 1500" by simp
  note controller_loop [OF _ b this, where send = "\<lambda>n p. (Inr (), n + 1)" and enabled = True
      and v4_header = "\<lambda>p. None" and v6_header = "\<lambda>p. None" and ready = "\<lambda>n. n < 2" and elapsed = 7
      and tunnel = new_tunnel and e = "[]", folded demo_loop_def, OF refl]
  ultimately show ?thesis by auto
qed

end
