(* ===== verification/Lifecycle.thy ===== *)
theory Lifecycle imports Program Host begin

text \<open>
  The life of the process: \<open>main\<close> and the parts that \<open>run\<close> joins (\<open>src/src/main.rs\<close>), and the command
  line (\<open>src/src/cli.rs\<close>).

  The panic hook aborts the process at a panic of any task.  The joined parts are the controller,
  the crawler and the metrics server; \<open>try_join!\<close> ends with the first error of one of them, and a part
  that does not exist never ends.  Their progress is a sequence of events, in any order.
\<close>

section \<open>The command line\<close>

record cli_args =
  arg_log_level :: verbosity_level
  arg_config_path :: string

definition DEFAULT_CONFIG_PATH :: string where "DEFAULT_CONFIG_PATH = ''/etc/hiddenlink.yaml''"

definition parse_args :: "nat \<Rightarrow> string option \<Rightarrow> (string, cli_args) outcome" where
  "parse_args verbose config =
     and_then (verbosity verbose) (\<lambda>log_level.
       Ok \<lparr>arg_log_level = log_level,
           arg_config_path = (case config of Some path \<Rightarrow> path | None \<Rightarrow> DEFAULT_CONFIG_PATH)\<rparr>)"

section \<open>The process\<close>

datatype 'a process = Running 'a | Starting | Exited nat | Aborted

text \<open>What becomes of the process by the outcome of a part of \<open>run\<close>.\<close>

fun process_of :: "('e, 'a) outcome \<Rightarrow> 'a process" where
  "process_of (Ok a) = Running a"
| "process_of (Err e) = Exited 1"
| "process_of Panic = Aborted"
| "process_of Pending = Starting"

text \<open>\<open>main\<close> up to the join: \<open>logging\<close> is the error of its initialisation, \<open>start\<close> is \<open>run\<close> with a path.\<close>

definition main_start ::
  "nat \<Rightarrow> string option \<Rightarrow> string option \<Rightarrow> (string \<Rightarrow> ('e, 'a) outcome) \<Rightarrow> 'a process" where
  "main_start verbose config logging start =
     (case parse_args verbose config of
        Ok args \<Rightarrow>
          (case logging of
             Some e \<Rightarrow> Exited 1
           | None \<Rightarrow> process_of (start (arg_config_path args)))
      | Err e \<Rightarrow> Exited 1
      | Panic \<Rightarrow> Aborted
      | Pending \<Rightarrow> Starting)"

section \<open>The joined parts\<close>

record ('u, 't) running =
  run_tunnel :: tunnel
  run_controller :: "'t controller"
  run_crawler :: "'u crawler option"
  run_metrics :: bool

text \<open>The join begins: the controller asks for the MTU.\<close>

definition begin_join ::
  "string + int \<Rightarrow> 't controller \<Rightarrow> 'u crawler option \<Rightarrow> bool \<Rightarrow> (string, nat \<times> ('u, 't) running) outcome" where
  "begin_join mtu_answer controller crawler metrics =
     (case tunnel_mtu mtu_answer of
        Inl e \<Rightarrow> Err e
      | Inr mtu \<Rightarrow>
          Ok (mtu, \<lparr>run_tunnel = new_tunnel, run_controller = controller, run_crawler = crawler, run_metrics = metrics\<rparr>))"

text \<open>The device gives a packet or fails; the crawler ends a round; the server of the metrics ends; a
  spawned task panics.\<close>

datatype 'u event =
    DeviceGives "string + bytes"
  | CrawlerRound "'u world" "string + 'u response"
  | MetricsEnds "(string, unit) outcome"
  | TaskPanics

definition program_event ::
  "(tunnel \<times> 't controller \<Rightarrow> string + bytes \<Rightarrow> (string, tunnel \<times> 't controller) outcome) \<Rightarrow> 'u event
    \<Rightarrow> ('u, 't) running \<Rightarrow> ('u, 't) running process" where
  "program_event controller_step ev r =
     (case ev of
        DeviceGives received \<Rightarrow>
          process_of (and_then (controller_step (run_tunnel r, run_controller r) received)
            (\<lambda>(t, c). Ok (r\<lparr>run_tunnel := t, run_controller := c\<rparr>)))
      | CrawlerRound w reply \<Rightarrow>
          (case run_crawler r of
             None \<Rightarrow> Running r
           | Some c \<Rightarrow>
               (case run_round w reply c of
                  (Ok task, c') \<Rightarrow> Running (r\<lparr>run_crawler := Some c'\<rparr>)
                | (Panic, c') \<Rightarrow> Aborted
                | _ \<Rightarrow> Running r))
      | MetricsEnds result \<Rightarrow>
          (if \<not> run_metrics r then Running r
           else case result of
               Ok u \<Rightarrow> Running (r\<lparr>run_metrics := False\<rparr>)
             | Err e \<Rightarrow> Exited 1
             | Panic \<Rightarrow> Aborted
             | Pending \<Rightarrow> Running r)
      | TaskPanics \<Rightarrow> Aborted)"

fun program_events where
  "program_events controller_step [] r = Running r"
| "program_events controller_step (ev # evs) r =
     (case program_event controller_step ev r of
        Running r' \<Rightarrow> program_events controller_step evs r'
      | ended \<Rightarrow> ended)"

section \<open>How the process ends\<close>

text \<open>The end that an event is of itself.\<close>

fun event_end :: "bool \<Rightarrow> 'u event \<Rightarrow> 'a process option" where
  "event_end metrics (DeviceGives (Inl e)) = Some (Exited 1)"
| "event_end metrics (DeviceGives (Inr packet)) = None"
| "event_end metrics (CrawlerRound w reply) = None"
| "event_end metrics (MetricsEnds (Err e)) = (if metrics then Some (Exited 1) else None)"
| "event_end metrics (MetricsEnds Panic) = (if metrics then Some Aborted else None)"
| "event_end metrics (MetricsEnds r) = None"
| "event_end metrics TaskPanics = Some Aborted"

text \<open>The first of the events that is an end.  After the metrics server has ended well nothing more is
  heard of it.\<close>

fun first_end :: "bool \<Rightarrow> 'u event list \<Rightarrow> 'a process option" where
  "first_end metrics [] = None"
| "first_end metrics (ev # evs) =
     (case event_end metrics ev of
        Some p \<Rightarrow> Some p
      | None \<Rightarrow> first_end (metrics \<and> (\<forall>u. ev \<noteq> MetricsEnds (Ok u))) evs)"

lemma event_end_cases: "event_end metrics ev = Some p \<Longrightarrow> p = Exited 1 \<or> p = Aborted"
  by (induction metrics ev rule: event_end.induct) (auto split: if_splits)

lemma first_end_cases: "first_end metrics evs = Some p \<Longrightarrow> p = Exited 1 \<or> p = Aborted"
  by (induction metrics evs rule: first_end.induct) (auto split: option.splits dest: event_end_cases)

text \<open>What the device and the crates may give: packets that fit the buffer, and the crawler's world.\<close>

fun event_ok :: "'u url_ops \<Rightarrow> nat \<Rightarrow> 'u event \<Rightarrow> bool" where
  "event_ok U mtu (DeviceGives (Inr packet)) \<longleftrightarrow> packet \<noteq> [] \<and> length packet \<le> mtu"
| "event_ok U mtu (CrawlerRound w reply) \<longleftrightarrow> world_ok U w"
| "event_ok U mtu ev \<longleftrightarrow> True"

text \<open>A crawler whose sitemap is within its base and whose clients have a capacity.\<close>

definition crawler_sound :: "'u url_ops \<Rightarrow> 'u crawler \<Rightarrow> bool" where
  "crawler_sound U c \<longleftrightarrow> (\<exists>f. ledger U f c) \<and> validate_url_base U (crawl_base c) (crawl_sitemap c) \<noteq> None \<and>
     max_client_capacity (crawl_config c) \<noteq> Some 0"

lemma new_crawler_sound:
  assumes "new_crawler U domain_base lost max_idle k = Ok c" "validate_url_base U (crawl_base c) (crawl_sitemap c) \<noteq> None"
    "max_client_capacity k \<noteq> Some 0"
  shows "crawler_sound U c"
  using new_crawler_ok [OF assms(1)] new_crawler_fields [OF assms(1)] assms(2,3)
  by (auto simp: crawler_sound_def crawler_ok_def)

lemma crawler_sound_round:
  assumes "crawler_sound U c" "world_ok U w"
  shows "fst (run_round w reply c) \<noteq> Panic" "run_round w reply c = (Ok task, c') \<Longrightarrow> crawler_sound U c'"
proof -
  obtain f where f: "ledger U f c" using assms(1) by (auto simp: crawler_sound_def)
  have U: "w_urls w = U" using assms(2) by (simp add: world_ok_def)
  show "fst (run_round w reply c) \<noteq> Panic"
    using run_round_panic [of w f c reply] f U assms(1) by (auto simp: crawler_sound_def)
  assume r: "run_round w reply c = (Ok task, c')"
  with f assms(1) U run_round_ledger [OF r, of f] show "crawler_sound U c'"
    by (auto simp: crawler_sound_def)
qed

text \<open>One event of a process whose crawler is sound.\<close>

lemma program_event_end:
  assumes "event_ok U mtu ev" "\<forall>c. run_crawler r = Some c \<longrightarrow> crawler_sound U c"
    "step = (\<lambda>st received. controller_round enabled v4_header v6_header ready labels_of send mtu elapsed received st)"
  shows "case event_end (run_metrics r) ev of
      Some p \<Rightarrow> program_event step ev r = p
    | None \<Rightarrow> \<exists>r'. program_event step ev r = Running r' \<and> (\<forall>c. run_crawler r' = Some c \<longrightarrow> crawler_sound U c) \<and>
        run_metrics r' = (run_metrics r \<and> (\<forall>u. ev \<noteq> MetricsEnds (Ok u)))"
proof (cases ev)
  case (DeviceGives received)
  show ?thesis
  proof (cases received)
    case (Inl e)
    obtain e' where "step (run_tunnel r, run_controller r) (Inl e) = Err e'"
      using controller_round_Err assms(3) by metis
    then show ?thesis by (simp add: DeviceGives Inl program_event_def)
  next
    case (Inr p)
    with assms(1,2) DeviceGives show ?thesis
      by (simp add: program_event_def assms(3) controller_round_Ok)
  qed
next
  case (CrawlerRound w reply)
  show ?thesis
  proof (cases "run_crawler r")
    case (Some c)
    then have c: "crawler_sound U c" "world_ok U w" using assms(1,2) CrawlerRound by simp_all
    obtain q c' where q: "run_round w reply c = (q, c')" by fastforce
    then have "q \<noteq> Panic" "\<forall>task. q = Ok task \<longrightarrow> crawler_sound U c'"
      using crawler_sound_round(1) [OF c, of reply] crawler_sound_round(2) [OF c, of reply] by auto
    with q Some CrawlerRound assms(2) show ?thesis
      by (cases q) (auto simp: program_event_def)
  qed (use assms(2) CrawlerRound in \<open>simp add: program_event_def\<close>)
next
  case (MetricsEnds result)
  with assms(2) show ?thesis by (cases result) (auto simp: program_event_def)
qed (simp add: program_event_def)

lemma program_events_end:
  fixes r :: "('u, 't) running"
  assumes "\<forall>ev \<in> set evs. event_ok U mtu ev" "\<forall>c. run_crawler r = Some c \<longrightarrow> crawler_sound U c"
    "step = (\<lambda>st received. controller_round enabled v4_header v6_header ready labels_of send mtu elapsed received st)"
  shows "case first_end (run_metrics r) evs of
      Some p \<Rightarrow> program_events step evs r = p
    | None \<Rightarrow> \<exists>r'. program_events step evs r = Running r'"
  using assms(1,2)
proof (induction evs arbitrary: r)
  case (Cons ev evs)
  from program_event_end [where mtu = mtu and ev = ev, OF _ Cons.prems(2) assms(3)] Cons.prems(1)
  have ev: "case event_end (run_metrics r) ev of
      Some p \<Rightarrow> program_event step ev r = p
    | None \<Rightarrow> \<exists>r'. program_event step ev r = Running r' \<and> (\<forall>c. run_crawler r' = Some c \<longrightarrow> crawler_sound U c) \<and>
        run_metrics r' = (run_metrics r \<and> (\<forall>u. ev \<noteq> MetricsEnds (Ok u)))" by simp
  show ?case
  proof (cases "event_end (run_metrics r) ev :: ('u, 't) running process option")
    case None
    with ev obtain r' where r': "program_event step ev r = Running r'"
      "\<forall>c. run_crawler r' = Some c \<longrightarrow> crawler_sound U c"
      "run_metrics r' = (run_metrics r \<and> (\<forall>u. ev \<noteq> MetricsEnds (Ok u)))" by auto
    from Cons.IH [OF _ r'(2)] Cons.prems(1) r'(1,3) None show ?thesis by (simp split: option.splits)
  next
    case (Some p)
    with ev event_end_cases [OF this] show ?thesis by auto
  qed
qed simp

section \<open>Properties\<close>

text \<open>C11: how the process ends.  Once it runs, with a sound crawler or none, and while the device gives
  packets that fit, the process ends exactly with the first event that is an end: with status 1 when
  the tun device or the metrics server fails, by an abort when a task panics.  It never exits with
  status 0, and no packet, no answer to the crawler and no good end of the metrics server ends it.
  With a crawler whose sitemap is outside the base, or whose clients have the capacity 0, the first
  round of the crawler aborts it, the tunnel with it.\<close>
theorem process_ends:
  fixes r :: "('u, 't) running"
  assumes "\<forall>ev \<in> set evs. event_ok U mtu ev"
    "step = (\<lambda>st received. controller_round enabled v4_header v6_header ready labels_of send mtu elapsed received st)"
    "\<forall>c. run_crawler r = Some c \<longrightarrow> new_crawler U domain_base lost max_idle config = Ok c"
  shows "((\<forall>c. run_crawler r = Some c \<longrightarrow>
        validate_url_base U (crawl_base c) (crawl_sitemap c) \<noteq> None \<and> max_client_capacity config \<noteq> Some 0) \<longrightarrow>
      (case first_end (run_metrics r) evs of
         Some p \<Rightarrow> program_events step evs r = p \<and> (p = Exited 1 \<or> p = Aborted)
       | None \<Rightarrow> \<exists>r'. program_events step evs r = Running r')) \<and>
    (\<forall>c w reply. run_crawler r = Some c \<and>
        (validate_url_base U (crawl_base c) (crawl_sitemap c) = None \<or>
         max_client_capacity config = Some 0 \<and> w_client_error w = None) \<and> w_urls w = U \<longrightarrow>
      program_events step (CrawlerRound w reply # evs) r = Aborted)"
proof (intro conjI impI allI)
  assume "\<forall>c. run_crawler r = Some c \<longrightarrow>
    validate_url_base U (crawl_base c) (crawl_sitemap c) \<noteq> None \<and> max_client_capacity config \<noteq> Some 0"
  then have "\<forall>c. run_crawler r = Some c \<longrightarrow> crawler_sound U c"
    using new_crawler_sound assms(3) by blast
  from program_events_end [OF assms(1) this assms(2)] first_end_cases [of "run_metrics r" evs]
  show "case first_end (run_metrics r) evs of
      Some p \<Rightarrow> program_events step evs r = p \<and> (p = Exited 1 \<or> p = Aborted)
    | None \<Rightarrow> \<exists>r'. program_events step evs r = Running r'"
    by (auto split: option.splits)
next
  fix c and w :: "'u world" and reply
  assume a: "run_crawler r = Some c \<and> (validate_url_base U (crawl_base c) (crawl_sitemap c) = None \<or>
         max_client_capacity config = Some 0 \<and> w_client_error w = None) \<and> w_urls w = U"
  with assms(3) have "new_crawler U domain_base lost max_idle config = Ok c" by simp
  with a new_crawler_fields [OF this] first_round_panic [of c w reply] have "fst (run_round w reply c) = Panic" by auto
  then obtain c' where "run_round w reply c = (Panic, c')" by (metis prod.collapse)
  with a show "program_events step (CrawlerRound w reply # evs) r = Aborted"
    by (simp add: program_event_def)
qed

definition demo_running :: "(string, nat) running" where
  "demo_running = \<lparr>run_tunnel = new_tunnel,
     run_controller = \<lparr>transports = [0], transport_drops = Map.empty, transport_send_times = Map.empty\<rparr>,
     run_crawler = Some demo_crawler, run_metrics = True\<rparr>"

definition demo_step :: "tunnel \<times> nat controller \<Rightarrow> string + bytes \<Rightarrow> (string, tunnel \<times> nat controller) outcome" where
  "demo_step = (\<lambda>st received. controller_round True (\<lambda>p. None) (\<lambda>p. None) (\<lambda>n. n < 2) (\<lambda>n. transport_labels ''a'')
     (\<lambda>n p. (Inr (), n + 1)) 1500 7 received st)"

lemma process_ends_witness:
  "program_events demo_step [DeviceGives (Inr [69]), CrawlerRound demo_world (Inr demo_response), MetricsEnds (Ok ()),
     MetricsEnds (Err ''e''), DeviceGives (Inl ''e''), TaskPanics] demo_running = Exited 1"
proof -
  let ?evs = "[DeviceGives (Inr [69]), CrawlerRound demo_world (Inr demo_response), MetricsEnds (Ok ()),
     MetricsEnds (Err ''e''), DeviceGives (Inl ''e''), TaskPanics] :: string event list"
  have "\<forall>ev \<in> set ?evs. event_ok demo_urls 1500 ev" using demo_world_ok by simp
  moreover have "\<forall>c. run_crawler demo_running = Some c \<longrightarrow> new_crawler demo_urls (\<lambda>_. Some []) (\<lambda>_. 1) demo_max_idle demo_crawler_config = Ok c"
    using demo_new_crawler by (simp add: demo_running_def)
  moreover have "validate_url_base demo_urls (crawl_base demo_crawler) (crawl_sitemap demo_crawler) \<noteq> None"
    "max_client_capacity demo_crawler_config \<noteq> Some 0"
    by (simp_all add: demo_crawler_def demo_crawler_config_def)
  moreover have "first_end (run_metrics demo_running) ?evs = Some (Exited 1)" by (simp add: demo_running_def)
  ultimately show ?thesis
    using process_ends [OF _ demo_step_def, where evs = ?evs and r = demo_running]
    by (simp add: demo_running_def)
qed

end
