(* ===== verification/Report.thy ===== *)
theory Report imports HttpServer Crawler Host begin

text \<open>
  What the program reports: the metrics of the server's HTTPS transport
  (\<open>src/src/transport/http/server/mod.rs\<close>, \<open>src/src/transport/http/server/hiddenlink_connection.rs\<close>),
  whose statistics outlive the connections they count, and those of the crawler
  (\<open>src/src/crawler/metrics.rs\<close>).

  The encoder is the parameter \<open>emit\<close> of \<open>Stat\<close>.  The samples that the calls emit are also written
  down as a list, \<open>server_samples\<close>, and every encoder is shown to be fed this list.  What happens to a
  server's transport is the step relation \<open>server_step\<close>, with a log of the traffic that was counted.
\<close>

section \<open>Collectors\<close>

text \<open>A loop of \<open>collect(encoder)?\<close>.\<close>

fun collect_each :: "('a \<Rightarrow> 'enc \<Rightarrow> 'enc option) \<Rightarrow> 'a list \<Rightarrow> 'enc \<Rightarrow> 'enc option" where
  "collect_each collect [] enc = Some enc"
| "collect_each collect (x # xs) enc = Option.bind (collect x enc) (collect_each collect xs)"

definition hl_collect ::
  "(sample \<Rightarrow> 'enc \<Rightarrow> 'enc option) \<Rightarrow> tcp_ca_states \<Rightarrow> (int \<Rightarrow> socket_probe) \<Rightarrow> hl_connection \<Rightarrow> 'enc
    \<Rightarrow> 'enc option" where
  "hl_collect emit ca probe c = writer_collect emit ca probe (hl_writer c)"

text \<open>\<open>gauge\<close> is the number of proxied connections that are open.\<close>

definition hs_collect ::
  "(sample \<Rightarrow> 'enc \<Rightarrow> 'enc option) \<Rightarrow> tcp_ca_states \<Rightarrow> (int \<Rightarrow> socket_probe) \<Rightarrow> int \<Rightarrow> http_server \<Rightarrow> 'enc
    \<Rightarrow> 'enc option" where
  "hs_collect emit ca probe gauge hs enc =
     Option.bind (collect_family emit ''open_proxied_connections'' [] (GaugeOf gauge) enc) (\<lambda>enc.
       let active = map (nth (hs_heap hs)) (pool_values (hs_active hs));
           stats = map snd (hs_stat hs)
       in Option.bind (collect_each (collect_stat emit) stats enc)
            (collect_each (hl_collect emit ca probe) active))"

definition crawler_encode :: "(sample \<Rightarrow> 'enc \<Rightarrow> 'enc option) \<Rightarrow> crawler_metrics \<Rightarrow> 'enc \<Rightarrow> 'enc option" where
  "crawler_encode emit m =
     collect_all emit
       [(''crawler_new_connections'', [], CounterOf (new_connections_count m)),
        (''crawler_active_connections'', [], GaugeOf (active_connections m)),
        (''crawler_request_time'', [], ObservedOf (unat (request_times m))),
        (''crawler_errors'', [], CounterOf (crawl_errors m))]"

section \<open>The samples of a server\<close>

type_synonym family = "string \<times> labels \<times> metric_value"

fun series :: "family \<Rightarrow> string \<times> labels" where
  "series (name, ls, v) = (name, ls)"

definition writer_samples :: "tcp_ca_states \<Rightarrow> (int \<Rightarrow> socket_probe) \<Rightarrow> packet_writer \<Rightarrow> family list" where
  "writer_samples ca probe w =
     (case pw_current w of
        Some h \<Rightarrow> tcp_socket_families ca (pw_stat w) (probe (wc_fd (pw_handles w ! h)))
      | None \<Rightarrow> [])"

definition server_samples ::
  "tcp_ca_states \<Rightarrow> (int \<Rightarrow> socket_probe) \<Rightarrow> int \<Rightarrow> http_server \<Rightarrow> family list" where
  "server_samples ca probe gauge hs =
     (''open_proxied_connections'', [], GaugeOf gauge) #
     concat (map stat_families (map snd (hs_stat hs))) @
     concat (map (\<lambda>i. writer_samples ca probe (hl_writer (hs_heap hs ! i))) (pool_values (hs_active hs)))"

lemma collect_each_all:
  assumes "\<And>x enc. collect x enc = collect_all emit (fams x) enc"
  shows "collect_each collect xs enc = collect_all emit (concat (map fams xs)) enc"
proof (induction xs arbitrary: enc)
  case (Cons x xs)
  then show ?case by (cases "collect_all emit (fams x) enc") (simp_all add: assms collect_all_append)
qed simp

lemma hl_collect_samples: "hl_collect emit ca probe c enc = collect_all emit (writer_samples ca probe (hl_writer c)) enc"
  by (simp add: hl_collect_def writer_collect_def writer_samples_def collect_tcp_socket_def split: option.split)

lemma hs_collect_samples: "hs_collect emit ca probe gauge hs enc = collect_all emit (server_samples ca probe gauge hs) enc"
proof -
  have stats: "collect_each (collect_stat emit) (map snd (hs_stat hs)) enc =
      collect_all emit (concat (map stat_families (map snd (hs_stat hs)))) enc" for enc
    by (rule collect_each_all) (simp add: collect_stat_def)
  have active: "collect_each (hl_collect emit ca probe) (map (nth (hs_heap hs)) is) =
      collect_all emit (concat (map (\<lambda>i. writer_samples ca probe (hl_writer (hs_heap hs ! i))) is))" for "is"
    by (rule ext) (simp add: collect_each_all [where fams = "\<lambda>c. writer_samples ca probe (hl_writer c)", OF hl_collect_samples] o_def)
  show ?thesis
    unfolding hs_collect_def server_samples_def Let_def stats active
    by (cases "collect_family emit ''open_proxied_connections'' [] (GaugeOf gauge) enc")
      (simp_all add: collect_all_append)
qed

section \<open>What happens to a server\<close>

datatype traffic = ReceivedPacket bytes | SentPacket bytes | UnsentPacket

fun count_traffic :: "traffic \<Rightarrow> conn_stat \<Rightarrow> conn_stat" where
  "count_traffic (ReceivedPacket p) = on_packet_received p"
| "count_traffic (SentPacket p) = on_packet_sent p"
| "count_traffic UnsentPacket = on_packet_dropped"

text \<open>The statistics of a name are one shared object, whichever connection of that name counts.\<close>

definition count_for :: "string \<Rightarrow> traffic \<Rightarrow> http_server \<Rightarrow> http_server" where
  "count_for name e hs = hs\<lparr>hs_stat := map (\<lambda>(n, st). (n, if n = name then count_traffic e st else st)) (hs_stat hs)\<rparr>"

type_synonym traffic_log = "(string \<times> traffic) list"

text \<open>A connection is admitted; one ends; the traffic of one is counted, also of one that is no longer in
  the pool; and the state of one changes, which never changes its name or its labels.\<close>

inductive server_step :: "http_server \<times> traffic_log \<Rightarrow> http_server \<times> traffic_log \<Rightarrow> bool" where
  admitted: "admit request fd connection junk hs = (handle, hs') \<Longrightarrow> server_step (hs, log) (hs', log)"
| retired: "server_step (hs, log) (retire h hs, log)"
| counted: "h < length (hs_heap hs) \<Longrightarrow> name = hl_name (hs_heap hs ! h) \<Longrightarrow>
    server_step (hs, log) (count_for name e hs, log @ [(name, e)])"
| worked: "h < length (hs_heap hs) \<Longrightarrow> hl_name c = hl_name (hs_heap hs ! h) \<Longrightarrow>
    stat_labels (pw_stat (hl_writer c)) = stat_labels (pw_stat (hl_writer (hs_heap hs ! h))) \<Longrightarrow>
    server_step (hs, log) (hs\<lparr>hs_heap := (hs_heap hs)[h := c]\<rparr>, log)"

definition traffic_of :: "string \<Rightarrow> traffic_log \<Rightarrow> traffic list" where
  "traffic_of name log = map snd (filter (\<lambda>(n, e). n = name) log)"

definition stat_of :: "string \<Rightarrow> string \<Rightarrow> traffic_log \<Rightarrow> conn_stat" where
  "stat_of transport name log = fold count_traffic (traffic_of name log) (new_stat transport name)"

text \<open>The invariant: the statistics are those of the logged traffic, and each connection reports under
  the labels of its name.\<close>

definition report_ok :: "string \<Rightarrow> http_server \<times> traffic_log \<Rightarrow> bool" where
  "report_ok transport s \<longleftrightarrow> (case s of (hs, log) \<Rightarrow>
     hs_name hs = transport \<and> server_ok hs \<and>
     (\<forall>(n, st) \<in> set (hs_stat hs). st = stat_of transport n log) \<and>
     (\<forall>(n, e) \<in> set log. n \<in> fst ` set (hs_stat hs)) \<and>
     (\<forall>c \<in> set (hs_heap hs). stat_labels (pw_stat (hl_writer c)) = stat_labels (new_stat transport (hl_name c))))"

lemma traffic_of_append: "traffic_of n (log @ [(m, e)]) = traffic_of n log @ (if n = m then [e] else [])"
  by (simp add: traffic_of_def)

lemma traffic_of_None: "n \<notin> fst ` set log \<Longrightarrow> traffic_of n log = []"
  by (force simp: traffic_of_def filter_empty_conv)

lemma count_traffic_labels [simp]: "stat_labels (count_traffic e st) = stat_labels st"
  by (cases e) simp_all

lemma stat_of_labels [simp]: "stat_labels (stat_of transport n log) = stat_labels (new_stat transport n)"
proof -
  have "stat_labels (fold count_traffic es st) = stat_labels st" for es st
    by (induction es arbitrary: st) simp_all
  then show ?thesis by (simp add: stat_of_def)
qed

lemma count_for_simps:
  "map fst (hs_stat (count_for name e hs)) = map fst (hs_stat hs)"
  "fst ` set (hs_stat (count_for name e hs)) = fst ` set (hs_stat hs)"
  "hs_active (count_for name e hs) = hs_active hs" "hs_heap (count_for name e hs) = hs_heap hs"
  "hs_name (count_for name e hs) = hs_name hs" "hs_nm (count_for name e hs) = hs_nm hs"
  by (auto simp: count_for_def hs_nm_def [abs_def] case_prod_unfold image_image)

lemma server_ok_count_for: "server_ok hs \<Longrightarrow> server_ok (count_for name e hs)"
  unfolding server_ok_def count_for_simps .

lemma server_ok_worked:
  assumes "server_ok hs" "h < length (hs_heap hs)" "hl_name c = hl_name (hs_heap hs ! h)"
  shows "server_ok (hs\<lparr>hs_heap := (hs_heap hs)[h := c]\<rparr>)"
proof -
  have "hs_nm (hs\<lparr>hs_heap := (hs_heap hs)[h := c]\<rparr>) = hs_nm hs"
  proof (rule ext)
    show "hs_nm (hs\<lparr>hs_heap := (hs_heap hs)[h := c]\<rparr>) i = hs_nm hs i" for i
      by (cases "i = h") (use assms(2,3) in \<open>simp_all add: hs_nm_def\<close>)
  qed
  then show ?thesis
    using assms set_update_subset_insert [of "hs_heap hs" h c] unfolding server_ok_def by (auto dest: nth_mem)
qed

lemma report_ok_new: "report_ok name (new_http_server hash_one name, [])"
  using server_ok_new [of hash_one name] by (simp add: report_ok_def) (simp add: new_http_server_def)

lemma report_ok_admitted:
  assumes "report_ok transport (hs, log)" "admit request fd connection junk hs = ((h, fresh), hs')"
  shows "report_ok transport (hs', log)"
proof -
  obtain st hs1 c where a: "stat_entry (req_name request) hs = (st, hs1)"
    "c = new_hl_connection (req_name request) (req_flags request) (req_preread_data request) fd connection junk st"
    "hs_heap hs' = hs_heap hs @ [c]" "hs_stat hs' = hs_stat hs1"
    using admit_pool [OF assms(2)] by metis
  have ok: "server_ok hs" "hs_name hs = transport"
    and stat: "\<forall>(n, st) \<in> set (hs_stat hs). st = stat_of transport n log"
    and log: "\<forall>(n, e) \<in> set log. n \<in> fst ` set (hs_stat hs)"
    using assms(1) by (auto simp: report_ok_def)
  have name: "hs_name hs' = transport"
    using assms(2) ok(2) stat_entry_simps(3) [OF a(1)] by (auto simp: admit_def a(1) Let_def split: prod.splits)
  have "req_name request \<notin> fst ` set (hs_stat hs) \<Longrightarrow> traffic_of (req_name request) log = []"
    using log by (intro traffic_of_None) (fastforce simp: image_iff)
  then have entry: "\<forall>(n, st) \<in> set (hs_stat hs1). st = stat_of transport n log"
    using a(1) stat ok(2) by (auto simp: stat_entry_def stat_of_def Let_def map_of_eq_None_iff split: option.splits)
  with map_of_SomeD [OF stat_entry_simps(6) [OF a(1)]] have "st = stat_of transport (req_name request) log" by auto
  then have "stat_labels st = stat_labels (new_stat transport (req_name request))" by simp
  then have "stat_labels (pw_stat (hl_writer c)) = stat_labels (new_stat transport (hl_name c))"
    by (simp add: a(2) new_hl_connection_def writer_replace_def new_writer_def)
  with assms(1) name entry server_ok_admit(1) [OF ok(1) assms(2)] a(3,4) stat_entry_simps(4) [OF a(1)]
  show ?thesis by (auto simp: report_ok_def)
qed

lemma report_ok_step: "server_step s s' \<Longrightarrow> report_ok transport s \<Longrightarrow> report_ok transport s'"
proof (induction rule: server_step.induct)
  case (admitted request fd connection junk hs handle hs' log)
  then show ?case by (cases handle) (auto intro: report_ok_admitted)
next
  case (retired hs log h)
  then show ?case using server_ok_retire(1) [of hs h] by (auto simp: report_ok_def) (auto simp: retire_def)
next
  case (counted h hs name log e)
  have "hl_name (hs_heap hs ! h) \<in> fst ` set (hs_stat hs)"
    using counted by (auto simp: report_ok_def server_ok_def)
  moreover have "\<forall>(n, st) \<in> set (hs_stat (count_for name e hs)). st = stat_of transport n (log @ [(name, e)])"
    using counted(3) by (auto simp: report_ok_def count_for_def stat_of_def traffic_of_append)
  ultimately show ?case
    using counted server_ok_count_for [of hs name e] by (simp add: report_ok_def count_for_simps)
next
  case (worked h hs c log)
  then show ?case
    using server_ok_worked [OF _ worked(1,2)] set_update_subset_insert [of "hs_heap hs" h c]
    by (auto simp: report_ok_def)
qed

lemma report_ok_reachable: "server_step\<^sup>*\<^sup>* (new_http_server hash_one name, []) s \<Longrightarrow> report_ok name s"
  by (induction rule: rtranclp_induct) (auto intro: report_ok_new report_ok_step)

section \<open>No series twice\<close>

text \<open>The samples of different things carry different keys, which \<open>pick\<close> reads off them, as the first of
  their labels.\<close>

lemma distinct_concat_keys:
  assumes "distinct (map key xs)" "\<And>x. x \<in> set xs \<Longrightarrow> distinct (map series (fams x))"
    "\<And>x n ls v. x \<in> set xs \<Longrightarrow> (n, ls, v) \<in> set (fams x) \<Longrightarrow> pick n ls = key x"
  shows "distinct (map series (concat (map fams xs)))"
  using assms
proof (induction xs)
  case (Cons x xs)
  have "series f \<noteq> series g" if fg: "f \<in> set (fams x)" "y \<in> set xs" "g \<in> set (fams y)" for f g y
  proof -
    have "key x \<noteq> key y" using Cons.prems(1) fg(2) by (auto simp: image_iff)
    then show ?thesis
      using Cons.prems(3) [of x "fst f" "fst (snd f)" "snd (snd f)"] Cons.prems(3) [of y "fst g" "fst (snd g)" "snd (snd g)"] fg
      by (cases f; cases g) auto
  qed
  then have "k \<notin> series ` set (fams y)" if "k \<in> series ` set (fams x)" "y \<in> set xs" for k y
    using that by (metis (no_types, lifting) imageE)
  then have "set (map series (fams x)) \<inter> set (map series (concat (map fams xs))) = {}"
    unfolding disjoint_iff by simp blast
  with Cons show ?case by simp
qed simp

lemma connection_series:
  assumes "length (stat_labels st) = 2"
  shows "distinct (map series (stat_families st))" "distinct (map series (tcp_socket_families ca st probe))"
    "(n, ls, v) \<in> set (stat_families st) \<Longrightarrow> take 2 ls = stat_labels st"
    "(n, ls, v) \<in> set (tcp_socket_families ca st probe) \<Longrightarrow> take 2 ls = stat_labels st"
    "(n, ls, v) \<in> set (stat_families st) \<Longrightarrow> take 6 n = ''connec''"
    "(n, ls, v) \<in> set (tcp_socket_families ca st probe) \<Longrightarrow> take 6 n = ''socket''"
proof -
  show "distinct (map series (stat_families st))" by (simp add: stat_families_def)
  show "distinct (map series (tcp_socket_families ca st probe))"
    by (cases "probe_tcp_info probe"; cases "probe_unread probe"; cases "probe_unsent probe";
        cases "probe_rcvbuf probe"; cases "probe_sndbuf probe")
      (simp_all add: tcp_socket_families_def tcp_info_families_def ip_socket_families_def optional_gauge_def)
  show "(n, ls, v) \<in> set (stat_families st) \<Longrightarrow> take 2 ls = stat_labels st"
    using assms by (auto simp: stat_families_def)
  show "(n, ls, v) \<in> set (tcp_socket_families ca st probe) \<Longrightarrow> take 2 ls = stat_labels st"
    using tcp_socket_labels [of n ls v ca st probe] assms by simp
  show "(n, ls, v) \<in> set (stat_families st) \<Longrightarrow> take 6 n = ''connec''"
    by (auto simp: stat_families_def)
  show "(n, ls, v) \<in> set (tcp_socket_families ca st probe) \<Longrightarrow> take 6 n = ''socket''"
    by (cases "probe_tcp_info probe") (auto simp: tcp_socket_families_def tcp_info_families_def ip_socket_families_def
        optional_gauge_def split: sum.splits)
qed

lemma distinct_groups:
  assumes "distinct (map series xs)" "distinct (map series ys)"
    "\<And>n ls v. (n, ls, v) \<in> set xs \<Longrightarrow> take 6 n = ''connec''"
    "\<And>n ls v. (n, ls, v) \<in> set ys \<Longrightarrow> take 6 n = ''socket''"
  shows "distinct (map series ((''open_proxied_connections'', [], v) # xs @ ys))"
  using assms(1,2) by (auto dest!: assms(3,4))

lemma distinct_server_samples:
  assumes "report_ok transport (hs, log)"
  shows "distinct (map series (server_samples ca probe gauge hs))"
proof -
  let ?lab = "\<lambda>n. stat_labels (new_stat transport n)"
  let ?active = "pool_values (hs_active hs)"
  let ?writer = "\<lambda>i. writer_samples ca probe (hl_writer (hs_heap hs ! i))"
  have two: "length (?lab n) = 2" for n by (simp add: new_stat_def)
  have lab: "?lab n = ?lab m \<longleftrightarrow> n = m" for n m by (simp add: new_stat_def)
  have ok: "server_ok hs" using assms by (simp add: report_ok_def)
  then have pool: "pool_ok (hs_nm hs) (hs_active hs)" by (simp add: server_ok_def)
  have stat: "stat_labels (snd s) = ?lab (fst s)" if "s \<in> set (hs_stat hs)" for s
    using assms that by (auto simp: report_ok_def)
  have stat2: "length (stat_labels st) = 2" if "st \<in> set (map snd (hs_stat hs))" for st
    using that stat two by auto
  have active: "stat_labels (pw_stat (hl_writer (hs_heap hs ! i))) = ?lab (hs_nm hs i)" if "i \<in> set ?active" for i
    using assms ok that by (auto simp: report_ok_def server_ok_def hs_nm_def)
  have "map (stat_labels \<circ> snd) (hs_stat hs) = map ?lab (map fst (hs_stat hs))" using stat by simp
  then have "distinct (map stat_labels (map snd (hs_stat hs)))"
    using ok by (simp add: server_ok_def distinct_map inj_on_def lab)
  then have A: "distinct (map series (concat (map stat_families (map snd (hs_stat hs)))))"
    by (rule distinct_concat_keys [where pick = "\<lambda>n. take 2"]) (blast intro: connection_series(1) [OF stat2] connection_series(3) [OF stat2])+
  have "inj_on (hs_nm hs) (set ?active)"
    using pool by (fastforce simp: inj_on_def pool_values_map_of dest: arg_cong [where f = "map_of (connections (hs_active hs))"])
  then have "distinct (map (\<lambda>i. ?lab (hs_nm hs i)) ?active)"
    using pool_values_distinct [OF pool] by (simp add: distinct_map inj_on_def lab)
  then have B: "distinct (map series (concat (map ?writer ?active)))"
    by (rule distinct_concat_keys [where pick = "\<lambda>n. take 2"])
      (use active two in \<open>auto simp: writer_samples_def intro: connection_series(2) dest!: connection_series(4) [rotated] split: option.splits\<close>)
  have sA: "take 6 n = ''connec''" if "(n, ls, v) \<in> set (concat (map stat_families (map snd (hs_stat hs))))" for n ls v
    using that stat two by (auto dest!: connection_series(5) [rotated])
  have sB: "take 6 n = ''socket''" if "(n, ls, v) \<in> set (concat (map ?writer ?active))" for n ls v
    using that active two by (auto simp: writer_samples_def dest!: connection_series(6) [rotated] split: option.splits)
  show ?thesis unfolding server_samples_def by (rule distinct_groups [OF A B]) (fact sA, fact sB)
qed

section \<open>Properties\<close>

fun received_in :: "traffic list \<Rightarrow> bytes list" where
  "received_in [] = []"
| "received_in (ReceivedPacket p # es) = p # received_in es"
| "received_in (e # es) = received_in es"

fun sent_in :: "traffic list \<Rightarrow> bytes list" where
  "sent_in [] = []"
| "sent_in (SentPacket p # es) = p # sent_in es"
| "sent_in (e # es) = sent_in es"

lemma fold_count_traffic:
  "received_packets (fold count_traffic es st) = received_packets st + word_of_nat (length (received_in es))"
  "received_data (fold count_traffic es st) = received_data st + word_of_nat (length (concat (received_in es)))"
  "sent_packets (fold count_traffic es st) = sent_packets st + word_of_nat (length (sent_in es))"
  "sent_data (fold count_traffic es st) = sent_data st + word_of_nat (length (concat (sent_in es)))"
  "dropped_packets (fold count_traffic es st) = dropped_packets st + word_of_nat (count_list es UnsentPacket)"
proof (induction es arbitrary: st)
  case (Cons e es)
  { case 1 then show ?case using Cons by (cases e) (simp_all add: stat_defs) next
    case 2 then show ?case using Cons by (cases e) (simp_all add: stat_defs) next
    case 3 then show ?case using Cons by (cases e) (simp_all add: stat_defs) next
    case 4 then show ?case using Cons by (cases e) (simp_all add: stat_defs) next
    case 5 then show ?case using Cons by (cases e) (simp_all add: stat_defs) }
qed simp_all

text \<open>C39: what a server reports.  Whatever clients connected, were replaced, ended or transferred, the
  collector feeds the encoder the list of samples up to its first error; no series (a name with its
  labels) is in it twice; and it has one series of each kind for every client that has ever been
  connected, also one that has gone, that counts the traffic of all of its connections.\<close>
theorem server_report:
  assumes "server_step\<^sup>*\<^sup>* (new_http_server hash_one transport, []) (hs, log)" "c \<in> set (hs_heap hs)"
  shows "hs_collect emit ca probe gauge hs enc = collect_all emit (server_samples ca probe gauge hs) enc \<and>
    distinct (map series (server_samples ca probe gauge hs)) \<and>
    (let es = traffic_of (hl_name c) log;
         ls = [(TRANSPORT_LABEL, transport), (CONNECTION_LABEL, hl_name c)]
     in {(''connection_received_packets'', ls, CounterOf (word_of_nat (length (received_in es)))),
         (''connection_received_bytes'', ls, CounterOf (word_of_nat (length (concat (received_in es))))),
         (''connection_sent_packets'', ls, CounterOf (word_of_nat (length (sent_in es)))),
         (''connection_sent_bytes'', ls, CounterOf (word_of_nat (length (concat (sent_in es))))),
         (''connection_dropped_packets'', ls, CounterOf (word_of_nat (count_list es UnsentPacket)))}
        \<subseteq> set (server_samples ca probe gauge hs))"
proof -
  have ok: "report_ok transport (hs, log)" by (rule report_ok_reachable [OF assms(1)])
  then obtain st where "(hl_name c, st) \<in> set (hs_stat hs)" "st = stat_of transport (hl_name c) log"
    using assms(2) by (fastforce simp: report_ok_def server_ok_def)
  then have "set (stat_families (stat_of transport (hl_name c) log)) \<subseteq> set (server_samples ca probe gauge hs)"
    by (force simp: server_samples_def)
  then show ?thesis
    using distinct_server_samples [OF ok] hs_collect_samples
    by (simp add: stat_families_def Let_def) (simp add: stat_of_def fold_count_traffic new_stat_def)
qed

definition demo_probe :: socket_probe where
  "demo_probe = \<lparr>probe_tcp_info = Inl ''e'', probe_unread = Inr 0, probe_unsent = Inl ''e'', probe_rcvbuf = Inr 1,
     probe_sndbuf = Inr 2\<rparr>"

definition demo_ca :: tcp_ca_states where
  "demo_ca = \<lparr>TCP_CA_Open = 0, TCP_CA_Disorder = 1, TCP_CA_CWR = 2, TCP_CA_Recovery = 3, TCP_CA_Loss = 4\<rparr>"

lemma three_steps: "r a b \<Longrightarrow> r b c \<Longrightarrow> r c d \<Longrightarrow> r\<^sup>*\<^sup>* a d"
  by (meson rtranclp.rtrancl_into_rtrancl rtranclp.rtrancl_refl)

text \<open>A client connects, sends a packet and goes: its statistics are still reported.\<close>

lemma server_report_witness:
  "\<exists>hs. hs_collect (\<lambda>s enc. Some (enc @ [s])) demo_ca (\<lambda>_. demo_probe) 0 hs [] =
      collect_all (\<lambda>s enc. Some (enc @ [s])) (server_samples demo_ca (\<lambda>_. demo_probe) 0 hs) [] \<and>
    pool_values (hs_active hs) = [] \<and>
    (''connection_received_packets'', [(TRANSPORT_LABEL, ''s''), (CONNECTION_LABEL, ''home'')], CounterOf 1)
      \<in> set (server_samples demo_ca (\<lambda>_. demo_probe) 0 hs)"
proof -
  let ?e = "ReceivedPacket [69]"
  let ?hs = "retire 0 (count_for ''home'' ?e demo_http_server)"
  let ?c = "hs_heap demo_http_server ! 0"
  have heap: "0 < length (hs_heap demo_http_server)" "?c \<in> set (hs_heap ?hs)" "hl_name ?c = ''home''"
    using demo_http_server_ok by (auto simp: server_ok_def hs_nm_def retire_def count_for_simps)
  obtain handle where "admit demo_hl_request 3 [] [] (new_http_server (\<lambda>_. 0) ''s'') = (handle, demo_http_server)"
    unfolding demo_http_server_def by (metis prod.collapse)
  then have a: "server_step (new_http_server (\<lambda>_. 0) ''s'', []) (demo_http_server, [])" by (rule admitted)
  have b: "server_step (demo_http_server, []) (count_for ''home'' ?e demo_http_server, [(''home'', ?e)])"
    using counted [where log = "[]" and name = "''home''" and e = ?e, OF heap(1)] by (simp add: heap(3))
  have c: "server_step (count_for ''home'' ?e demo_http_server, [(''home'', ?e)]) (?hs, [(''home'', ?e)])"
    by (rule retired)
  have run: "server_step\<^sup>*\<^sup>* (new_http_server (\<lambda>_. 0) ''s'', []) (?hs, [(''home'', ?e)])"
    using a b c by (rule three_steps)
  have "set (pool_values (hs_active ?hs)) = {}"
    using server_ok_retire(2) [OF server_ok_count_for [OF demo_http_server_ok(1)]] demo_http_server_ok(2)
    by (simp add: count_for_simps)
  then have "pool_values (hs_active ?hs) = []" by simp
  moreover have "received_in (traffic_of ''home'' [(''home'', ?e)]) = [[69]]" by (simp add: traffic_of_def)
  moreover note server_report [where ca = demo_ca and probe = "\<lambda>_. demo_probe" and gauge = 0 and enc = "[]"
      and emit = "\<lambda>s enc. Some (enc @ [s])", OF run heap(2)]
  ultimately show ?thesis by (intro exI [of _ ?hs]) (simp add: heap(3) Let_def)
qed

end
