(* ===== verification/Page.thy ===== *)
theory Page imports Lifecycle Report begin

text \<open>
  The whole page of metrics: the registry that \<open>run\<close> fills (\<open>src/src/main.rs\<close>), with the error counter, the
  controller's metrics over its real transports, and the crawler's, and the answer of the metrics
  server (\<open>src/src/metrics/server.rs\<close>).

  The text encoder of the crate stays the parameter \<open>emit\<close>; \<open>page_samples\<close> is what it is fed.  A family
  is a hash map, whose entries come in an order of its own: \<open>drops\<close> and \<open>sends\<close> are these entries.
\<close>

section \<open>Transports\<close>

text \<open>What the collectors ask the host: the time, the sockets, and the number of proxied connections of a
  server.\<close>

record page_probe =
  pp_now :: instant
  pp_ca :: tcp_ca_states
  pp_tcp :: "int \<Rightarrow> socket_probe"
  pp_udp :: "string \<Rightarrow> socket_probe"
  pp_proxied :: "string \<Rightarrow> int"

fun any_name :: "'c any_transport \<Rightarrow> string" where
  "any_name (ClientTransport h) = ht_name h"
| "any_name (ServerTransport hs) = hs_name hs"
| "any_name (DatagramTransport u) = udp_name u"

fun any_connected :: "instant \<Rightarrow> 'c any_transport \<Rightarrow> bool" where
  "any_connected now (ClientTransport h) = ht_connected h"
| "any_connected now (ServerTransport hs) = hs_connected hs"
| "any_connected now (DatagramTransport u) = udp_connected now u"

fun any_collect ::
  "(sample \<Rightarrow> 'enc \<Rightarrow> 'enc option) \<Rightarrow> page_probe \<Rightarrow> 'c any_transport \<Rightarrow> 'enc \<Rightarrow> 'enc option" where
  "any_collect emit P (ClientTransport h) =
     ht_collect_all (cl_collect emit (pp_ca P) (pp_tcp P)) (map (nth (ht_clients h)) (pool_values (ht_pool h)))"
| "any_collect emit P (ServerTransport hs) =
     hs_collect emit (pp_ca P) (pp_tcp P) (pp_proxied P (hs_name hs)) hs"
| "any_collect emit P (DatagramTransport u) = udp_collect emit (pp_udp P (udp_name u)) u"

section \<open>The registry\<close>

text \<open>\<open>Family\<close> emits a sample for each of its entries.\<close>

definition family_entries ::
  "(labels \<times> u64) list \<Rightarrow> (labels \<times> u64) list \<Rightarrow> (string \<times> labels \<times> metric_value) list" where
  "family_entries drops sends =
     map (\<lambda>(l, n). (''transport_packet_drops'', l, CounterOf n)) drops @
     map (\<lambda>(l, n). (''transport_packet_send_time'', l, ObservedOf (unat n))) sends"

definition with_prefix :: "(sample \<Rightarrow> 'enc \<Rightarrow> 'enc option) \<Rightarrow> sample \<Rightarrow> 'enc \<Rightarrow> 'enc option" where
  "with_prefix emit s = emit (s\<lparr>sample_name := ''hiddenlink_'' @ sample_name s\<rparr>)"

definition registry_encode ::
  "(sample \<Rightarrow> 'enc \<Rightarrow> 'enc option) \<Rightarrow> page_probe \<Rightarrow> u64 \<Rightarrow> tunnel \<Rightarrow> 'c any_transport list
    \<Rightarrow> (labels \<times> u64) list \<Rightarrow> (labels \<times> u64) list \<Rightarrow> crawler_metrics option \<Rightarrow> 'enc \<Rightarrow> 'enc option" where
  "registry_encode emit P errors tun ts drops sends crawler enc =
     (let emit' = with_prefix emit in
      Option.bind (collect_family emit' ''errors'' [] (CounterOf errors) enc) (\<lambda>enc.
      Option.bind
        (controller_collect emit' any_name (any_connected (pp_now P)) (any_collect emit' P)
           (collect_all emit' (family_entries drops sends)) tun ts enc) (\<lambda>enc.
      case crawler of Some m \<Rightarrow> crawler_encode emit' m enc | None \<Rightarrow> Some enc)))"

text \<open>The answer to a request of the page, with an encoder that writes text.\<close>

definition metrics_answer ::
  "(sample \<Rightarrow> string \<Rightarrow> string option) \<Rightarrow> string \<Rightarrow> page_probe \<Rightarrow> u64 \<Rightarrow> tunnel \<Rightarrow> 'c any_transport list
    \<Rightarrow> (labels \<times> u64) list \<Rightarrow> (labels \<times> u64) list \<Rightarrow> crawler_metrics option \<Rightarrow> page" where
  "metrics_answer emit err P errors tun ts drops sends crawler =
     get_metrics (case registry_encode emit P errors tun ts drops sends crawler [] of
       Some text \<Rightarrow> Inr text | None \<Rightarrow> Inl err)"

section \<open>The samples of the page\<close>

fun is_server :: "'c any_transport \<Rightarrow> bool" where
  "is_server (ServerTransport hs) \<longleftrightarrow> True"
| "is_server t \<longleftrightarrow> False"

text \<open>The samples of a transport, of which all but the count of proxied connections are labelled.\<close>

fun labelled_samples :: "page_probe \<Rightarrow> 'c any_transport \<Rightarrow> family list" where
  "labelled_samples P (ClientTransport h) =
     concat (map (\<lambda>i. stat_families (cl_stat (ht_clients h ! i)) @
       writer_samples (pp_ca P) (pp_tcp P) (cl_writer (ht_clients h ! i))) (pool_values (ht_pool h)))"
| "labelled_samples P (ServerTransport hs) =
     tl (server_samples (pp_ca P) (pp_tcp P) (pp_proxied P (hs_name hs)) hs)"
| "labelled_samples P (DatagramTransport u) =
     stat_families (udp_stat u) @ udp_socket_families (udp_stat u) (pp_udp P (udp_name u))"

definition transport_samples :: "page_probe \<Rightarrow> 'c any_transport \<Rightarrow> family list" where
  "transport_samples P t =
     (''transport_state'', sample_labels (state_sample (any_name t) (any_connected (pp_now P) t)), GaugeOf 1) #
     (if is_server t then [(''open_proxied_connections'', [], GaugeOf (pp_proxied P (any_name t)))] else []) @
     labelled_samples P t"

fun prefixed :: "family \<Rightarrow> family" where
  "prefixed (n, ls, v) = (''hiddenlink_'' @ n, ls, v)"

definition crawler_samples :: "crawler_metrics option \<Rightarrow> family list" where
  "crawler_samples crawler =
     (case crawler of
        Some m \<Rightarrow>
          [(''crawler_new_connections'', [], CounterOf (new_connections_count m)),
           (''crawler_active_connections'', [], GaugeOf (active_connections m)),
           (''crawler_request_time'', [], ObservedOf (unat (request_times m))),
           (''crawler_errors'', [], CounterOf (crawl_errors m))]
      | None \<Rightarrow> [])"

definition own_samples :: "u64 \<Rightarrow> tunnel \<Rightarrow> family list" where
  "own_samples errors tun =
     [(''errors'', [], CounterOf errors),
      (''tunnel_packet_receive_time'', [], ElapsedOf (tun_recv_time tun)),
      (''tunnel_packet_send_time'', [], ObservedOf (length (tun_send_times tun)))]"

definition page_samples ::
  "page_probe \<Rightarrow> u64 \<Rightarrow> tunnel \<Rightarrow> 'c any_transport list \<Rightarrow> (labels \<times> u64) list \<Rightarrow> (labels \<times> u64) list
    \<Rightarrow> crawler_metrics option \<Rightarrow> family list" where
  "page_samples P errors tun ts drops sends crawler =
     map prefixed
       (own_samples errors tun @ concat (map (transport_samples P) ts) @ family_entries drops sends @
        crawler_samples crawler)"

lemma collect_with_prefix: "collect_all (with_prefix emit) xs = collect_all emit (map prefixed xs)"
proof (rule ext)
  show "collect_all (with_prefix emit) xs enc = collect_all emit (map prefixed xs) enc" for enc
    by (induction xs arbitrary: enc) (auto simp: collect_family_def with_prefix_def split: option.split)
qed

lemma ht_collect_each: "ht_collect_all = collect_each"
proof (intro ext)
  show "ht_collect_all collect cs enc = collect_each collect cs enc" for collect cs enc
    by (induction cs arbitrary: enc) (auto split: option.split intro!: Option.bind_cong)
qed

lemma cl_collect_samples:
  "cl_collect emit ca probe c enc =
     collect_all emit (stat_families (cl_stat c) @ writer_samples ca probe (cl_writer c)) enc"
  by (cases "collect_all emit (stat_families (cl_stat c)) enc")
    (simp_all add: cl_collect_def collect_stat_def collect_all_append writer_collect_def writer_samples_def
      collect_tcp_socket_def split: option.split)

lemma any_collect_samples:
  "any_collect emit P t enc =
     collect_all emit ((if is_server t then [(''open_proxied_connections'', [], GaugeOf (pp_proxied P (any_name t)))] else []) @
       labelled_samples P t) enc"
proof (cases t)
  case (ClientTransport h)
  let ?c = "\<lambda>c. stat_families (cl_stat c) @ writer_samples (pp_ca P) (pp_tcp P) (cl_writer c)"
  have "collect_each (cl_collect emit (pp_ca P) (pp_tcp P)) cs enc = collect_all emit (concat (map ?c cs)) enc" for cs
    by (rule collect_each_all) (rule cl_collect_samples)
  then show ?thesis by (simp add: ClientTransport ht_collect_each comp_def)
next
  case (ServerTransport hs)
  then show ?thesis by (simp add: hs_collect_samples server_samples_def)
next
  case (DatagramTransport u)
  then show ?thesis by (simp add: udp_collect_def collect_stat_def collect_udp_socket_def collect_all_append)
qed

lemma collect_transports_samples:
  "collect_transports emit any_name (any_connected (pp_now P)) (any_collect emit P) ts enc =
     collect_all emit (concat (map (transport_samples P) ts)) enc"
proof (induction ts arbitrary: enc)
  case (Cons t ts)
  have s: "\<lparr>sample_name = ''transport_state'', sample_labels = sample_labels (state_sample n b), sample_value = GaugeOf 1\<rparr>
      = state_sample n b" for n b by (simp add: state_sample_def)
  define own where "own = (if is_server t then [(''open_proxied_connections'', [], GaugeOf (pp_proxied P (any_name t)))] else []) @
       labelled_samples P t"
  have t: "transport_samples P t =
      (''transport_state'', sample_labels (state_sample (any_name t) (any_connected (pp_now P) t)), GaugeOf 1) # own"
    by (simp add: transport_samples_def own_def)
  have c: "any_collect emit P t = collect_all emit own"
    unfolding own_def by (rule ext) (rule any_collect_samples)
  have ih: "collect_transports emit any_name (any_connected (pp_now P)) (any_collect emit P) ts =
      collect_all emit (concat (map (transport_samples P) ts))"
    by (rule ext) (rule Cons.IH)
  show ?case
    by (simp add: t c ih collect_family_def s collect_all_append split: option.split)
qed simp

lemma registry_encode_samples:
  "registry_encode emit P errors tun ts drops sends crawler enc =
     collect_all emit (page_samples P errors tun ts drops sends crawler) enc"
proof -
  have c: "controller_collect e any_name (any_connected (pp_now P)) (any_collect e P)
       (collect_all e (family_entries drops sends)) tun ts enc =
     collect_all e
       ([(''tunnel_packet_receive_time'', [], ElapsedOf (tun_recv_time tun)),
         (''tunnel_packet_send_time'', [], ObservedOf (length (tun_send_times tun)))] @
        concat (map (transport_samples P) ts) @ family_entries drops sends) enc" for e enc
    unfolding controller_collect_def tunnel_collect_def collect_all_append
    by (simp add: collect_transports_samples)
  have cr: "(case crawler of Some m \<Rightarrow> crawler_encode e m enc | None \<Rightarrow> Some enc) =
     collect_all e (crawler_samples crawler) enc" for e enc
    by (simp add: crawler_samples_def crawler_encode_def split: option.split)
  have one: "collect_family e n ls v enc = collect_all e [(n, ls, v)] enc" for e n ls v enc
    by (simp split: option.split)
  show ?thesis
    unfolding registry_encode_def page_samples_def own_samples_def collect_with_prefix [symmetric] Let_def one c cr
    by (simp only: collect_all_append [symmetric] append_assoc append.simps)
qed

section \<open>What becomes of a started transport\<close>

text \<open>A transport works on, by the operations of the components: the writer of one of a client's
  connections makes a step or a packet is received over it, where connection and writer share their
  statistics; a server makes one of its steps; a UDP end receives, pings or sends.\<close>

inductive transport_step :: "'c any_transport \<Rightarrow> 'c any_transport \<Rightarrow> bool" where
  client_writes: "i < length (ht_clients h) \<Longrightarrow> c = ht_clients h ! i \<Longrightarrow> writer_step (cl_writer c, acc) (w', acc') \<Longrightarrow>
    transport_step (ClientTransport h)
      (ClientTransport (h\<lparr>ht_clients := (ht_clients h)[i := c\<lparr>cl_writer := w', cl_stat := pw_stat w'\<rparr>]\<rparr>))"
| client_receives: "i < length (ht_clients h) \<Longrightarrow> c = ht_clients h ! i \<Longrightarrow> st = on_packet_received packet (cl_stat c) \<Longrightarrow>
    transport_step (ClientTransport h)
      (ClientTransport (h\<lparr>ht_clients := (ht_clients h)[i := c\<lparr>cl_writer := (cl_writer c)\<lparr>pw_stat := st\<rparr>, cl_stat := st\<rparr>]\<rparr>))"
| server_works: "server_step (hs, log) (hs', log') \<Longrightarrow> transport_step (ServerTransport hs) (ServerTransport hs')"
| datagram_arrives: "receive_message K now secs received u = (verdict, u') \<Longrightarrow>
    transport_step (DatagramTransport u) (DatagramTransport u')"
| pinger_wakes: "pinger_wake K now secs woken next_ping u = (message, next', u') \<Longrightarrow>
    transport_step (DatagramTransport u) (DatagramTransport u')"
| ping_goes: "pinger_sent now datagram result u = (next', u') \<Longrightarrow>
    transport_step (DatagramTransport u) (DatagramTransport u')"
| packet_leaves: "send_begin K now secs packet u = (sealed, u') \<Longrightarrow>
    transport_step (DatagramTransport u) (DatagramTransport u')"
| packet_sent: "send_end now packet datagram result u = (r, u') \<Longrightarrow>
    transport_step (DatagramTransport u) (DatagramTransport u')"

text \<open>The invariant: the connections of a transport report under its name and their own, distinct
  names.\<close>

fun reports_ok :: "string \<Rightarrow> 'c any_transport \<Rightarrow> bool" where
  "reports_ok name (ClientTransport h) \<longleftrightarrow> ht_name h = name \<and> clients_filed (ht_pool h) (ht_clients h) \<and>
     distinct (map cl_name (ht_clients h)) \<and>
     map (stat_labels \<circ> cl_stat) (ht_clients h) = map (stat_labels \<circ> new_stat name \<circ> cl_name) (ht_clients h) \<and>
     map (stat_labels \<circ> pw_stat \<circ> cl_writer) (ht_clients h) = map (stat_labels \<circ> new_stat name \<circ> cl_name) (ht_clients h)"
| "reports_ok name (ServerTransport hs) \<longleftrightarrow> (\<exists>log. report_ok name (hs, log))"
| "reports_ok name (DatagramTransport u) \<longleftrightarrow> udp_name u = name \<and>
     stat_labels (udp_stat u) = stat_labels (new_stat name name)"

lemma add_clients_stats:
  assumes "add_clients name count config ks (pool, cs) = Ok (pool', cs')"
    "\<forall>c \<in> set cs. cl_stat c = new_stat name (cl_name c) \<and> pw_stat (cl_writer c) = new_stat name (cl_name c)"
  shows "\<forall>c \<in> set cs'. cl_stat c = new_stat name (cl_name c) \<and> pw_stat (cl_writer c) = new_stat name (cl_name c)"
  using assms
proof (induction ks arbitrary: pool cs)
  case (Cons k ks)
  let ?n = "client_connection_name name count k"
  let ?cs = "cs @ [new_client_connection ?n config (new_stat name ?n)]"
  have new: "\<forall>c \<in> set ?cs. cl_stat c = new_stat name (cl_name c) \<and> pw_stat (cl_writer c) = new_stat name (cl_name c)"
    using Cons.prems(2) by (auto simp: new_client_connection_def new_writer_def)
  from Cons.prems(1) obtain pool2 where "add_clients name count config ks (pool2, ?cs) = Ok (pool', cs')"
    by (auto simp: Let_def split: prod.splits bool.splits)
  from Cons.IH [OF this new] show ?case .
qed simp

lemma new_http_client_reports:
  assumes "new_http_client urlencode parse_endpoint roots hash_one name c = Ok h"
    "1 \<le> hcc_connections c" "hcc_connections c \<le> 10"
  shows "reports_ok name (ClientTransport h)"
proof -
  have ok: "http_client_ok h" "ht_name h = name"
    using new_http_client_cases [of c urlencode parse_endpoint roots hash_one name] assms by auto
  obtain config pool where a: "add_clients name (hcc_connections c) config [1..<hcc_connections c + 1] (new_connections hash_one, [])
      = Ok (pool, ht_clients h)"
    using assms(1) by (auto simp: new_http_client_def Let_def outcome_simps split: if_splits option.splits)
  have "\<forall>c \<in> set (ht_clients h). cl_stat c = new_stat name (cl_name c) \<and> pw_stat (cl_writer c) = new_stat name (cl_name c)"
    by (rule add_clients_stats [OF a]) simp
  with ok show ?thesis by (simp add: http_client_ok_def)
qed

lemma server_pool_new:
  "new_http_server_transport urlencode sha224_hex load roots client_config open_files max_permits bind hash_one name c = Ok t
     \<Longrightarrow> hst_pool t = new_http_server hash_one name"
  by (cases roots; cases open_files; cases "bind (hsc_bind_address c)";
      cases "new_tls_domains load (hsc_default_domain c) (hsc_additional_domains c)")
    (auto simp: new_http_server_transport_def)

lemma started_reports:
  assumes "start_transport sys k name = Ok t"
    "\<forall>c. k = HttpClientConfig c \<longrightarrow> 1 \<le> hcc_connections c \<and> hcc_connections c \<le> 10"
  shows "reports_ok name (as_any t)" "is_server (as_any t) \<longleftrightarrow> config_kind k = HttpServerKind"
proof -
  have udp: "open_udp_transport sys name c s = Ok u \<Longrightarrow> reports_ok name (DatagramTransport u)" for c s u
    by (auto simp: open_udp_transport_def new_udp_transport_def outcome_simps split: option.splits outcome.splits)
  show "reports_ok name (as_any t)"
    using assms
    by (cases k) (auto simp: outcome_simps split: outcome.splits
        dest: new_http_client_reports server_pool_new udp intro!: exI [of _ "[]"] report_ok_new)
  show "is_server (as_any t) \<longleftrightarrow> config_kind k = HttpServerKind"
    using assms(1) by (cases k) (auto simp: outcome_simps split: outcome.splits)
qed

lemma writer_step_labels: "writer_step (w, acc) (w', acc') \<Longrightarrow> stat_labels (pw_stat w') = stat_labels (pw_stat w)"
  by (induction "(w, acc)" "(w', acc')" rule: writer_step.induct)
    (auto simp: writer_replace_def writer_close_matching_def writer_close_def writer_current_def send_locked_def
      shutdown_locked_def shutdown_aborted_def Let_def split: if_splits option.splits prod.splits outcome.splits)

lemma server_step_any_log: "server_step (hs, log) (hs', log') \<Longrightarrow> \<exists>log''. server_step (hs, l) (hs', log'')"
  by (induction "(hs, log)" "(hs', log')" rule: server_step.induct) (blast intro: server_step.intros)+

lemma map_update_same: "i < length xs \<Longrightarrow> f y = f (xs ! i) \<Longrightarrow> map f (xs[i := y]) = map f xs"
  by (simp add: map_update list_update_same_conv)

lemma clients_filed_names:
  "clients_filed pool cs \<Longrightarrow> map cl_name cs' = map cl_name cs \<Longrightarrow> clients_filed pool cs'"
proof -
  assume a: "clients_filed pool cs" "map cl_name cs' = map cl_name cs"
  then have "length cs' = length cs" using map_eq_imp_length_eq by blast
  moreover from this have "cl_name (cs' ! i) = cl_name (cs ! i)" if "i < length cs" for i
    using a(2) that by (metis nth_map)
  ultimately show ?thesis using a(1) by (simp add: clients_filed_def)
qed

text \<open>A connection that keeps its name and its labels.\<close>

lemma client_updated_reports:
  assumes "reports_ok name (ClientTransport h)" "i < length (ht_clients h)" "cl_name c = cl_name (ht_clients h ! i)"
    "stat_labels (cl_stat c) = stat_labels (cl_stat (ht_clients h ! i))"
    "stat_labels (pw_stat (cl_writer c)) = stat_labels (pw_stat (cl_writer (ht_clients h ! i)))"
  shows "reports_ok name (ClientTransport (h\<lparr>ht_clients := (ht_clients h)[i := c]\<rparr>))"
proof -
  note same = map_update_same [OF assms(2)]
  have names: "map cl_name ((ht_clients h)[i := c]) = map cl_name (ht_clients h)" by (rule same) (rule assms(3))
  then have "map (stat_labels \<circ> new_stat name \<circ> cl_name) ((ht_clients h)[i := c]) =
      map (stat_labels \<circ> new_stat name \<circ> cl_name) (ht_clients h)" by (simp flip: map_map)
  moreover have "map (stat_labels \<circ> cl_stat) ((ht_clients h)[i := c]) = map (stat_labels \<circ> cl_stat) (ht_clients h)"
    "map (stat_labels \<circ> pw_stat \<circ> cl_writer) ((ht_clients h)[i := c]) = map (stat_labels \<circ> pw_stat \<circ> cl_writer) (ht_clients h)"
    by (rule same; simp add: assms(4,5))+
  ultimately show ?thesis
    using assms(1) names clients_filed_names [OF _ names] by (simp del: map_update)
qed

lemma datagram_labels:
  "receive_message K now secs received u = (verdict, u') \<Longrightarrow> udp_name u' = udp_name u \<and> stat_labels (udp_stat u') = stat_labels (udp_stat u)"
  "pinger_wake K now secs woken next_ping u = (message, next', u') \<Longrightarrow> udp_name u' = udp_name u \<and> udp_stat u' = udp_stat u"
  "pinger_sent now datagram result u = (next', u') \<Longrightarrow> udp_name u' = udp_name u \<and> udp_stat u' = udp_stat u"
  "send_begin K now secs packet u = (sealed, u') \<Longrightarrow> udp_name u' = udp_name u \<and> udp_stat u' = udp_stat u"
  "send_end now packet datagram result u = (r, u') \<Longrightarrow> udp_name u' = udp_name u \<and> stat_labels (udp_stat u') = stat_labels (udp_stat u)"
  by (auto simp: receive_message_def pinger_wake_def pinger_sent_def send_begin_def send_end_def send_to_def on_ingress_packet_def
      on_egress_packet_def Let_def split: sum.splits prod.splits if_splits option.splits outcome.splits)

lemma transport_step_reports:
  "transport_step t t' \<Longrightarrow> reports_ok name t \<Longrightarrow> reports_ok name t' \<and> is_server t' = is_server t"
proof (induction rule: transport_step.induct)
  case (client_writes i h c acc w' acc')
  then show ?case using writer_step_labels [OF client_writes(3)]
    by (auto simp del: reports_ok.simps intro!: client_updated_reports)
      (simp add: list_eq_iff_nth_eq)
next
  case (client_receives i h c st packet)
  then show ?case
    by (auto simp del: reports_ok.simps intro!: client_updated_reports)
      (simp add: list_eq_iff_nth_eq)
next
  case (server_works hs log hs' log')
  then obtain l where l: "report_ok name (hs, l)" by auto
  from server_step_any_log [OF server_works(1)] obtain l' where "server_step (hs, l) (hs', l')" by blast
  from report_ok_step [OF this l] show ?case by auto
qed (auto dest: datagram_labels)

lemma evolved_reports:
  "transport_step\<^sup>*\<^sup>* t t' \<Longrightarrow> reports_ok name t \<Longrightarrow> reports_ok name t' \<and> is_server t' = is_server t"
  by (induction rule: rtranclp_induct) (auto dest: transport_step_reports)

section \<open>No series twice\<close>

lemma udp_series:
  "distinct (map series (udp_socket_families st probe))"
  "(n, ls, v) \<in> set (udp_socket_families st probe) \<Longrightarrow> ls = stat_labels st"
  "(n, ls, v) \<in> set (udp_socket_families st probe) \<Longrightarrow> take 6 n = ''socket''"
  by (cases "probe_unsent probe"; cases "probe_rcvbuf probe"; cases "probe_sndbuf probe";
      auto simp: udp_socket_families_def ip_socket_families_def optional_gauge_def)+

lemma distinct_two_groups:
  assumes "distinct (map series xs)" "distinct (map series ys)"
    "\<And>n ls v. (n, ls, v) \<in> set xs \<Longrightarrow> take 6 n = ''connec''"
    "\<And>n ls v. (n, ls, v) \<in> set ys \<Longrightarrow> take 6 n = ''socket''"
  shows "distinct (map series (xs @ ys))"
  using assms(1,2) by (auto dest!: assms(3,4))

text \<open>What a connection reports of itself and of its socket.\<close>

lemma connection_samples:
  assumes "length (stat_labels st) = 2" "stat_labels (pw_stat w) = stat_labels st"
  shows "distinct (map series (stat_families st @ writer_samples ca probe w))"
    "(n, ls, v) \<in> set (stat_families st @ writer_samples ca probe w) \<Longrightarrow> take 2 ls = stat_labels st \<and> take 6 n \<in> {''connec'', ''socket''}"
proof -
  have w: "(n, ls, v) \<in> set (writer_samples ca probe w) \<Longrightarrow> take 2 ls = stat_labels st \<and> take 6 n = ''socket''" for n ls v
    using connection_series(4,6) [of "pw_stat w"] assms(1,2) by (auto simp: writer_samples_def split: option.splits)
  have "distinct (map series (writer_samples ca probe w))"
    using connection_series(2) [of "pw_stat w"] assms(1,2) by (simp add: writer_samples_def split: option.split)
  then show "distinct (map series (stat_families st @ writer_samples ca probe w))"
    by (intro distinct_two_groups connection_series(1) [OF assms(1)])
      (auto dest: connection_series(5) [OF assms(1)] w)
  show "(n, ls, v) \<in> set (stat_families st @ writer_samples ca probe w) \<Longrightarrow> take 2 ls = stat_labels st \<and> take 6 n \<in> {''connec'', ''socket''}"
    using connection_series(3,5) [OF assms(1)] w by auto
qed

lemma new_stat_labels:
  "length (stat_labels (new_stat name n)) = 2" "take (Suc 0) (stat_labels (new_stat name n)) = [(TRANSPORT_LABEL, name)]"
  "stat_labels (new_stat name n) = stat_labels (new_stat name m) \<longleftrightarrow> n = m"
  by (simp_all add: new_stat_def)

lemma transport_label: "take 2 ls = stat_labels (new_stat name n) \<Longrightarrow> take (Suc 0) ls = [(TRANSPORT_LABEL, name)]"
  using new_stat_labels(2) [of name n] by (cases ls) (auto simp: new_stat_def)

lemma client_samples:
  assumes "reports_ok name (ClientTransport h)"
  shows "distinct (map series (labelled_samples P (ClientTransport h)))"
    "(n, ls, v) \<in> set (labelled_samples P (ClientTransport h)) \<Longrightarrow>
      take (Suc 0) ls = [(TRANSPORT_LABEL, name)] \<and> take 6 n \<in> {''connec'', ''socket''}"
proof -
  let ?cs = "ht_clients h"
  have vals: "pool_values (ht_pool h) = [0..<length ?cs]" using assms clients_filed_values by simp
  have lab: "stat_labels (cl_stat (?cs ! i)) = stat_labels (new_stat name (cl_name (?cs ! i)))"
    "stat_labels (pw_stat (cl_writer (?cs ! i))) = stat_labels (new_stat name (cl_name (?cs ! i)))"
    if "i < length ?cs" for i
    using assms that by (auto simp: list_eq_iff_nth_eq)
  have one: "length (stat_labels (cl_stat (?cs ! i))) = 2"
    "stat_labels (pw_stat (cl_writer (?cs ! i))) = stat_labels (cl_stat (?cs ! i))" if "i < length ?cs" for i
    using lab [OF that] new_stat_labels(1) by simp_all
  define own where "own i = stat_families (cl_stat (?cs ! i)) @
    writer_samples (pp_ca P) (pp_tcp P) (cl_writer (?cs ! i))" for i
  have own: "distinct (map series (own i))" "(n, ls, v) \<in> set (own i) \<Longrightarrow>
      take 2 ls = stat_labels (new_stat name (cl_name (?cs ! i))) \<and> take 6 n \<in> {''connec'', ''socket''}"
    if "i < length ?cs" for i n ls v
    using connection_samples [OF one [OF that]] lab(1) [OF that] by (simp_all add: own_def del: map_append set_append)
  have eq: "labelled_samples P (ClientTransport h) = concat (map own [0..<length ?cs])"
    by (simp add: vals own_def [abs_def])
  have "distinct (map (\<lambda>i. stat_labels (new_stat name (cl_name (?cs ! i)))) [0..<length ?cs])"
    using assms by (auto simp: distinct_map inj_on_def new_stat_labels(3) distinct_conv_nth)
  then show "distinct (map series (labelled_samples P (ClientTransport h)))"
    unfolding eq by (rule distinct_concat_keys [where pick = "\<lambda>n. take 2"]) (use own in simp_all)
  assume "(n, ls, v) \<in> set (labelled_samples P (ClientTransport h))"
  then obtain i where "i < length ?cs" "(n, ls, v) \<in> set (own i)" unfolding eq by auto
  with own(2) show "take (Suc 0) ls = [(TRANSPORT_LABEL, name)] \<and> take 6 n \<in> {''connec'', ''socket''}"
    using transport_label by blast
qed

lemma server_samples_labels:
  assumes "report_ok name (hs, log)" "(n, ls, v) \<in> set (tl (server_samples ca probe gauge hs))"
  shows "take (Suc 0) ls = [(TRANSPORT_LABEL, name)] \<and> take 6 n \<in> {''connec'', ''socket''}"
proof -
  have stat: "\<exists>c. stat_labels st = stat_labels (new_stat name c)" if "st \<in> snd ` set (hs_stat hs)" for st
    using assms(1) that by (force simp: report_ok_def)
  have active: "\<exists>c. stat_labels (pw_stat (hl_writer (hs_heap hs ! i))) = stat_labels (new_stat name c)"
    if "i \<in> set (pool_values (hs_active hs))" for i
    using assms(1) that by (auto simp: report_ok_def server_ok_def)
  from assms(2) consider st where "st \<in> snd ` set (hs_stat hs)" "(n, ls, v) \<in> set (stat_families st)"
    | i where "i \<in> set (pool_values (hs_active hs))" "(n, ls, v) \<in> set (writer_samples ca probe (hl_writer (hs_heap hs ! i)))"
    by (auto simp: server_samples_def)
  then show ?thesis
  proof cases
    case 1
    then show ?thesis
      using stat [OF 1(1)] new_stat_labels(1) connection_series(3,5) [of st n ls v] by (auto intro: transport_label)
  next
    case 2
    let ?st = "pw_stat (hl_writer (hs_heap hs ! i))"
    obtain fd where fd: "(n, ls, v) \<in> set (tcp_socket_families ca ?st (probe fd))"
      using 2(2) by (auto simp: writer_samples_def split: option.splits)
    obtain c where c: "stat_labels ?st = stat_labels (new_stat name c)" using active [OF 2(1)] by blast
    then have two: "length (stat_labels ?st) = 2" by (simp add: new_stat_labels(1))
    from connection_series(4) [OF two fd] c have "take 2 ls = stat_labels (new_stat name c)" by simp
    with connection_series(6) [OF two fd] show ?thesis by (simp add: transport_label)
  qed
qed

lemma labelled_samples_series:
  assumes "reports_ok name t"
  shows "distinct (map series (labelled_samples P t)) \<and>
    (\<forall>(n, ls, v) \<in> set (labelled_samples P t). take (Suc 0) ls = [(TRANSPORT_LABEL, name)] \<and> take 6 n \<in> {''connec'', ''socket''})"
proof (cases t)
  case (ClientTransport h)
  with assms client_samples [of name h, where P = P] show ?thesis by auto
next
  case (ServerTransport hs)
  with assms obtain log where log: "report_ok name (hs, log)" by auto
  have "distinct (map series (labelled_samples P t))"
    using distinct_server_samples [OF log] by (simp add: ServerTransport server_samples_def)
  with log show ?thesis by (auto simp: ServerTransport dest: server_samples_labels simp del: tl_append)
next
  case (DatagramTransport u)
  then have lab: "stat_labels (udp_stat u) = stat_labels (new_stat name name)" using assms by simp
  then have two: "length (stat_labels (udp_stat u)) = 2" by (simp add: new_stat_labels)
  have "distinct (map series (labelled_samples P t))"
    unfolding DatagramTransport labelled_samples.simps
    by (intro distinct_two_groups connection_series(1) [OF two] udp_series(1))
      (auto dest: connection_series(5) [OF two] udp_series(3))
  moreover have "take (Suc 0) ls = [(TRANSPORT_LABEL, name)] \<and> take 6 n \<in> {''connec'', ''socket''}"
    if "(n, ls, v) \<in> set (stat_families (udp_stat u))" for n ls v
    using connection_series(3,5) [OF two that] lab by (auto intro: transport_label)
  moreover have "take (Suc 0) ls = [(TRANSPORT_LABEL, name)] \<and> take 6 n \<in> {''connec'', ''socket''}"
    if "(n, ls, v) \<in> set (udp_socket_families (udp_stat u) probe)" for n ls v probe
    using udp_series(2,3) [OF that] lab new_stat_labels(2) [of name name] by simp
  ultimately show ?thesis unfolding DatagramTransport labelled_samples.simps set_append by blast
qed

text \<open>The names that belong to the transports.\<close>

definition transport_names :: "string set" where
  "transport_names = {n. n = ''transport_state'' \<or> take 6 n \<in> {''connec'', ''socket''}}"

lemma transport_names_mem [simp]:
  "''errors'' \<notin> transport_names" "''tunnel_packet_receive_time'' \<notin> transport_names"
  "''tunnel_packet_send_time'' \<notin> transport_names" "''transport_packet_drops'' \<notin> transport_names"
  "''transport_packet_send_time'' \<notin> transport_names" "''crawler_new_connections'' \<notin> transport_names"
  "''crawler_active_connections'' \<notin> transport_names" "''crawler_request_time'' \<notin> transport_names"
  "''crawler_errors'' \<notin> transport_names" "''open_proxied_connections'' \<notin> transport_names"
  by (simp_all add: transport_names_def)

definition without_gauge :: "page_probe \<Rightarrow> 'c any_transport \<Rightarrow> family list" where
  "without_gauge P t =
     (''transport_state'', sample_labels (state_sample (any_name t) (any_connected (pp_now P) t)), GaugeOf 1) #
     labelled_samples P t"

lemma reports_ok_name: "reports_ok name t \<Longrightarrow> any_name t = name"
  by (cases t) (auto simp: report_ok_def)

lemma without_gauge_series:
  assumes "reports_ok name t"
  shows "distinct (map series (without_gauge P t))"
    "(n, ls, v) \<in> set (without_gauge P t) \<Longrightarrow> take (Suc 0) ls = [(TRANSPORT_LABEL, name)] \<and> n \<in> transport_names"
proof -
  note l = labelled_samples_series [OF assms, of P]
  have "(''transport_state'', ls) \<notin> series ` set (labelled_samples P t)" for ls
    using l by fastforce
  with l show "distinct (map series (without_gauge P t))" by (simp add: without_gauge_def)
  show "(n, ls, v) \<in> set (without_gauge P t) \<Longrightarrow> take (Suc 0) ls = [(TRANSPORT_LABEL, name)] \<and> n \<in> transport_names"
    using l reports_ok_name [OF assms] by (auto simp: without_gauge_def transport_names_def state_sample_def)
qed

text \<open>The series of all transports, without the counts of proxied connections.\<close>

lemma transports_series:
  assumes "list_all2 reports_ok names ts" "distinct names"
  shows "distinct (map series (concat (map (without_gauge P) ts)))"
    "fst ` set (map series (concat (map (without_gauge P) ts))) \<subseteq> transport_names"
proof -
  have names: "map any_name ts = names" using assms(1) by (induction rule: list_all2_induct) (simp_all add: reports_ok_name)
  have ok: "reports_ok (any_name t) t" if "t \<in> set ts" for t
    using assms(1) that by (induction rule: list_all2_induct) (auto simp: reports_ok_name)
  have "distinct (map (\<lambda>t. [(TRANSPORT_LABEL, any_name t)]) ts)"
    using assms(2) names [symmetric] by (simp add: distinct_map inj_on_def)
  then show "distinct (map series (concat (map (without_gauge P) ts)))"
    by (rule distinct_concat_keys [where pick = "\<lambda>n. take (Suc 0)"])
      (use without_gauge_series [OF ok] in blast)+
  show "fst ` set (map series (concat (map (without_gauge P) ts))) \<subseteq> transport_names"
    using without_gauge_series(2) [OF ok] by auto
qed

text \<open>A list is distinct if the parts of it are that a predicate of its elements separates.\<close>

lemma distinct_filter_parts:
  "distinct ys \<longleftrightarrow> distinct (filter Q ys) \<and> distinct (filter (\<lambda>y. \<not> Q y) ys)"
  by (induction ys) (auto simp del: distinct_filter)

lemma distinct_replicate_iff: "distinct (replicate k x) \<longleftrightarrow> k \<le> 1"
proof (cases k)
  case (Suc j)
  then show ?thesis by (cases j) simp_all
qed simp

definition is_gauge :: "string \<times> labels \<Rightarrow> bool" where
  "is_gauge s \<longleftrightarrow> fst s = ''open_proxied_connections''"

lemma gauge_parts:
  assumes "list_all2 reports_ok names ts"
  shows "filter is_gauge (map series (concat (map (transport_samples P) ts))) =
      replicate (length (filter is_server ts)) (''open_proxied_connections'', [])"
    "filter (\<lambda>s. \<not> is_gauge s) (map series (concat (map (transport_samples P) ts))) =
      map series (concat (map (without_gauge P) ts))"
proof -
  have "filter is_gauge (map series (concat (map (transport_samples P) ts))) =
      replicate (length (filter is_server ts)) (''open_proxied_connections'', []) \<and>
    filter (\<lambda>s. \<not> is_gauge s) (map series (concat (map (transport_samples P) ts))) =
      map series (concat (map (without_gauge P) ts))"
    using assms
  proof (induction rule: list_all2_induct)
    case (Cons name names t ts)
    have "\<not> is_gauge (series f)" if "f \<in> set (without_gauge P t)" for f
      using without_gauge_series(2) [OF Cons.hyps(1)] that by (cases f) (fastforce simp: is_gauge_def)
    then have "filter is_gauge (map series (without_gauge P t)) = []"
      "filter (\<lambda>s. \<not> is_gauge s) (map series (without_gauge P t)) = map series (without_gauge P t)"
      by (auto simp: filter_empty_conv filter_id_conv)
    then have "filter is_gauge (map series (transport_samples P t)) = (if is_server t then [(''open_proxied_connections'', [])] else [])"
      "filter (\<lambda>s. \<not> is_gauge s) (map series (transport_samples P t)) = map series (without_gauge P t)"
      by (auto simp: transport_samples_def without_gauge_def is_gauge_def)
    with Cons.IH show ?case by simp
  qed simp
  then show "filter is_gauge (map series (concat (map (transport_samples P) ts))) =
      replicate (length (filter is_server ts)) (''open_proxied_connections'', [])"
    "filter (\<lambda>s. \<not> is_gauge s) (map series (concat (map (transport_samples P) ts))) =
      map series (concat (map (without_gauge P) ts))" by simp_all
qed

lemma distinct_prefixed: "distinct (map series (map prefixed xs)) \<longleftrightarrow> distinct (map series xs)"
proof -
  have "map series (map prefixed xs) = map (apfst (append ''hiddenlink_'')) (map series xs)" by (induction xs) auto
  moreover have "inj_on (apfst (append ''hiddenlink_'')) A" for A :: "(string \<times> labels) set" by (auto simp: inj_on_def)
  ultimately show ?thesis by (simp only: distinct_map) simp
qed

lemma apart:
  assumes "distinct xs" "distinct ys" "fst ` set xs \<subseteq> X" "fst ` set ys \<subseteq> Y" "X \<inter> Y = {}"
  shows "distinct (xs @ ys) \<and> fst ` set (xs @ ys) \<subseteq> X \<union> Y"
proof -
  have "fst z \<notin> Y" if "z \<in> set xs" for z using that assms(3,5) by blast
  then have "set xs \<inter> set ys = {}" using assms(4) by blast
  then show ?thesis using assms by (simp add: image_Un) blast
qed

text \<open>The page has a series twice only if two transports are servers, which count their proxied
  connections without a label.\<close>

lemma page_series:
  assumes "list_all2 reports_ok names ts" "distinct names" "distinct (map fst drops)" "distinct (map fst sends)"
  shows "distinct (map series (page_samples P errors tun ts drops sends crawler)) \<longleftrightarrow> length (filter is_server ts) \<le> 1"
proof -
  let ?own = "concat (map (transport_samples P) ts)"
  let ?head = "own_samples errors tun" and ?crawler = "crawler_samples crawler"
  let ?rest = "family_entries drops sends"
  have drops: "map series ?rest = map (Pair ''transport_packet_drops'' \<circ> fst) drops @ map (Pair ''transport_packet_send_time'' \<circ> fst) sends"
    by (auto simp: family_entries_def)
  have rest: "distinct (map series ?rest)"
    using assms(3,4) by (auto simp: drops distinct_map inj_on_def)
  have other: "filter is_gauge (map series ?head) = []" "filter is_gauge (map series ?rest) = []"
    "filter is_gauge (map series ?crawler) = []"
    by (auto simp: own_samples_def crawler_samples_def drops is_gauge_def filter_empty_conv split: option.splits)
  have not: "filter (\<lambda>s. \<not> is_gauge s) ys = ys" if "filter is_gauge ys = []" for ys
    using that by (auto simp: filter_empty_conv filter_id_conv)
  let ?W = "map series (concat (map (without_gauge P) ts))"
  have W: "distinct ?W" "fst ` set ?W \<subseteq> transport_names"
    by (rule transports_series [OF assms(1,2)])+
  have H: "distinct (map series ?head)" "fst ` set (map series ?head) \<subseteq> {''errors'', ''tunnel_packet_receive_time'', ''tunnel_packet_send_time''}"
    by (simp_all add: own_samples_def)
  have R: "fst ` set (map series ?rest) \<subseteq> {''transport_packet_drops'', ''transport_packet_send_time''}"
    by (auto simp: drops)
  have C: "distinct (map series ?crawler)" "fst ` set (map series ?crawler) \<subseteq>
      {''crawler_new_connections'', ''crawler_active_connections'', ''crawler_request_time'', ''crawler_errors''}"
    by (auto simp: crawler_samples_def split: option.split)
  note RC = apart [OF rest C(1) R C(2)]
  note WRC = apart [OF W(1) RC [THEN conjunct1] W(2) RC [THEN conjunct2]]
  have "distinct (map series ?head @ ?W @ map series ?rest @ map series ?crawler)"
    using apart [OF H(1) WRC [THEN conjunct1] H(2) WRC [THEN conjunct2]] by simp
  moreover have "filter is_gauge (map series (?head @ ?own @ ?rest @ ?crawler)) =
      replicate (length (filter is_server ts)) (''open_proxied_connections'', [])"
    by (simp only: map_append filter_append gauge_parts [OF assms(1)] other append_Nil append_Nil2)
  moreover have "filter (\<lambda>s. \<not> is_gauge s) (map series (?head @ ?own @ ?rest @ ?crawler)) =
      map series ?head @ ?W @ map series ?rest @ map series ?crawler"
    unfolding map_append filter_append gauge_parts [OF assms(1)] other [THEN not] ..
  ultimately show ?thesis
    unfolding page_samples_def distinct_prefixed
      distinct_filter_parts [where Q = is_gauge and ys = "map series (?head @ ?own @ ?rest @ ?crawler)"]
    by (simp only: distinct_replicate_iff simp_thms)
qed

section \<open>Properties\<close>

lemma started_page:
  assumes "new_controller config_kind (start_transport sys) specs = Ok started"
    "\<forall>(name, t) \<in> set specs. \<forall>c. t = HttpClientConfig c \<longrightarrow> http_client_config_valid no_control char_count c"
    "list_all2 transport_step\<^sup>*\<^sup>* (map (as_any \<circ> snd) started) ts"
  shows "list_all2 reports_ok (map fst started) ts \<and> distinct (map fst started) \<and>
    length (filter is_server ts) = count_kinds config_kind specs HttpServerKind"
proof -
  note names = start_transports_names [OF assms(1) [unfolded new_controller_def] distinct.simps(1) [THEN iffD2, OF TrueI]]
  have len: "length started = length specs" "length ts = length specs"
    using names assms(3) by (auto dest: list_all2_lengthD)
  have at: "reports_ok (fst (started ! i)) (ts ! i) \<and> (is_server (ts ! i) \<longleftrightarrow> config_kind (snd (specs ! i)) = HttpServerKind)"
    if i: "i < length specs" for i
  proof -
    have s: "start_transport sys (snd (specs ! i)) (fst (started ! i)) = Ok (snd (started ! i))" using names i by blast
    have "(fst (specs ! i), snd (specs ! i)) \<in> set specs" using i by simp
    with assms(2) have "\<forall>c. snd (specs ! i) = HttpClientConfig c \<longrightarrow> 1 \<le> hcc_connections c \<and> hcc_connections c \<le> 10"
      by (fastforce simp: http_client_config_valid_def)
    note started = started_reports [OF s this]
    have "transport_step\<^sup>*\<^sup>* (as_any (snd (started ! i))) (ts ! i)"
      using assms(3) i len by (auto simp: list_all2_conv_all_nth)
    from evolved_reports [OF this started(1)] started(2) show ?thesis by simp
  qed
  have "map is_server ts = map (\<lambda>(n, k). config_kind k = HttpServerKind) specs"
    using at len by (auto simp: list_eq_iff_nth_eq split_beta)
  then have "length (filter id (map is_server ts)) = length (filter id (map (\<lambda>(n, k). config_kind k = HttpServerKind) specs))"
    by simp
  then have "length (filter is_server ts) = count_kinds config_kind specs HttpServerKind"
    by (simp add: count_kinds_def filter_map comp_def case_prod_unfold)
  moreover have "list_all2 reports_ok (map fst started) ts" using at len by (auto simp: list_all2_conv_all_nth)
  ultimately show ?thesis using names by simp
qed

text \<open>C38: the page of metrics.  Whatever has become of the transports of a program that has started, the
  registry feeds the encoder the samples of the page, up to its first error, and the page is served
  with the text, or with an error; every transport is on it with its state.  No series is on the page
  twice if the configuration has at most one HTTP server.  With two of them one is: both report the
  number of their proxied connections without a label.\<close>
theorem metrics_page:
  assumes "load_config open_file parse no_control char_count path = Ok c"
    "start_program sys (Ok c) start_crawler = Ok p"
    "list_all2 transport_step\<^sup>*\<^sup>* (map (as_any \<circ> snd) (prog_transports p)) ts"
    "distinct (map fst drops)" "distinct (map fst sends)"
    "samples = page_samples P errors tun ts drops sends crawler"
  shows "registry_encode emit P errors tun ts drops sends crawler enc = collect_all emit samples enc \<and>
    page_status (metrics_answer emit_text err P errors tun ts drops sends crawler) =
      (if collect_all emit_text samples [] = None then 500 else 200) \<and>
    (\<forall>t \<in> set ts. (''hiddenlink_transport_state'', [(TRANSPORT_LABEL, any_name t),
        (''state'', if any_connected (pp_now P) t then ''connected'' else ''unavailable'')], GaugeOf 1) \<in> set samples) \<and>
    map any_name ts = map fst (prog_transports p) \<and>
    (distinct (map series samples) \<longleftrightarrow> count_kinds config_kind (config_transports c) HttpServerKind \<le> 1)"
proof -
  have "new_controller config_kind (start_transport sys) (config_transports c) = Ok (prog_transports p)"
    using assms(2) by (auto simp: start_program_def outcome_simps split: outcome.splits option.splits)
  moreover have "\<forall>(name, t) \<in> set (config_transports c). \<forall>cc. t = HttpClientConfig cc \<longrightarrow>
      http_client_config_valid no_control char_count cc"
    using assms(1) by (auto simp: load_config_Ok config_violations_Nil)
  ultimately have ok: "list_all2 reports_ok (map fst (prog_transports p)) ts" "distinct (map fst (prog_transports p))"
    "length (filter is_server ts) = count_kinds config_kind (config_transports c) HttpServerKind"
    using started_page assms(3) by blast+
  have "map any_name ts = map fst (prog_transports p)"
    using ok(1) by (induction rule: list_all2_induct) (simp_all add: reports_ok_name)
  moreover have "page_status (metrics_answer emit_text err P errors tun ts drops sends crawler) =
      (if collect_all emit_text samples [] = None then 500 else 200)"
    by (simp add: metrics_answer_def get_metrics_def registry_encode_samples assms(6) split: option.split)
  moreover have "(''hiddenlink_transport_state'', [(TRANSPORT_LABEL, any_name t),
        (''state'', if any_connected (pp_now P) t then ''connected'' else ''unavailable'')], GaugeOf 1) \<in> set samples"
    if "t \<in> set ts" for t
  proof -
    have "prefixed (''transport_state'', sample_labels (state_sample (any_name t) (any_connected (pp_now P) t)), GaugeOf 1)
        \<in> set (map prefixed (concat (map (transport_samples P) ts)))"
      using that unfolding set_map by (intro imageI) (auto simp: transport_samples_def)
    then show ?thesis by (simp add: assms(6) page_samples_def state_sample_def)
  qed
  moreover have "registry_encode emit P errors tun ts drops sends crawler enc = collect_all emit samples enc"
    by (simp add: registry_encode_samples assms(6))
  moreover have "distinct (map series samples) \<longleftrightarrow> count_kinds config_kind (config_transports c) HttpServerKind \<le> 1"
    using page_series [OF ok(1,2) assms(4,5), where P = P and errors = errors and tun = tun and crawler = crawler] ok(3)
    unfolding assms(6) by simp
  ultimately show ?thesis by simp
qed

text \<open>A program with two HTTP servers.\<close>

definition two_servers :: config where
  "two_servers = (demo_main_config ''0123456789'' 3)\<lparr>config_path := ''path'', config_crawler := None,
     config_transports := replicate 2 (None, HttpServerConfig (demo_server_config ''0123456789''))\<rparr>"

definition quiet_probe :: page_probe where
  "quiet_probe = \<lparr>pp_now = 0, pp_ca = demo_ca, pp_tcp = (\<lambda>_. demo_probe), pp_udp = (\<lambda>_. demo_probe), pp_proxied = (\<lambda>_. 0)\<rparr>"

definition no_crawler :: "crawler_config \<Rightarrow> (string, string crawler) outcome" where
  "no_crawler k = Err []"

lemma metrics_page_witness:
  "\<exists>p. start_program demo_system (Ok two_servers) no_crawler = Ok p \<and>
     \<not> distinct (map series (page_samples quiet_probe 0 new_tunnel (map (as_any \<circ> snd) (prog_transports p)) [] [] None))"
proof -
  have load: "load_config (\<lambda>p. Inr []) (\<lambda>d. Inr (two_servers\<lparr>config_path := []\<rparr>)) (\<lambda>s. True) length ''path'' = Ok two_servers"
    by (simp add: load_config_Ok config_violations_Nil two_servers_def demo_main_config_def)
  have "plain_dns_name ''a''"
    by (simp add: plain_dns_name_def suffix_def sublist_def append_eq_Cons_conv Cons_eq_append_conv)
  from demo_load [OF this] have cert: "load_cert [demo_cert ''a''] = Ok [''a'']" by (simp add: demo_domain_def)
  have t: "\<exists>t. start_transport demo_system (HttpServerConfig (demo_server_config ''0123456789'')) n = Ok (StartedServer t) \<and>
      hst_pool t = new_http_server (\<lambda>_. 0) n" for n
    by (simp add: demo_system_def new_http_server_transport_def demo_server_config_def new_tls_domains_def
        new_tls_domain_def load_certs_def cert load_key_def)
  obtain t u where tu: "start_transport demo_system (HttpServerConfig (demo_server_config ''0123456789'')) ''HTTP server #1'' = Ok (StartedServer t)"
    "start_transport demo_system (HttpServerConfig (demo_server_config ''0123456789'')) ''HTTP server #2'' = Ok (StartedServer u)"
    using t by blast
  have digits: "show_nat (Suc 0) = ''1''" "show_nat (Suc (Suc 0)) = ''2''"
    by (simp_all add: show_small numeral_2_eq_2 [symmetric])
  have "new_controller config_kind (start_transport demo_system) (config_transports two_servers) =
      Ok [(''HTTP server #1'', StartedServer t), (''HTTP server #2'', StartedServer u)]"
    using tu by (simp add: new_controller_def two_servers_def count_kinds_def auto_name_def numeral_2_eq_2 Let_def digits
        del: start_transport.simps)
  then obtain p where p: "start_program demo_system (Ok two_servers) no_crawler = Ok p"
    "prog_transports p = [(''HTTP server #1'', StartedServer t), (''HTTP server #2'', StartedServer u)]"
    by (simp add: start_program_def) (simp add: two_servers_def demo_main_config_def demo_system_def)
  have e: "list_all2 transport_step\<^sup>*\<^sup>* (map (as_any \<circ> snd) (prog_transports p)) (map (as_any \<circ> snd) (prog_transports p))"
    by (simp add: p(2))
  have "\<not> count_kinds config_kind (config_transports two_servers) HttpServerKind \<le> 1"
    by (simp add: two_servers_def count_kinds_def)
  with metrics_page [OF load p(1) e _ _ refl, where drops = "[]" and sends = "[]" and P = quiet_probe
      and errors = 0 and tun = new_tunnel and crawler = None and emit = "\<lambda>s enc. Some (enc @ [s])" and enc = "[]"
      and emit_text = "\<lambda>s text. Some text" and err = "[]"]
  have "\<not> distinct (map series (page_samples quiet_probe 0 new_tunnel (map (as_any \<circ> snd) (prog_transports p)) [] [] None))"
    by simp
  with p(1) show ?thesis by blast
qed

end
