(* ===== verification/Sending.thy ===== *)
theory Sending imports Page begin

text \<open>
  \<open>send\<close> of every transport as a whole: the choice of a connection, the lock of its writer or the
  datagram, and the error that comes back (\<open>Transport::send\<close> of \<open>src/src/transport/http/common.rs\<close>,
  \<open>src/src/transport/http/client\<close>, \<open>src/src/transport/http/server\<close> and \<open>src/src/transport/udp/mod.rs\<close>), and the
  controller's loop on top of them.

  Here one task sends with no other between its taking of a handle and of its lock; the
  interleavings are those of \<open>PacketWriter\<close>, and each \<open>send\<close> is shown to be some steps of \<open>transport_step\<close>.
\<close>

section \<open>Operations\<close>

text \<open>What writing to a socket and sending of a datagram give, and the time of day.\<close>

record send_io =
  io_write :: "(string \<times> nat) option"
  io_datagram :: "string + nat"
  io_secs :: nat

definition writer_send ::
  "bytes \<Rightarrow> (string \<times> nat) option \<Rightarrow> packet_writer \<Rightarrow> (string, unit) outcome \<times> packet_writer" where
  "writer_send packet io w =
     (case writer_current w of
        (Ok h, w') \<Rightarrow> send_locked h packet io w'
      | (Err e, w') \<Rightarrow> (Err e, w')
      | (Panic, w') \<Rightarrow> (Panic, w')
      | (Pending, w') \<Rightarrow> (Pending, w'))"

text \<open>The statistics of a client's connection are those of its writer.\<close>

definition cl_send ::
  "bytes \<Rightarrow> (string \<times> nat) option \<Rightarrow> client_connection \<Rightarrow> (string, unit) outcome \<times> client_connection" where
  "cl_send packet io c =
     (case writer_send packet io (cl_writer c) of (r, w) \<Rightarrow> (r, c\<lparr>cl_writer := w, cl_stat := pw_stat w\<rparr>))"

definition hl_send ::
  "bytes \<Rightarrow> (string \<times> nat) option \<Rightarrow> hl_connection \<Rightarrow> (string, unit) outcome \<times> hl_connection" where
  "hl_send packet io c = (case writer_send packet io (hl_writer c) of (r, w) \<Rightarrow> (r, c\<lparr>hl_writer := w\<rparr>))"

definition ht_send ::
  "bytes \<Rightarrow> (string \<times> nat) option \<Rightarrow> http_client \<Rightarrow> (string, unit) outcome \<times> http_client" where
  "ht_send packet io h =
     (case ht_send_via packet h of
        Ok i \<Rightarrow>
          (case cl_send packet io (ht_clients h ! i) of
             (r, c) \<Rightarrow> (map_err (ht_send_error h i) r, h\<lparr>ht_clients := (ht_clients h)[i := c]\<rparr>))
      | Err e \<Rightarrow> (Err e, h)
      | Panic \<Rightarrow> (Panic, h)
      | Pending \<Rightarrow> (Pending, h))"

text \<open>What the statistics of the name count, which the server keeps.\<close>

definition writer_traffic :: "bytes \<Rightarrow> (string \<times> nat) option \<Rightarrow> packet_writer \<Rightarrow> traffic option" where
  "writer_traffic packet io w =
     (case pw_current w of
        None \<Rightarrow> Some UnsentPacket
      | Some h \<Rightarrow>
          if \<not> has_sender (pw_handles w ! h) then None
          else if io = None then Some (SentPacket packet) else Some UnsentPacket)"

definition hs_send ::
  "bytes \<Rightarrow> (string \<times> nat) option \<Rightarrow> http_server \<Rightarrow> (string, unit) outcome \<times> http_server" where
  "hs_send packet io hs =
     (case hs_send_via packet hs of
        Ok i \<Rightarrow>
          (let c = hs_heap hs ! i;
               (r, c') = hl_send packet io c;
               hs1 = hs\<lparr>hs_heap := (hs_heap hs)[i := c']\<rparr>
           in (map_err (\<lambda>e. hl_name c @ '': '' @ e) r,
               case writer_traffic packet io (hl_writer c) of
                 Some e \<Rightarrow> count_for (hl_name c) e hs1
               | None \<Rightarrow> hs1))
      | Err e \<Rightarrow> (Err e, hs)
      | Panic \<Rightarrow> (Panic, hs)
      | Pending \<Rightarrow> (Pending, hs))"

text \<open>Encryption gives a datagram or panics.\<close>

definition udp_send ::
  "'c crypto \<Rightarrow> instant \<Rightarrow> send_io \<Rightarrow> bytes \<Rightarrow> 'c udp_transport \<Rightarrow> (string, unit) outcome \<times> 'c udp_transport" where
  "udp_send K now io packet u =
     (case send_begin K now (io_secs io) packet u of
        (Ok (marked, datagram), u') \<Rightarrow> send_end now marked datagram (io_datagram io) u'
      | (r, u') \<Rightarrow> (Panic, u'))"

fun any_send ::
  "'c crypto \<Rightarrow> instant \<Rightarrow> send_io \<Rightarrow> 'c any_transport \<Rightarrow> bytes \<Rightarrow> (string, unit) outcome \<times> 'c any_transport" where
  "any_send K now io (ClientTransport h) packet = map_prod id ClientTransport (ht_send packet (io_write io) h)"
| "any_send K now io (ServerTransport hs) packet = map_prod id ServerTransport (hs_send packet (io_write io) hs)"
| "any_send K now io (DatagramTransport u) packet = map_prod id DatagramTransport (udp_send K now io packet u)"

fun any_labels :: "'c any_transport \<Rightarrow> labels" where
  "any_labels (ClientTransport h) = ht_labels h"
| "any_labels (ServerTransport hs) = hs_labels hs"
| "any_labels (DatagramTransport u) = udp_labels u"

text \<open>The controller's argument: a send that panics ends the process, and none of the model does
  (\<open>packet_leaves_once\<close>).\<close>

fun answer :: "(string, unit) outcome \<Rightarrow> string + unit" where
  "answer (Ok u) = Inr u"
| "answer (Err e) = Inl e"
| "answer r = Inl []"

definition controller_send ::
  "'c crypto \<Rightarrow> instant \<Rightarrow> send_io \<Rightarrow> 'c any_transport \<Rightarrow> bytes \<Rightarrow> (string + unit) \<times> 'c any_transport" where
  "controller_send K now io t packet = map_prod answer id (any_send K now io t packet)"

section \<open>What is on the wires\<close>

definition writer_streams :: "packet_writer \<Rightarrow> bytes list" where
  "writer_streams w = map (\<lambda>c. written (wc_socket c)) (pw_handles w)"

fun streams :: "'c any_transport \<Rightarrow> bytes list list" where
  "streams (ClientTransport h) = map (\<lambda>c. writer_streams (cl_writer c)) (ht_clients h)"
| "streams (ServerTransport hs) = map (\<lambda>c. writer_streams (hl_writer c)) (hs_heap hs)"
| "streams (DatagramTransport u) = []"

fun currents :: "'c any_transport \<Rightarrow> nat option list" where
  "currents (ClientTransport h) = map (\<lambda>c. pw_current (cl_writer c)) (ht_clients h)"
| "currents (ServerTransport hs) = map (\<lambda>c. pw_current (hl_writer c)) (hs_heap hs)"
| "currents (DatagramTransport u) = []"

definition writer_handles_ok :: "packet_writer \<Rightarrow> bool" where
  "writer_handles_ok w \<longleftrightarrow> (\<forall>h. pw_current w = Some h \<longrightarrow> h < length (pw_handles w))"

fun wires_ok :: "'c any_transport \<Rightarrow> bool" where
  "wires_ok (ClientTransport h) \<longleftrightarrow> (\<forall>c \<in> set (ht_clients h). writer_handles_ok (cl_writer c))"
| "wires_ok (ServerTransport hs) \<longleftrightarrow> (\<forall>c \<in> set (hs_heap hs). writer_handles_ok (hl_writer c)) \<and>
     length (pool_values (hs_active hs)) < 2 ^ 64"
| "wires_ok (DatagramTransport u) \<longleftrightarrow> True"

text \<open>One wire has grown, the current one of a connection, by the packet if that is sent whole, else by a
  piece of it.\<close>

definition extended :: "bytes \<Rightarrow> bool \<Rightarrow> nat option list \<Rightarrow> bytes list list \<Rightarrow> bytes list list \<Rightarrow> bool" where
  "extended packet whole cs ws ws' \<longleftrightarrow>
     (\<exists>k h n. k < length ws \<and> cs ! k = Some h \<and> h < length (ws ! k) \<and>
        ws' = ws[k := (ws ! k)[h := ws ! k ! h @ take n packet]] \<and> (whole \<longrightarrow> length packet \<le> n))"

text \<open>A datagram carries an IP packet if whatever end is linked to the sender delivers exactly this packet
  when it receives the datagram, provided that the packet fits one and the clocks agree.\<close>

definition datagram_carries :: "'c crypto \<Rightarrow> nat \<Rightarrow> bytes \<Rightarrow> 'c udp_transport \<Rightarrow> bytes \<Rightarrow> bool" where
  "datagram_carries K secs packet u datagram \<longleftrightarrow>
     (\<forall>peer now' secs'. link_ok K (udp_securer u) (udp_securer peer) \<and> clocks_ok secs secs' \<and> 2 \<le> length packet \<and>
        drop_bit 4 (packet ! 0) \<in> {4, 6} \<and> length packet + datagram_overhead K (udp_securer u) \<le> max_message_size \<longrightarrow>
        fst (receive_message K now' secs' (Inr (udp_peer_address peer, datagram)) peer) = Ok (Deliver packet))"

text \<open>The packet is on one wire of one connection, whole, or a piece of it when an error is reported; or
  the socket has taken one datagram more, for the peer, and it carries the packet; none with an error.\<close>

fun carried ::
  "'c crypto \<Rightarrow> instant \<Rightarrow> send_io \<Rightarrow> bytes \<Rightarrow> (string, unit) outcome \<Rightarrow> 'c any_transport \<Rightarrow> 'c any_transport \<Rightarrow> bool" where
  "carried K now io packet r (DatagramTransport u) t' \<longleftrightarrow>
     (\<exists>u' datagram. t' = DatagramTransport u' \<and> datagram_carries K (io_secs io) packet u datagram \<and>
        udp_wire u' = udp_wire u @ (if r = Ok () then [(udp_peer_address u, datagram)] else [])) \<and>
     (r = Ok () \<longleftrightarrow> (\<exists>n. io_datagram io = Inr n))"
| "carried K now io packet r t t' \<longleftrightarrow> extended packet (r = Ok ()) (currents t) (streams t) (streams t')"

lemma writer_send_current:
  assumes "pw_current w = Some h" "writer_handles_ok w" "writer_send packet io w = (r, w')"
  shows "h < length (pw_handles w)" "send_locked h packet io w = (r, w')"
  using assms by (auto simp: writer_send_def writer_current_def writer_handles_ok_def)

lemma send_locked_streams:
  assumes "send_locked h packet io w = (r, w')" "h < length (pw_handles w)"
  shows "\<exists>n. writer_streams w' = (writer_streams w)[h := writer_streams w ! h @ take n packet] \<and>
      (r = Ok () \<longrightarrow> length packet \<le> n)" "r = Ok () \<or> (\<exists>e. r = Err e)"
    "pw_current w' = pw_current w" "length (pw_handles w') = length (pw_handles w)"
proof -
  let ?c = "pw_handles w ! h"
  obtain r' c' where s: "connection_send packet io ?c = (r', c')" by fastforce
  note sent = send_locked_handles [OF assms(1), unfolded s, simplified]
  obtain n where n: "written (wc_socket c') = written (wc_socket ?c) @ take n packet" "r = Ok () \<longrightarrow> length packet \<le> n"
    using s sent(2)
    by (intro that [of "if has_sender ?c then (case io of None \<Rightarrow> length packet | Some (e, m) \<Rightarrow> m) else 0"]; cases io)
      (auto simp: connection_send_def split: if_splits)
  then show "\<exists>n. writer_streams w' = (writer_streams w)[h := writer_streams w ! h @ take n packet] \<and>
      (r = Ok () \<longrightarrow> length packet \<le> n)"
    by (intro exI [of _ n]) (use n assms(2) in \<open>simp add: writer_streams_def sent(1) map_update\<close>)
  show "r = Ok () \<or> (\<exists>e. r = Err e)"
    using s sent(2) by (cases io) (auto simp: connection_send_def split: if_splits)
  show "pw_current w' = pw_current w" "length (pw_handles w') = length (pw_handles w)" by (simp_all add: sent)
qed

text \<open>What sending does to the writer of a connection that has a current handle, and to the wires of which
  it is one.\<close>

lemma writer_sent:
  assumes "pw_current w = Some j" "writer_handles_ok w" "writer_send packet io w = (r, w')"
  shows "r = Ok () \<or> (\<exists>e. r = Err e)" "writer_handles_ok w'"
    "\<exists>acc'. writer_step (w, \<lambda>_. []) (w', acc')" "stat_labels (pw_stat w') = stat_labels (pw_stat w)"
    "k < length ws \<Longrightarrow> ws ! k = writer_streams w \<Longrightarrow> cs ! k = pw_current w \<Longrightarrow>
      extended packet (r = Ok ()) cs ws (ws[k := writer_streams w'])"
proof -
  note sent = writer_send_current [OF assms]
  note st = send_locked_streams [OF sent(2,1)]
  show "r = Ok () \<or> (\<exists>e. r = Err e)" by (rule st(2))
  show "writer_handles_ok w'" using assms(2) st(3,4) by (simp add: writer_handles_ok_def)
  have step: "writer_step (w, \<lambda>_. []) (w', if is_ok r then (\<lambda>_. [])(j := [] @ [packet]) else (\<lambda>_. []))"
    using writer_step.send [OF sent(1,2), of "\<lambda>_. []"] .
  then show "\<exists>acc'. writer_step (w, \<lambda>_. []) (w', acc')" by blast
  from writer_step_labels [OF step] show "stat_labels (pw_stat w') = stat_labels (pw_stat w)" .
  assume ws: "k < length ws" "ws ! k = writer_streams w" "cs ! k = pw_current w"
  obtain n where n: "writer_streams w' = (writer_streams w)[j := writer_streams w ! j @ take n packet]"
    "r = Ok () \<longrightarrow> length packet \<le> n" using st(1) by blast
  show "extended packet (r = Ok ()) cs ws (ws[k := writer_streams w'])"
    unfolding extended_def
    by (rule exI [of _ k], rule exI [of _ j], rule exI [of _ n])
      (use ws n sent(1) assms(1) in \<open>simp add: writer_streams_def\<close>)
qed

text \<open>An error that is given another text stays an error.\<close>

lemma map_err_Ok [simp]: "map_err f r = Ok x \<longleftrightarrow> r = Ok x"
  by (cases r) simp_all

text \<open>A client's connection and a server's one.\<close>

lemma client_carried:
  fixes t t' :: "'c any_transport"
  assumes "http_client_ok h" "\<forall>c \<in> set (ht_clients h). writer_handles_ok (cl_writer c)" "ht_ready_for_sending h"
    "packet \<noteq> []" "ht_send packet io h = (r, h')"
    "t = ClientTransport h" "t' = ClientTransport h'"
  shows "(r = Ok () \<or> (\<exists>e. r = Err e)) \<and> transport_step t t' \<and>
    http_client_ok h' \<and> (\<forall>c \<in> set (ht_clients h'). writer_handles_ok (cl_writer c)) \<and>
    extended packet (r = Ok ()) (currents t) (streams t) (streams t') \<and>
    ht_labels h' = ht_labels h"
proof -
  obtain i where i: "i < length (ht_clients h)" "ht_send_via packet h = Ok i" "cl_ready_for_sending (ht_clients h ! i)"
    using ht_select [OF assms(1,4)] assms(3) by auto
  define c where "c = ht_clients h ! i"
  obtain j where j: "pw_current (cl_writer c) = Some j" using i(3) by (auto simp: cl_ready_for_sending_def writer_connected_def c_def)
  obtain r' w' where s: "writer_send packet io (cl_writer c) = (r', w')" by fastforce
  have ok: "writer_handles_ok (cl_writer c)" using assms(2) i(1) by (simp add: c_def)
  note sent = writer_sent [OF j ok s]
  define c' where "c' = c\<lparr>cl_writer := w', cl_stat := pw_stat w'\<rparr>"
  have r: "r = map_err (ht_send_error h i) r'" "h' = h\<lparr>ht_clients := (ht_clients h)[i := c']\<rparr>"
    using assms(5) s by (auto simp: ht_send_def i(2) cl_send_def c_def c'_def)
  obtain acc' where "writer_step (cl_writer c, \<lambda>_. []) (w', acc')" using sent(3) by blast
  from client_writes [OF i(1) c_def this] have step: "transport_step t t'"
    by (simp add: assms(6,7) r(2) c'_def)
  note sub = set_update_subset_insert [of "ht_clients h" i c']
  have names: "map cl_name (ht_clients h') = map cl_name (ht_clients h)"
    unfolding r(2) using i(1) by (simp add: map_update_same c'_def c_def)
  obtain flags where "\<forall>c \<in> set (ht_clients h). cc_flags (cl_config c) = flags"
    using assms(1) by (auto simp: http_client_ok_def)
  then have "\<forall>c \<in> set (ht_clients h'). cc_flags (cl_config c) = flags"
    using i(1) sub by (auto simp: r(2) c'_def c_def)
  then have client: "http_client_ok h'"
    using assms(1) clients_filed_names [OF _ names] names by (auto simp: http_client_ok_def r(2))
  have handles: "\<forall>c \<in> set (ht_clients h'). writer_handles_ok (cl_writer c)"
    using assms(2) sent(2) sub by (auto simp: r(2) c'_def)
  have "extended packet (r' = Ok ()) (currents t) (streams t) ((streams t)[i := writer_streams w'])"
    by (rule sent(5)) (use i(1) in \<open>simp_all add: assms(6) c_def\<close>)
  then have "extended packet (r = Ok ()) (currents t) (streams t) (streams t')"
    by (simp add: assms(6,7) r map_update c'_def)
  moreover have "r = Ok () \<or> (\<exists>e. r = Err e)" using sent(1) by (auto simp: r(1))
  ultimately show ?thesis using step client handles r(2) by simp
qed

text \<open>The steps of a server whose connection has sent: the connection changes, then its name's statistics.\<close>

lemma server_sends:
  assumes "i < length (hs_heap hs)" "c' = (hs_heap hs ! i)\<lparr>hl_writer := w'\<rparr>"
    "stat_labels (pw_stat w') = stat_labels (pw_stat (hl_writer (hs_heap hs ! i)))"
    "hs1 = hs\<lparr>hs_heap := (hs_heap hs)[i := c']\<rparr>"
    "hs' = (case e of Some e \<Rightarrow> count_for (hl_name (hs_heap hs ! i)) e hs1 | None \<Rightarrow> hs1)"
  shows "transport_step\<^sup>*\<^sup>* (ServerTransport hs) (ServerTransport hs')" "server_ok hs \<Longrightarrow> server_ok hs'"
    "hs_heap hs' = (hs_heap hs)[i := c']" "hs_active hs' = hs_active hs" "hs_labels hs' = hs_labels hs"
proof -
  have name: "hl_name c' = hl_name (hs_heap hs ! i)" by (simp add: assms(2))
  have "server_step (hs, []) (hs1, [])"
    unfolding assms(4) by (intro worked assms(1) name) (simp add: assms(2,3))
  then have first: "transport_step (ServerTransport hs) (ServerTransport hs1)" by (rule server_works)
  have "transport_step\<^sup>*\<^sup>* (ServerTransport hs1) (ServerTransport hs')"
  proof (cases e)
    case (Some x)
    have at: "i < length (hs_heap hs1)" "hl_name (hs_heap hs ! i) = hl_name (hs_heap hs1 ! i)"
      using assms(1) name by (simp_all add: assms(4))
    have "server_step (hs1, []) (hs', [(hl_name (hs_heap hs ! i), x)])"
      using counted [OF at, where log = "[]" and e = x] by (simp add: assms(5) Some)
    then show ?thesis by (intro r_into_rtranclp server_works)
  qed (simp add: assms(5))
  with first show "transport_step\<^sup>*\<^sup>* (ServerTransport hs) (ServerTransport hs')"
    by (rule converse_rtranclp_into_rtranclp)
  show "server_ok hs \<Longrightarrow> server_ok hs'"
    using server_ok_worked [OF _ assms(1) name]
    by (auto simp: assms(5) assms(4) split: option.split intro: server_ok_count_for)
  show "hs_heap hs' = (hs_heap hs)[i := c']" "hs_active hs' = hs_active hs" "hs_labels hs' = hs_labels hs"
    by (auto simp: assms(5) assms(4) count_for_simps split: option.split) (simp add: count_for_def)
qed

lemma server_carried:
  fixes t t' :: "'c any_transport"
  assumes "server_ok hs" "wires_ok t" "hs_ready_for_sending hs" "packet \<noteq> []" "hs_send packet io hs = (r, hs')"
    "t = ServerTransport hs" "t' = ServerTransport hs'"
  shows "(r = Ok () \<or> (\<exists>e. r = Err e)) \<and> transport_step\<^sup>*\<^sup>* t t' \<and>
    server_ok hs' \<and> wires_ok t' \<and>
    extended packet (r = Ok ()) (currents t) (streams t) (streams t') \<and>
    hs_labels hs' = hs_labels hs"
proof -
  have small: "length (pool_values (hs_active hs)) < 2 ^ 64" using assms(2) by (simp add: assms(6))
  obtain i where i: "i \<in> set (pool_values (hs_active hs))" "hs_send_via packet hs = Ok i" "hl_connected (hs_heap hs ! i)"
    using server_send [OF small assms(4)] assms(3) by auto
  let ?c = "hs_heap hs ! i"
  have len: "i < length (hs_heap hs)" using assms(1) i(1) by (auto simp: server_ok_def)
  obtain j where j: "pw_current (hl_writer ?c) = Some j" using i(3) by (auto simp: hl_connected_def writer_connected_def)
  obtain r' w' where s: "writer_send packet io (hl_writer ?c) = (r', w')" by fastforce
  have ok: "writer_handles_ok (hl_writer ?c)" using assms(2) len by (simp add: assms(6))
  note sent = writer_sent [OF j ok s]
  define c' where "c' = ?c\<lparr>hl_writer := w'\<rparr>"
  have "hs_send packet io hs = (map_err (\<lambda>e. hl_name ?c @ '': '' @ e) r',
      case writer_traffic packet io (hl_writer ?c) of
        Some e \<Rightarrow> count_for (hl_name ?c) e (hs\<lparr>hs_heap := (hs_heap hs)[i := c']\<rparr>)
      | None \<Rightarrow> hs\<lparr>hs_heap := (hs_heap hs)[i := c']\<rparr>)"
    unfolding hs_send_def i(2) c'_def by (simp add: hl_send_def s Let_def)
  then have r: "r = map_err (\<lambda>e. hl_name ?c @ '': '' @ e) r'"
    "hs' = (case writer_traffic packet io (hl_writer ?c) of
        Some e \<Rightarrow> count_for (hl_name ?c) e (hs\<lparr>hs_heap := (hs_heap hs)[i := c']\<rparr>)
      | None \<Rightarrow> hs\<lparr>hs_heap := (hs_heap hs)[i := c']\<rparr>)"
    using assms(5) by simp_all
  note steps = server_sends [OF len c'_def sent(4) refl r(2)]
  have "wires_ok t'"
    using assms(2) sent(2) set_update_subset_insert [of "hs_heap hs" i c'] by (auto simp: assms(6,7) steps(3,4) c'_def)
  moreover have "extended packet (r' = Ok ()) (currents t) (streams t) ((streams t)[i := writer_streams w'])"
    by (rule sent(5)) (use len in \<open>simp_all add: assms(6)\<close>)
  then have "extended packet (r = Ok ()) (currents t) (streams t) (streams t')"
    by (simp add: assms(6,7) r(1) steps(3) map_update c'_def)
  moreover have "r = Ok () \<or> (\<exists>e. r = Err e)" using sent(1) by (auto simp: r(1))
  ultimately show ?thesis using steps(1,5) steps(2) [OF assms(1)] assms(6,7) by blast
qed

lemma datagram_carried:
  fixes u u' :: "'c udp_transport"
  assumes "now_timestamp (io_secs io) \<noteq> None" "packet \<noteq> []" "udp_send K now io packet u = (r, u')"
  shows "(r = Ok () \<or> (\<exists>e. r = Err e)) \<and> transport_step\<^sup>*\<^sup>* (DatagramTransport u) (DatagramTransport u') \<and>
    carried K now io packet r (DatagramTransport u) (DatagramTransport u') \<and> udp_labels u' = udp_labels u"
proof -
  obtain marked where m: "mark_packet (ingress_works (udp_state u) now) packet = Some marked"
    using assms(2) by (cases packet; cases "ingress_works (udp_state u) now"; simp add: mark_packet_def)
  obtain datagram sec where d: "seal_datagram K (io_secs io) marked (udp_securer u) = (Ok datagram, sec)"
    using assms(1)
    by (cases "udp_securer u"; cases "now_timestamp (io_secs io)"; simp add: seal_datagram_def encrypt_def Let_def)
  let ?u = "u\<lparr>udp_securer := sec\<rparr>"
  have b: "send_begin K now (io_secs io) packet u = (Ok (marked, datagram), ?u)" by (simp add: send_begin_def m d)
  have carries: "datagram_carries K (io_secs io) packet u datagram"
    unfolding datagram_carries_def
  proof (intro allI impI)
    fix peer :: "'c udp_transport" and now' secs'
    assume a: "link_ok K (udp_securer u) (udp_securer peer) \<and> clocks_ok (io_secs io) secs' \<and> 2 \<le> length packet \<and>
        drop_bit 4 (packet ! 0) \<in> {4, 6} \<and> length packet + datagram_overhead K (udp_securer u) \<le> max_message_size"
    then have "marker_free packet" using assms(2) by (intro marker_free_ip) auto
    from mark_then_open [of K u peer, OF _ this, of "io_secs io" secs' "udp_peer_address peer" now now'] a b
    show "fst (receive_message K now' secs' (Inr (udp_peer_address peer, datagram)) peer) = Ok (Deliver packet)"
      by (auto simp: Let_def)
  qed
  have e: "send_end now marked datagram (io_datagram io) ?u = (r, u')" using assms(3) by (simp add: udp_send_def b)
  have "transport_step\<^sup>*\<^sup>* (DatagramTransport u) (DatagramTransport u')"
    using packet_leaves [OF b] packet_sent [OF e] by (meson r_into_rtranclp rtranclp.rtrancl_into_rtrancl)
  moreover have "(r = Ok () \<or> (\<exists>e. r = Err e)) \<and> udp_labels u' = udp_labels u \<and>
      udp_wire u' = udp_wire u @ (if r = Ok () then [(udp_peer_address u, datagram)] else []) \<and>
      (r = Ok () \<longleftrightarrow> (\<exists>n. io_datagram io = Inr n))"
    using e by (cases "io_datagram io") (auto simp: send_end_def send_to_def on_egress_packet_def Let_def)
  ultimately show ?thesis using carries by auto
qed

text \<open>Any transport that is ready.\<close>

lemma any_carried:
  assumes "any_ok t" "wires_ok t" "any_ready now t" "packet \<noteq> []" "now_timestamp (io_secs io) \<noteq> None"
    "any_send K now io t packet = (r, t')"
  shows "(r = Ok () \<or> (\<exists>e. r = Err e)) \<and> transport_step\<^sup>*\<^sup>* t t' \<and> any_ok t' \<and> wires_ok t' \<and>
    carried K now io packet r t t' \<and> any_labels t' = any_labels t"
proof (cases t)
  case (ClientTransport h)
  obtain h' where h: "ht_send packet (io_write io) h = (r, h')" "t' = ClientTransport h'"
    using assms(6) by (cases "ht_send packet (io_write io) h") (simp add: ClientTransport)
  have "http_client_ok h" "\<forall>c \<in> set (ht_clients h). writer_handles_ok (cl_writer c)" "ht_ready_for_sending h"
    using assms(1-3) by (simp_all add: ClientTransport)
  from client_carried [OF this assms(4) h(1) ClientTransport h(2)] show ?thesis
    by (simp add: ClientTransport h(2) r_into_rtranclp del: streams.simps currents.simps)
next
  case (ServerTransport hs)
  obtain hs' where h: "hs_send packet (io_write io) hs = (r, hs')" "t' = ServerTransport hs'"
    using assms(6) by (cases "hs_send packet (io_write io) hs") (simp add: ServerTransport)
  have "server_ok hs" "hs_ready_for_sending hs" using assms(1,3) by (simp_all add: ServerTransport)
  from server_carried [OF this(1) assms(2) this(2) assms(4) h(1) ServerTransport h(2)] show ?thesis
    by (simp add: ServerTransport h(2) del: streams.simps currents.simps wires_ok.simps)
next
  case (DatagramTransport u)
  obtain u' where u: "udp_send K now io packet u = (r, u')" "t' = DatagramTransport u'"
    using assms(6) by (cases "udp_send K now io packet u") (simp add: DatagramTransport)
  from datagram_carried [OF assms(5,4) u(1)] show ?thesis
    by (simp add: DatagramTransport u(2) del: carried.simps)
qed

section \<open>Properties\<close>

text \<open>C10: one packet.  The controller over its real transports: a packet that is not empty goes to the
  first transport that is ready and is, whole, at the end of the current wire of exactly one connection
  of it, or in one datagram that the socket takes for the peer, from which every end linked to this one
  delivers exactly the packet (an IP packet that fits a datagram, with clocks that agree); or an error is counted as a drop and at most a piece of it
  is on that wire; or none is ready, nothing is sent, and it is counted as a drop of the blackhole.  No
  other transport, connection or wire changes; nothing panics; and the transports make steps of
  their components and keep their invariants, so that this holds for the next packet too.\<close>
theorem packet_leaves_once:
  assumes "\<forall>t \<in> set (transports c). any_ok t \<and> wires_ok t" "packet \<noteq> []" "now_timestamp (io_secs io) \<noteq> None"
    "c' = handle_packet (any_ready now) any_labels (controller_send K now io) packet c"
  shows "(\<forall>t \<in> set (transports c'). any_ok t \<and> wires_ok t) \<and>
    (case select_transport (any_ready now) (transports c) of
       None \<Rightarrow> transports c' = transports c \<and>
         counter_at (transport_drops c') blackhole_labels = counter_at (transport_drops c) blackhole_labels + 1
     | Some i \<Rightarrow> \<exists>r t'. any_send K now io (transports c ! i) packet = (r, t') \<and> (r = Ok () \<or> (\<exists>e. r = Err e)) \<and>
         transports c' = (transports c)[i := t'] \<and> transport_step\<^sup>*\<^sup>* (transports c ! i) t' \<and>
         carried K now io packet r (transports c ! i) t' \<and>
         (let l = any_labels (transports c ! i)
          in counter_at (transport_send_times c') l = counter_at (transport_send_times c) l + 1 \<and>
             counter_at (transport_drops c') l = counter_at (transport_drops c) l + (if r = Ok () then 0 else 1)))"
proof (cases "select_transport (any_ready now) (transports c)")
  case None
  then show ?thesis using assms(1) by (simp add: assms(4) handle_packet_def counter_at_family)
next
  case (Some i)
  then have i: "i < length (transports c)" "any_ready now (transports c ! i)" by (simp_all add: select_transport_iff)
  obtain r t' where s: "any_send K now io (transports c ! i) packet = (r, t')" by fastforce
  have "any_ok (transports c ! i)" "wires_ok (transports c ! i)" using assms(1) i(1) by simp_all
  note carried = any_carried [OF this i(2) assms(2,3) s]
  have "transports c' = (transports c)[i := t']"
    by (simp add: assms(4) handle_packet_def Some controller_send_def s Let_def)
  moreover have "\<forall>t \<in> set ((transports c)[i := t']). any_ok t \<and> wires_ok t"
    using assms(1) carried set_update_subset_insert [of "transports c" i t'] by auto
  moreover have "counter_at (transport_send_times c') (any_labels (transports c ! i)) =
      counter_at (transport_send_times c) (any_labels (transports c ! i)) + 1"
    by (simp add: assms(4) handle_packet_def Some controller_send_def s Let_def counter_at_family)
  moreover have "counter_at (transport_drops c') (any_labels (transports c ! i)) =
      counter_at (transport_drops c) (any_labels (transports c ! i)) + (if r = Ok () then 0 else 1)"
    using carried by (auto simp: assms(4) handle_packet_def Some controller_send_def s Let_def counter_at_family)
  ultimately show ?thesis using carried by (simp add: Some s)
qed

text \<open>A UDP transport that is not connected, and a server with a client.\<close>

definition demo_io :: send_io where
  "demo_io = \<lparr>io_write = None, io_datagram = Inr 0, io_secs = 7\<rparr>"

definition demo_tun_controller :: "u64 any_transport controller" where
  "demo_tun_controller = \<lparr>transports = demo_transports, transport_drops = Map.empty, transport_send_times = Map.empty\<rparr>"

lemma packet_leaves_once_witness:
  "\<exists>r t'. any_send demo_crypto 7 demo_io (demo_transports ! 1) [69] = (r, t') \<and>
     transports (handle_packet (any_ready 7) any_labels (controller_send demo_crypto 7 demo_io) [69] demo_tun_controller)
       = demo_transports[1 := t'] \<and> carried demo_crypto 7 demo_io [69] r (demo_transports ! 1) t'"
proof -
  have "\<not> udp_ready_for_sending 7 (demo_end 5)"
    by (simp add: udp_ready_for_sending_def udp_connected_def demo_end_def new_udp_transport_def
        state_connected_def new_state_def)
  then have pick: "select_transport (any_ready 7) (transports demo_tun_controller) = Some 1"
    by (simp add: demo_tun_controller_def demo_transports_def demo_http_server_ready)
  have "\<forall>c \<in> set (hs_heap demo_http_server). writer_handles_ok (hl_writer c)"
    by (simp add: demo_http_server_def admit_def new_http_server_def stat_entry_def Let_def add_def
      demo_hl_request_def new_hl_connection_def writer_replace_def writer_handles_ok_def)
  then have ok: "\<forall>t \<in> set (transports demo_tun_controller). any_ok t \<and> wires_ok t"
    by (simp add: demo_tun_controller_def demo_transports_def demo_http_server_ok)
  have time: "now_timestamp (io_secs demo_io) \<noteq> None" by (simp add: now_timestamp_def demo_io_def)
  show ?thesis
    using packet_leaves_once [OF ok _ time refl, where packet = "[69]" and now = 7 and K = demo_crypto] pick
    by (auto simp: demo_tun_controller_def)
qed

end
