(* ===== verification/UdpReceiver.thy ===== *)
theory UdpReceiver imports Host begin

text \<open>
  The task \<open>receiver\<close> of the UDP transport (\<open>src/src/transport/udp/mod.rs\<close>) as a loop: what arrives at
  the socket, round by round, and what the tun device is given.

  The specification \<open>accepted\<close> opens a datagram with nothing but the key: no cached session of the
  peer, no state of the transport.  The loop computes it, so the cache is invisible.
\<close>

section \<open>The loop\<close>

text \<open>What one round meets: the answer of \<open>recv_from\<close>, both clocks, the time that writing to the tun
  device takes, and the answer to that.\<close>

record arrival =
  ar_received :: "string + socket_addr \<times> bytes"
  ar_now :: instant
  ar_secs :: nat
  ar_elapsed :: duration
  ar_written :: "string + nat"

definition receiver_round ::
  "'c crypto \<Rightarrow> bool \<Rightarrow> (bytes \<Rightarrow> nat option) \<Rightarrow> (bytes \<Rightarrow> (nat \<times> nat) option) \<Rightarrow> arrival \<Rightarrow> 'c udp_transport \<times> tunnel
    \<Rightarrow> (string, bytes option) outcome \<times> 'c udp_transport \<times> tunnel" where
  "receiver_round K enabled v4_header v6_header a st =
     (case receive_message K (ar_now a) (ar_secs a) (ar_received a) (fst st) of
        (Ok (Deliver packet), t) \<Rightarrow>
          if trace_packet enabled v4_header v6_header packet = Panic then (Panic, t, snd st)
          else (Ok (Some packet), t, snd (tunnel_send (ar_elapsed a) (ar_written a) (snd st)))
      | (Ok verdict, t) \<Rightarrow> (Ok None, t, snd st)
      | (Err e, t) \<Rightarrow> (Err e, t, snd st)
      | (Panic, t) \<Rightarrow> (Panic, t, snd st)
      | (Pending, t) \<Rightarrow> (Pending, t, snd st))"

text \<open>The packets given to the tun device, and the end of the loop: an error of the socket, or
  \<open>Pending\<close> when nothing more arrives.\<close>

fun receiver_loop ::
  "'c crypto \<Rightarrow> bool \<Rightarrow> (bytes \<Rightarrow> nat option) \<Rightarrow> (bytes \<Rightarrow> (nat \<times> nat) option) \<Rightarrow> arrival list \<Rightarrow> 'c udp_transport \<times> tunnel
    \<Rightarrow> bytes list \<times> (string, unit) outcome \<times> 'c udp_transport \<times> tunnel" where
  "receiver_loop K enabled v4_header v6_header [] st = ([], Pending, st)"
| "receiver_loop K enabled v4_header v6_header (a # as) st =
     (case receiver_round K enabled v4_header v6_header a st of
        (Ok (Some packet), st') \<Rightarrow>
          (case receiver_loop K enabled v4_header v6_header as st' of (packets, r, st'') \<Rightarrow> (packet # packets, r, st''))
      | (Ok None, st') \<Rightarrow> receiver_loop K enabled v4_header v6_header as st'
      | (Err e, st') \<Rightarrow> ([], Err e, st')
      | (Panic, st') \<Rightarrow> ([], Panic, st')
      | (Pending, st') \<Rightarrow> ([], Pending, st'))"

section \<open>The specification\<close>

definition opened :: "'c crypto \<Rightarrow> bytes option \<Rightarrow> nat \<Rightarrow> bytes \<Rightarrow> bytes option" where
  "opened K key secs d =
     (case key of
        None \<Rightarrow> Some d
      | Some k \<Rightarrow>
          if length d \<le> 16 + tag_len K then None
          else
            let header = decrypt_block K k (take 16 d);
                timestamp = (from_be_bytes (subslice 8 12 header) :: u32);
                age = int secs - uint timestamp
            in case decrypt_packet K (cipher_new K k (from_be_bytes (subslice 0 8 header))) (header_nonce header)
                      (drop 16 d) of
                 None \<Rightarrow> None
               | Some plain \<Rightarrow>
                   if - 10 \<le> age \<and> age \<le> 20 then Some (take (length d - 16 - tag_len K) plain) else None)"

text \<open>The marker and the packet of a datagram that is accepted.\<close>

definition accepted :: "'c crypto \<Rightarrow> bytes option \<Rightarrow> socket_addr \<Rightarrow> arrival \<Rightarrow> (bool \<times> bytes) option" where
  "accepted K key peer a =
     (case ar_received a of
        Inl e \<Rightarrow> None
      | Inr (from, d) \<Rightarrow>
          if key \<noteq> None \<and> from \<noteq> peer \<or> d = [] \<or> max_message_size < length d then None
          else Option.bind (opened K key (ar_secs a) d) split_marker)"

definition delivered :: "'c crypto \<Rightarrow> bytes option \<Rightarrow> socket_addr \<Rightarrow> arrival \<Rightarrow> bytes option" where
  "delivered K key peer a =
     (case accepted K key peer a of
        Some (works, packet) \<Rightarrow> if length packet = 1 then None else Some packet
      | None \<Rightarrow> None)"

text \<open>What the transport knows of its peer after an arrival.\<close>

definition heard_of ::
  "'c crypto \<Rightarrow> bytes option \<Rightarrow> socket_addr \<Rightarrow> arrival \<Rightarrow> ingress_packet option \<Rightarrow> ingress_packet option" where
  "heard_of K key peer a known =
     (case accepted K key peer a of
        Some (works, packet) \<Rightarrow> Some \<lparr>ingress_time = ar_now a, egress_works = works\<rparr>
      | None \<Rightarrow> known)"

definition socket_fails :: "arrival \<Rightarrow> bool" where
  "socket_fails a \<longleftrightarrow> (\<exists>e. ar_received a = Inl e)"

section \<open>One round\<close>

abbreviation key_of :: "'c udp_transport \<Rightarrow> bytes option" where
  "key_of t \<equiv> map_option sec_key (udp_securer t)"

lemma decrypt_opened:
  assumes "crypto_ok K" "securer_ok K s" "secs < 2 ^ 32"
  obtains r s' where "decrypt K secs d s = (r, s')"
    "case opened K (Some (sec_key s)) secs d of Some packet \<Rightarrow> r = Ok packet | None \<Rightarrow> \<exists>e. r = Err e"
    "securer_ok K s'" "sec_key s' = sec_key s"
proof -
  have now: "uint (word_of_nat secs :: u32) = int secs"
    using assms(3) by (simp add: uint_nat unsigned_of_nat take_bit_nat_eq_self)
  obtain r s' where dec: "decrypt K secs d s = (r, s')" by fastforce
  have "securer_ok K s'" "sec_key s' = sec_key s" using decrypt_ok [OF assms(2) dec] by simp_all
  moreover have "case opened K (Some (sec_key s)) secs d of Some packet \<Rightarrow> r = Ok packet | None \<Rightarrow> \<exists>e. r = Err e"
    using dec assms(3) now
    by (auto simp: decrypt_def opened_def authenticate_cipher [OF assms(2)] now_timestamp_def Let_def
        split: option.splits if_splits)
  ultimately show ?thesis using dec that by blast
qed

lemma opened_nonempty:
  assumes "crypto_ok K" "opened K (Some k) secs d = Some packet"
  shows "packet \<noteq> []"
proof -
  have "decrypt_packet K c n (drop 16 d) = Some plain \<Longrightarrow> length plain = length d - 16" for c n plain
    using assms(1) by (simp add: crypto_ok_def)
  with assms(2) show ?thesis by (fastforce simp: opened_def Let_def split: if_splits option.splits)
qed

lemma open_datagram_opened:
  assumes "securer_sound K (udp_securer t)" "secs < 2 ^ 32"
  obtains sec r where "open_datagram K secs d (udp_securer t) = (r, sec)"
    "case opened K (key_of t) secs d of Some packet \<Rightarrow> r = Ok packet | None \<Rightarrow> \<exists>e. r = Err e"
    "securer_sound K sec" "map_option sec_key sec = key_of t"
proof (cases "udp_securer t")
  case None
  then show ?thesis using that by (simp add: open_datagram_def opened_def securer_sound_def)
next
  case (Some s)
  then have "crypto_ok K" "securer_ok K s" using assms(1) by (simp_all add: securer_sound_def)
  then obtain r s' where "decrypt K secs d s = (r, s')" "securer_ok K s'" "sec_key s' = sec_key s"
    "case opened K (Some (sec_key s)) secs d of Some packet \<Rightarrow> r = Ok packet | None \<Rightarrow> \<exists>e. r = Err e"
    using decrypt_opened [OF _ _ assms(2)] by metis
  with Some \<open>crypto_ok K\<close> show ?thesis
    by (intro that [of r "Some s'"]) (simp_all add: open_datagram_def securer_sound_def)
qed

text \<open>What a round makes of the state: the accepted message is heard, the delivered packet counted and
  written.\<close>

definition after_arrival ::
  "'c crypto \<Rightarrow> arrival \<Rightarrow> 'c udp_transport \<times> tunnel \<Rightarrow> 'c udp_transport \<times> tunnel \<Rightarrow> bool" where
  "after_arrival K a st st' \<longleftrightarrow>
     securer_sound K (udp_securer (fst st')) \<and> key_of (fst st') = key_of (fst st) \<and>
     udp_peer_address (fst st') = udp_peer_address (fst st) \<and>
     last_ingress_packet (udp_state (fst st')) =
       heard_of K (key_of (fst st)) (udp_peer_address (fst st)) a (last_ingress_packet (udp_state (fst st))) \<and>
     udp_stat (fst st') = (case delivered K (key_of (fst st)) (udp_peer_address (fst st)) a of
       Some packet \<Rightarrow> on_packet_received packet (udp_stat (fst st)) | None \<Rightarrow> udp_stat (fst st)) \<and>
     tun_send_times (snd st') = tun_send_times (snd st) @
       (if delivered K (key_of (fst st)) (udp_peer_address (fst st)) a = None then [] else [ar_elapsed a])"

lemma receiver_round_accepts:
  assumes "securer_sound K (udp_securer (fst st))" "ar_secs a < 2 ^ 32" "\<not> socket_fails a"
  shows "\<exists>st'. receiver_round K enabled v4_header v6_header a st =
      (Ok (delivered K (key_of (fst st)) (udp_peer_address (fst st)) a), st') \<and> after_arrival K a st st'"
proof -
  obtain t tun where st: "st = (t, tun)" by (cases st)
  obtain src d where a: "ar_received a = Inr (src, d)"
    using assms(3) by (cases "ar_received a") (auto simp: socket_fails_def)
  show ?thesis
  proof (cases "key_of t \<noteq> None \<and> src \<noteq> udp_peer_address t \<or> d = [] \<or> max_message_size < length d")
    case True
    then have "\<exists>v. receive_message K (ar_now a) (ar_secs a) (Inr (src, d)) t = (Ok v, t) \<and> (\<forall>p. v \<noteq> Deliver p)"
      by (auto simp: receive_message_def Let_def)
    then have "receiver_round K enabled v4_header v6_header a st = (Ok None, st)"
      by (auto simp: receiver_round_def st a split: udp_verdict.splits)
    with True assms(1) show ?thesis
      by (auto simp: after_arrival_def heard_of_def delivered_def accepted_def a st)
  next
    case False
    then have d: "take (max_message_size + 1) d = d" "d \<noteq> []" "length d \<le> max_message_size"
      "udp_securer t = None \<or> src = udp_peer_address t" by auto
    obtain sec r where r: "open_datagram K (ar_secs a) d (udp_securer t) = (r, sec)"
      "case opened K (key_of t) (ar_secs a) d of Some packet \<Rightarrow> r = Ok packet | None \<Rightarrow> \<exists>e. r = Err e"
      "securer_sound K sec" "map_option sec_key sec = key_of t"
      by (rule open_datagram_opened [of K t "ar_secs a" d]) (use assms(1,2) st in simp_all)
    show ?thesis
    proof (cases "opened K (key_of t) (ar_secs a) d")
      case None
      with r(2) obtain e where "r = Err e" by auto
      with r(1) d have "receive_message K (ar_now a) (ar_secs a) (Inr (src, d)) t =
          (Ok (DroppedPacket e), t\<lparr>udp_securer := sec\<rparr>)"
        by (auto simp: receive_message_def Let_def)
      with None r(3,4) False show ?thesis
        by (auto simp: receiver_round_def st a after_arrival_def heard_of_def delivered_def accepted_def)
    next
      case (Some m)
      with r(2) have "r = Ok m" by simp
      have "m \<noteq> []"
      proof (cases "udp_securer t")
        case (Some s)
        with assms(1) st have "crypto_ok K" by (simp add: securer_sound_def)
        with Some \<open>opened K (key_of t) (ar_secs a) d = Some m\<close> show ?thesis by (auto dest: opened_nonempty)
      qed (use Some d(2) in \<open>simp add: opened_def\<close>)
      then obtain works packet where m: "split_marker m = Some (works, packet)" by (cases m) auto
      have "trace_packet enabled v4_header v6_header packet \<noteq> Panic"
        using split_marker_nonempty [OF m] by (simp add: trace_packet_Panic)
      moreover note receive_opened [OF d(4,2,3) _ m, of K "ar_secs a" sec "ar_now a"] r(1) \<open>r = Ok m\<close>
      ultimately show ?thesis using Some m r(3,4) False
        by (auto simp: receiver_round_def st a after_arrival_def heard_of_def delivered_def accepted_def tunnel_send_def)
    qed
  qed
qed

lemma receiver_round_fails:
  "ar_received a = Inl e \<Longrightarrow> receiver_round K enabled v4_header v6_header a st = (Err e, st)"
  by (cases st) (simp add: receiver_round_def receive_message_def)

section \<open>Datagrams of the peer\<close>

text \<open>A datagram that the peer's \<open>send\<close> has made of the packet \<open>p\<close>, in whatever state the peer \<open>x\<close> was,
  and that arrives within the time window.\<close>

definition peer_datagram :: "'c crypto \<Rightarrow> 'c udp_transport \<Rightarrow> bytes \<Rightarrow> arrival \<Rightarrow> bool" where
  "peer_datagram K t p a \<longleftrightarrow>
     (\<exists>x now secs m d x'. send_begin K now secs p x = (Ok (m, d), x') \<and> link_ok K (udp_securer x) (udp_securer t) \<and>
        clocks_ok secs (ar_secs a) \<and> ar_received a = Inr (udp_peer_address t, d) \<and>
        length p + datagram_overhead K (udp_securer x) \<le> max_message_size)"

lemma seal_opened:
  assumes "link_ok K sx sec" "seal_datagram K secs m sx = (Ok d, sx')" "m \<noteq> []" "clocks_ok secs secs'"
  shows "opened K (map_option sec_key sec) secs' d = Some m \<and> length d = length m + datagram_overhead K sx"
proof (cases sec)
  case None
  with assms(1,2) show ?thesis
    by (auto simp: link_ok_def seal_datagram_def opened_def datagram_overhead_def split: option.splits)
next
  case (Some r)
  with assms(1) obtain s where sx: "sx = Some s" and l: "linked K s r"
    by (auto simp: link_ok_def split: option.splits)
  then have K: "crypto_ok K" "securer_ok K r" by (simp_all add: linked_def)
  obtain s' where enc: "encrypt K secs m s = (Ok d, s')"
    using assms(2) sx by (auto simp: seal_datagram_def split: prod.splits)
  have secs': "secs' < 2 ^ 32" using assms(4) by (simp add: clocks_ok_def)
  from decrypt_encrypt [OF l enc assms(3) this] assms(4) have "fst (decrypt K secs' d r) = Ok m"
    by (auto simp: clocks_ok_def)
  moreover obtain o' r' where "decrypt K secs' d r = (o', r')"
    "case opened K (Some (sec_key r)) secs' d of Some packet \<Rightarrow> o' = Ok packet | None \<Rightarrow> \<exists>e. o' = Err e"
    by (rule decrypt_opened [OF K secs'])
  ultimately have "opened K (Some (sec_key r)) secs' d = Some m" by (auto split: option.splits)
  with encrypt_length [OF K(1) enc] Some sx show ?thesis by (simp add: datagram_overhead_def)
qed

lemma peer_datagram_delivered:
  assumes "peer_datagram K t p a" "marker_free p" "length p \<noteq> 1"
  shows "delivered K (key_of t) (udp_peer_address t) a = Some p"
proof -
  from assms(1) obtain x now secs m d x' where send: "send_begin K now secs p x = (Ok (m, d), x')"
    and link: "link_ok K (udp_securer x) (udp_securer t)" and clocks: "clocks_ok secs (ar_secs a)"
    and a: "ar_received a = Inr (udp_peer_address t, d)"
      "length p + datagram_overhead K (udp_securer x) \<le> max_message_size"
    unfolding peer_datagram_def by blast
  obtain m0 where m0: "mark_packet (ingress_works (udp_state x) now) p = Some m0"
    "split_marker m0 = Some (ingress_works (udp_state x) now, p)" "length m0 = length p"
    using split_mark_packet [OF assms(2)] by blast
  have "m0 \<noteq> []" using m0(2) by auto
  obtain sec' where "seal_datagram K secs m0 (udp_securer x) = (Ok d, sec')"
    using send m0(1) by (cases "seal_datagram K secs m0 (udp_securer x)"; cases "fst (seal_datagram K secs m0 (udp_securer x))")
      (auto simp: send_begin_def)
  from seal_opened [OF link this \<open>m0 \<noteq> []\<close> clocks] m0 a \<open>m0 \<noteq> []\<close> assms(3) show ?thesis
    by (auto simp: delivered_def accepted_def)
qed

section \<open>All rounds\<close>

text \<open>The end of the loop: the first error of the socket.\<close>

definition receiver_end :: "arrival list \<Rightarrow> (string, unit) outcome" where
  "receiver_end arrivals =
     (case dropWhile (\<lambda>a. \<not> socket_fails a) arrivals of
        [] \<Rightarrow> Pending
      | a # _ \<Rightarrow> (case ar_received a of Inl e \<Rightarrow> Err e | Inr m \<Rightarrow> Pending))"

lemma receiver_loop_spec:
  assumes "securer_sound K (udp_securer t)" "\<forall>a \<in> set arrivals. ar_secs a < 2 ^ 32"
  shows "\<exists>t' tun'. receiver_loop K enabled v4_header v6_header arrivals (t, tun) =
      (List.map_filter (delivered K (key_of t) (udp_peer_address t)) (takeWhile (\<lambda>a. \<not> socket_fails a) arrivals),
       receiver_end arrivals, t', tun') \<and>
    securer_sound K (udp_securer t') \<and> key_of t' = key_of t \<and>
    udp_stat t' = fold on_packet_received (fst (receiver_loop K enabled v4_header v6_header arrivals (t, tun))) (udp_stat t) \<and>
    length (tun_send_times tun') =
      length (tun_send_times tun) + length (fst (receiver_loop K enabled v4_header v6_header arrivals (t, tun))) \<and>
    last_ingress_packet (udp_state t') =
      fold (heard_of K (key_of t) (udp_peer_address t)) (takeWhile (\<lambda>a. \<not> socket_fails a) arrivals)
        (last_ingress_packet (udp_state t))"
  using assms
proof (induction arrivals arbitrary: t tun)
  case Nil
  then show ?case by (simp add: receiver_end_def List.map_filter_def)
next
  case (Cons a as)
  show ?case
  proof (cases "ar_received a")
    case (Inl e)
    then show ?thesis
      using Cons.prems(1) by (simp add: receiver_round_fails socket_fails_def receiver_end_def List.map_filter_def)
  next
    case (Inr m)
    then have ok: "\<not> socket_fails a" by (simp add: socket_fails_def)
    with Cons.prems receiver_round_accepts [of K "(t, tun)" a enabled v4_header v6_header] obtain t1 tun1 where
      round: "receiver_round K enabled v4_header v6_header a (t, tun) =
        (Ok (delivered K (key_of t) (udp_peer_address t) a), t1, tun1)" and after: "after_arrival K a (t, tun) (t1, tun1)"
      by (auto simp: split_paired_Ex)
    have "securer_sound K (udp_securer t1)" "\<forall>a \<in> set as. ar_secs a < 2 ^ 32"
      using after Cons.prems(2) by (simp_all add: after_arrival_def)
    from Cons.IH [OF this, of tun1] round after ok show ?thesis
      by (auto simp: after_arrival_def receiver_end_def List.map_filter_def split: option.splits)
  qed
qed

section \<open>Properties\<close>

text \<open>C7: the receiver.  Whatever arrives, the receiver never panics and goes on until the first error of
  the socket, which ends it for good.  The tun device is given exactly the packets of the datagrams
  that the key opens within the time window, in the order of their arrival, as often as they arrive,
  and whatever sessions came before; those that the peer's \<open>send\<close> has made of IP packets are among them.
  Each is counted and timed once, and the last of the accepted messages, keep-alives included, says whether
  the peer hears this end.\<close>
theorem udp_receiver_loop:
  assumes "securer_sound K (udp_securer t)" "\<forall>a \<in> set arrivals. ar_secs a < 2 ^ 32"
    "receiver_loop K enabled v4_header v6_header arrivals (t, tun) = (packets, r, t', tun')"
  shows "packets = List.map_filter (delivered K (key_of t) (udp_peer_address t))
      (takeWhile (\<lambda>a. \<not> socket_fails a) arrivals) \<and>
    (\<forall>a p. peer_datagram K t p a \<and> 2 \<le> length p \<and>
       (drop_bit 4 (p ! 0) = 4 \<or> drop_bit 4 (p ! 0) = 6) \<longrightarrow>
       delivered K (key_of t) (udp_peer_address t) a = Some p) \<and>
    r = receiver_end arrivals \<and> r \<noteq> Panic \<and>
    udp_stat t' = fold on_packet_received packets (udp_stat t) \<and>
    length (tun_send_times tun') = length (tun_send_times tun) + length packets \<and>
    last_ingress_packet (udp_state t') =
      fold (heard_of K (key_of t) (udp_peer_address t)) (takeWhile (\<lambda>a. \<not> socket_fails a) arrivals)
        (last_ingress_packet (udp_state t))"
proof -
  have "delivered K (key_of t) (udp_peer_address t) a = Some p"
    if "peer_datagram K t p a" "2 \<le> length p"
      "drop_bit 4 (p ! 0) = 4 \<or> drop_bit 4 (p ! 0) = 6" for a p
  proof (rule peer_datagram_delivered [OF that(1)])
    show "marker_free p" using that(2,3) by (intro marker_free_ip) auto
  qed (use that(2) in simp)
  moreover have "receiver_end arrivals \<noteq> Panic" by (simp add: receiver_end_def split: list.split sum.split)
  ultimately show ?thesis
    using receiver_loop_spec [OF assms(1,2), of enabled v4_header v6_header tun] assms(3) by auto
qed

definition demo_arrival :: "string + socket_addr \<times> bytes \<Rightarrow> arrival" where
  "demo_arrival received =
     \<lparr>ar_received = received, ar_now = 0, ar_secs = 101, ar_elapsed = 3, ar_written = Inr 2\<rparr>"

lemma udp_receiver_loop_witness:
  "\<exists>d t' tun'. receiver_loop demo_crypto True (\<lambda>p. None) (\<lambda>p. None)
      (map demo_arrival [Inr (V4 1 2, d), Inr (V4 1 2, [1, 2, 3]), Inr (V4 1 2, d), Inl ''gone''])
      (demo_end 6, new_tunnel) = ([[0x45, 7], [0x45, 7]], Err ''gone'', t', tun')"
proof -
  have p: "marker_free [0x45, 7]" by (rule marker_free_ip) simp_all
  have "clocks_ok 100 101" by (simp add: clocks_ok_def)
  from mark_then_open [OF demo_end_linked p this, of 5 6 "V4 1 2" 0 0] obtain m d x' where
    send: "send_begin demo_crypto 0 100 [0x45, 7] (demo_end 5) = (Ok (m, d), x')" by auto
  let ?as = "map demo_arrival [Inr (V4 1 2, d), Inr (V4 1 2, [1, 2, 3]), Inr (V4 1 2, d), Inl ''gone'']"
  let ?key = "key_of (demo_end 6)" and ?peer = "udp_peer_address (demo_end 6)"
  have key: "?key = Some (replicate 16 7)" by (simp add: demo_end_def new_udp_transport_def demo_securer_def)
  have sound: "securer_sound demo_crypto (udp_securer (demo_end 6))"
    using demo_linked [of 6 0 6 0] by (simp add: securer_sound_def demo_end_def new_udp_transport_def linked_def)
  obtain packets r t' tun' where run: "receiver_loop demo_crypto True (\<lambda>p. None) (\<lambda>p. None) ?as (demo_end 6, new_tunnel) =
      (packets, r, t', tun')" by (metis prod_cases4)
  have "\<forall>a \<in> set ?as. ar_secs a < 2 ^ 32" by (simp add: demo_arrival_def)
  note loop = udp_receiver_loop [OF sound this run]
  have "length [0x45, 7 :: u8] + datagram_overhead demo_crypto (udp_securer (demo_end 5)) \<le> max_message_size" by simp
  then have "peer_datagram demo_crypto (demo_end 6) [0x45, 7] (demo_arrival (Inr (V4 1 2, d)))"
    unfolding peer_datagram_def using send demo_end_linked [of 5 6] \<open>clocks_ok 100 101\<close>
    by (intro exI conjI) (assumption | simp add: demo_arrival_def)+
  then have "delivered demo_crypto ?key ?peer (demo_arrival (Inr (V4 1 2, d))) = Some [0x45, 7]" using loop by simp
  moreover have "delivered demo_crypto ?key ?peer (demo_arrival (Inr (V4 1 2, [1, 2, 3]))) = None"
    by (simp add: delivered_def accepted_def opened_def demo_arrival_def key demo_crypto_def)
  moreover have "\<not> socket_fails (demo_arrival (Inr x))" "socket_fails (demo_arrival (Inl e))" for x e
    by (simp_all add: socket_fails_def demo_arrival_def)
  ultimately have "packets = [[0x45, 7], [0x45, 7]] \<and> r = Err ''gone''"
    using loop by (simp add: List.map_filter_def receiver_end_def) (simp add: demo_arrival_def)
  with run show ?thesis by blast
qed

end
