(* ===== verification/Spec2Isabelle.thy ===== *)
theory Spec2Isabelle imports ServerLife ClientConnect Sending UdpReceiver begin

text \<open>
  Verification of hiddenlink, a VPN-like tunnel that hides itself in ordinary HTTPS traffic.

  \<^bold>\<open>The program.\<close>  A process on each of two hosts attaches to a tun device.  The controller
  (\<open>src/src/controller.rs\<close>) reads IP packets from it and gives each to the first transport that is
  ready; what a transport receives from its peer it writes to the tun device.  There are three
  transports: UDP datagrams, plain or encrypted (\<open>src/src/transport/udp\<close>); an HTTPS client
  (\<open>src/src/transport/http/client\<close>); and an HTTPS server (\<open>src/src/transport/http/server\<close>).  The
  server looks like a web server: a connection that does not begin with the secret is proxied to a
  real one, so the first bytes are routed before anything is answered.  After the handshake of
  \<open>src/src/protocols/hiddenlink.rs\<close> a connection carries IP packets one after the other, in either
  direction or both (\<open>src/src/transport/http/common.rs\<close>), and ends with a farewell that is shaped
  like a packet with version 0.  To hide the tunnel further a crawler (\<open>src/src/crawler\<close>) fetches the
  pages of the peer's web server.

  \<^bold>\<open>The theories\<close>, in the order of their dependence:

  \<^item> \<open>Prelude\<close>: words, the type \<open>outcome\<close> of what a fallible or waiting function gives (a value, an
    error, a panic, or waiting for ever), lists, ASCII text.
  \<^item> \<open>Wire\<close>: big-endian numbers; sockets as lists of read events; \<open>read_exact\<close> and loops that fill a
    buffer, once and for all over the locales \<open>byte_source\<close> and \<open>bounded_source\<close>.
  \<^item> \<open>Transport\<close>: the flags of a direction, and what the controller and the pools rely on as the
    locales \<open>egress_transport\<close> and \<open>connection_transport\<close>.
  \<^item> \<open>Stat\<close>: counters and the samples reported to the metrics (\<open>transport/stat.rs\<close>,
    \<open>metrics/encoding.rs\<close>).
  \<^item> \<open>PacketReader\<close>, \<open>PacketWriter\<close>: \<open>transport/http/common.rs\<close>.  The abstract specification of a
    stream of packets is \<open>parse_frame\<close> and \<open>packets_in\<close>.
  \<^item> \<open>Net\<close>: socket addresses and time.
  \<^item> \<open>Securer\<close>, \<open>Udp\<close>, \<open>UdpPeers\<close>: encryption of datagrams (\<open>transport/udp/securer.rs\<close>), one end of
    the UDP transport (\<open>transport/udp/mod.rs\<close>), and two ends with an unreliable network between.
    \<open>UdpReceiver\<close>: the loop of its receiver, against a specification that keeps no session.
  \<^item> \<open>Connections\<close>: a pool of connections (\<open>transport/connections.rs\<close>).
  \<^item> \<open>Hiddenlink\<close>: both ends of the handshake.
  \<^item> \<open>Tcp\<close>: the options of sockets (\<open>protocols/tcp.rs\<close> and the end of \<open>transport/http/common.rs\<close>).
  \<^item> \<open>Router\<close>, \<open>Tls\<close>, \<open>ProxyProtocol\<close>, \<open>Proxy\<close>, \<open>ServerConnection\<close>: what a connection to the server
    goes through (\<open>server/router.rs\<close>, \<open>tls.rs\<close>, \<open>protocols/proxy_protocol.rs\<close>, \<open>protocols/proxy.rs\<close>,
    \<open>server/server_connection.rs\<close>).  \<open>ServerSession\<close>: the whole of \<open>ServerConnection::handle\<close>, from the TLS
    handshake to the end of a proxied connection, with all bytes that leave the server.
  \<^item> \<open>HiddenlinkConnection\<close>: the established connection at the server's and at the client's end.
  \<^item> \<open>HttpServer\<close>, \<open>HttpClient\<close>: the two HTTPS transports.  \<open>ServerLife\<close>: the server's accept loop with the
    tasks it spawns, from the accepted connection to its place in the pool and its end.
  \<^item> \<open>ClientTask\<close>: \<open>Connection::handle\<close> of the client, with the tasks it spawns, as one step relation.
    \<open>ClientConnect\<close>: one attempt of it to connect, with its timeout.
  \<^item> \<open>CrawlLinks\<close>, \<open>Crawler\<close>, \<open>CrawlRounds\<close>: the links of a page and the base of a URL (\<open>crawler/html.rs\<close>,
    \<open>sitemap.rs\<close>, \<open>util.rs\<close>); the queue, the capacity of the HTTP client and the resources behind the locale
    \<open>crawl_resource\<close> (\<open>crawler/mod.rs\<close>, \<open>resources.rs\<close>); the rounds of its loop and their invariants.
  \<^item> \<open>Controller\<close>: names and start of the transports, and what becomes of a packet.
  \<^item> \<open>Configuration\<close>, \<open>Program\<close>: what loading a configuration checks (\<open>config.rs\<close> and the \<open>validate\<close>
    attributes of all its structs), and the start of the program (\<open>main.rs\<close>) with the real
    constructors of the transports.
  \<^item> \<open>Host\<close>: the tun device, tracing, and the controller's loop on top of them (\<open>tunnel.rs\<close>, \<open>util.rs\<close>).
  \<^item> \<open>Lifecycle\<close>: \<open>main\<close> with the command line and the panic hook, and the parts that \<open>run\<close> joins, whose
    events come in any order (\<open>main.rs\<close>, \<open>cli.rs\<close>).
  \<^item> \<open>Report\<close>: the metrics of the server, whose statistics outlive its connections, and of the crawler.
    \<open>Page\<close>: the registry and the page with the metrics of all parts (\<open>main.rs\<close>, \<open>metrics/server.rs\<close>),
    over the steps of all transports (\<open>transport_step\<close>).
  \<^item> \<open>Sending\<close>: \<open>send\<close> of every transport as a whole, and the controller over the real transports.

  \<^bold>\<open>How the code is read.\<close>  A struct is a record, an enum a datatype, an integer of a fixed width a
  word where it may wrap and a number where the code only counts.  An \<open>async\<close> function is a function
  from its state and the events of its sockets to an \<open>outcome\<close> and a new state; an await that no
  event ends is \<open>Pending\<close>.  Where tasks interleave the steps between two awaits that hold a lock are
  one step of an inductive relation, and the properties are invariants of its reachable states.
  An \<open>Arc\<close> to a shared connection is an index into a heap.  What crates and the operating system
  do (ciphers, TLS, URL encoding, hashing, X.509 parsing, socket options, results of writes, the
  clock, random numbers) are arguments, and what the code relies on of them are named hypotheses:
  \<open>crypto_ok\<close> and \<open>link_ok\<close> for ciphers and keys, \<open>max_idle\<close> for the longest time to idle that the crate
  \<open>mini-moka\<close> takes (its documentation says 1000 years), \<open>hex_digest\<close> for hashes, \<open>alpn_ok\<close> for TLS, \<open>clocks_ok\<close>
  for clocks, \<open>random_payload\<close> for random text, \<open>world_ok\<close> for the crawler's random choices.

  \<^bold>\<open>What is shown.\<close> Framing: the reader is a refinement of the abstract framing
  whatever the chunks, and never panics; what the writer's tasks leave on a socket under every
  interleaving is whole packets. Handshake and routing: client and server complete the handshake and
  lose no byte; the routing of the first bytes is that of the whole stream, so that without the
  secret every byte goes to the web server, and the client sees nothing but what that server
  answers, whatever fails (\<open>camouflage\<close>). Sessions: the packets accepted at one end are
  those tunneled at the other, from the configuration of both hosts on (\<open>link_delivers\<close>
  below); a client's reconnections leave at most two connections alive, of which one is written to,
  each carries the packets accepted for it and is shut down only when replaced or read to its end
  (\<open>client_streams\<close>); every attempt to connect ends. UDP: delivery, authenticity, unique nonces, a receiver that hands over exactly
  what the key opens (\<open>udp_receiver_loop\<close>), and the mutual confirmation of the
  keep-alive protocol under loss, delay, duplication and reordering. Pools and transports: the
  packets between two addresses keep their connection whatever else they hold, the pool of a server is the connections that live and were not
  replaced (\<open>server_life\<close>), limits and counters are exact, names are distinct, a packet
  of the tun device is on one wire of one connection, or in a datagram from which a linked end
  delivers it, or counted as dropped (\<open>packet_leaves_once\<close>), and the metrics of a server name no series twice and forget
  no client. The crawler: its iterations end, stay within the base and put on the queue exactly what sitemaps
  and pages name, its client makes no more requests than its capacity. Start: which configurations are loaded, and that everything the other
  properties assume of a transport holds once the program has started. End: which event ends the
  process, and how (\<open>process_ends\<close>).

  \<^bold>\<open>What is not as intended.\<close> \<open>config_validation\<close>: the attributes
  of the server's secret, of the Trojan passwords and of the crawler are never looked at.
  \<open>crawler_panics_iff\<close>: a capacity of 0 and a sitemap of another host are accepted and
  end the process. \<open>program_starts\<close>: a crawler whose periods lead to a time to idle that no duration
  or no cache takes is accepted and panics at the start. \<open>client_names_collide\<close>: when connections of two
  clients have one name. \<open>writer_send_accounting\<close>: one kind of refused packet is not counted.
  \<open>metrics_page\<close>: with two HTTP servers the page of metrics has one series twice.

  \<^bold>\<open>Bounds and termination.\<close> All loops over input are functions with a measure
  on what is still to be read, hence total; the endless loops of tasks are step relations, or one
  function a round; \<open>packet_loop\<close>, which may run for ever on an endless stream, is a
  partial function, and \<open>packet_loop_packets\<close> proves that it returns on every finite
  list of events. There is no fuel.

  \<^bold>\<open>Not modelled.\<close>  Logging and the parser of the command line: crates, whose answers \<open>Lifecycle\<close> takes.
  The HTTP server of the metrics page (\<open>metrics/server.rs\<close>, but for the page itself) and the crawler's HTTP
  client beyond its headers, options and redirects (\<open>crawler/client.rs\<close>): crates.  The generated bindings and
  the \<open>ioctl\<close> calls: system calls.  Floating-point durations of histograms are numbers of observations.
\<close>

section \<open>From one tun device to the other\<close>

unbundle bit_operations_syntax

lemma client_flags_bits:
  "flags_from_bits (client_flags c) = Some (client_flags c)"
  "contains (client_flags c) FLAG_EGRESS \<longleftrightarrow> hcc_egress c"
  "contains (client_flags c) FLAG_INGRESS \<longleftrightarrow> hcc_ingress c"
  by (cases "hcc_ingress c"; cases "hcc_egress c";
      simp add: client_flags_def flags_set_def flags_from_bits_def contains_def FLAG_INGRESS_def FLAG_EGRESS_def)+

text \<open>The names and settings of a client's connections.\<close>

lemma client_names:
  assumes "new_http_client urlencode parse_endpoint roots hash_one name cfg = Ok t"
    "1 \<le> hcc_connections cfg" "hcc_connections cfg \<le> 10"
  shows "map cl_name (ht_clients t) = map (client_connection_name name (hcc_connections cfg)) [1..<hcc_connections cfg + 1]"
    "\<forall>cl \<in> set (ht_clients t). cc_flags (cl_config cl) = client_flags cfg \<and>
       cc_secret (cl_config cl) = encode_secret_for_http1 urlencode (hcc_secret cfg)"
proof -
  have "hcc_connections cfg < 2 ^ 64" using assms(3) by simp
  from new_http_client_cases [OF assms(2) this, of urlencode parse_endpoint roots hash_one name] assms(1)
  show "map cl_name (ht_clients t) = map (client_connection_name name (hcc_connections cfg)) [1..<hcc_connections cfg + 1]"
    "\<forall>cl \<in> set (ht_clients t). cc_flags (cl_config cl) = client_flags cfg \<and>
       cc_secret (cl_config cl) = encode_secret_for_http1 urlencode (hcc_secret cfg)"
    by (auto simp del: upt_Suc)
qed

lemma client_of_config:
  assumes "new_http_client urlencode parse_endpoint roots hash_one name cfg = Ok t" "cl \<in> set (ht_clients t)"
    "1 \<le> hcc_connections cfg" "hcc_connections cfg \<le> 10" "presentable name"
  shows "cc_flags (cl_config cl) = client_flags cfg"
    "cc_secret (cl_config cl) = encode_secret_for_http1 urlencode (hcc_secret cfg)"
    "connection_name (as_bytes (cl_name cl)) = Some (cl_name cl)"
proof -
  note c = client_names [OF assms(1,3,4)]
  then show "cc_flags (cl_config cl) = client_flags cfg"
    "cc_secret (cl_config cl) = encode_secret_for_http1 urlencode (hcc_secret cfg)" using assms(2) by blast+
  have "cl_name cl \<in> set (map cl_name (ht_clients t))" using assms(2) by simp
  then obtain k where "cl_name cl = client_connection_name name (hcc_connections cfg) k"
    unfolding c(1) by (auto simp del: upt_Suc)
  with assms(5) presentable_numbered show "connection_name (as_bytes (cl_name cl)) = Some (cl_name cl)"
    by (intro presentable_connection_name) (simp add: client_connection_name_def)
qed

section \<open>Property\<close>

text \<open>C2: a whole link.  A client and a server are configured with the same secret, and the client
  has sent its request and then, over the same connection, packets in any interleaving of its
  tasks.  However the network cuts this stream, the server routes it to a hiddenlink connection with
  the client's name and directions, and puts into its tunnel exactly the packets whose \<open>send\<close> has
  succeeded at the client, whole and in order, if the client has declared egress; and the
  directions of the two ends mirror each other.\<close>
theorem link_delivers:
  assumes "new_http_client urlencode parse_endpoint roots hash_one name cfg = Ok t" "cl \<in> set (ht_clients t)"
    "http_client_config_valid no_control char_count cfg" "presentable name"
    "configured urlencode sha224_hex sc" "hiddenlink_secret (sc_upstreams sc) = hcc_secret cfg"
    "negotiated = None \<or> negotiated = Some ALPN_HTTP1"
    "client_request (cc_secret (cl_config cl)) (cc_flags (cl_config cl)) (cl_name cl) req = Ok request"
    "random_payload 100 2000 req" "random_payload 200 (MTU - 3) payload"
    "writer_step\<^sup>*\<^sup>* (new_writer (cl_name cl) (cl_stat cl), \<lambda>_. []) (w, acc)" "h < length (pw_handles w)"
    "has_sender (pw_handles w ! h)" "\<forall>p \<in> set (acc h). ip_packet p"
    "arriving s = request @ written (wc_socket (pw_handles w ! h))"
    "write_result env = None" "socket_fine (socket_setup env)" "length junk = MTU"
  shows "\<exists>r s' conn fresh hs'.
    process_routing_decision show_addr push_alpn env domain negotiated sc s = (Ok (RouteHiddenlink r), s') \<and>
    req_name r = cl_name cl \<and> admit r fd s' junk hs = ((conn, fresh), hs') \<and>
    (\<exists>farewell. hl_handle payload (hs_heap hs' ! conn) = Some (if hcc_egress cfg then acc h else [], farewell)) \<and>
    (contains (hl_direction (hs_heap hs' ! conn)) DIR_INGRESS \<longleftrightarrow> contains (cl_direction cl) DIR_EGRESS) \<and>
    (contains (hl_direction (hs_heap hs' ! conn)) DIR_EGRESS \<longleftrightarrow> contains (cl_direction cl) DIR_INGRESS)"
proof -
  have n: "1 \<le> hcc_connections cfg" "hcc_connections cfg \<le> 10"
    using assms(3) by (simp_all add: http_client_config_valid_def)
  note cl = client_of_config [OF assms(1,2) n assms(4)]
  let ?up = "written (wc_socket (pw_handles w ! h))"
  have "handle_ok (pw_handles w ! h) (acc h)"
    using writer_ok_reachable [OF assms(11)] assms(12) by (simp add: writer_ok_def)
  then have up: "?up = concat (acc h) @ []" using assms(13) by (simp add: handle_ok_def)
  have "packets_in [] = ([], [])" by (simp add: packets_in.simps [of "[]"] parse_frame_def)
  from packets_before_tail [OF assms(14) this] have ps: "fst (packets_in ?up) = acc h" by (simp add: up)
  have req: "client_request (encode_secret_for_http1 urlencode (hiddenlink_secret (sc_upstreams sc))) (client_flags cfg)
      (cl_name cl) req = Ok request" using assms(6,8) cl(1,2) by simp
  obtain preread s' where d: "process_routing_decision show_addr push_alpn env domain negotiated sc s =
      (Ok (RouteHiddenlink \<lparr>req_name = cl_name cl, req_flags = client_flags cfg, req_preread_data = preread\<rparr>), s')"
    "preread @ arriving s' = ?up" "ending s' = ending s"
    using server_admits_stream [OF assms(5,7) req client_flags_bits(1) cl(3) assms(9,15-17),
        where show_addr = show_addr and push_alpn = push_alpn and domain = domain] by blast
  let ?r = "\<lparr>req_name = cl_name cl, req_flags = client_flags cfg, req_preread_data = preread\<rparr>"
  obtain conn fresh hs' where a: "admit ?r fd s' junk hs = ((conn, fresh), hs')" by (metis prod.collapse)
  then obtain st where c: "hs_heap hs' ! conn = new_hl_connection (cl_name cl) (client_flags cfg) preread fd s' junk st"
    by (auto elim!: admit_pool)
  have "length payload < 2 ^ 16" using assms(10) by (auto simp: random_payload_def MTU_def)
  from server_handles_stream [OF assms(18) this, of "cl_name cl" "client_flags cfg" preread fd s' st]
  have "\<exists>farewell. hl_handle payload (hs_heap hs' ! conn) = Some (if hcc_egress cfg then acc h else [], farewell)"
    by (auto simp: c d(2) ps client_flags_bits(2))
  moreover have "hl_flags (hs_heap hs' ! conn) = client_flags cfg" by (simp add: c new_hl_connection_def)
  ultimately show ?thesis
    using d(1) a cl(1)
    by (intro exI [of _ ?r] exI [of _ s'] exI [of _ conn] exI [of _ fresh] exI [of _ hs'])
      (simp add: hl_direction_def cl_direction_def Let_def dir_defs contains_def)
qed

lemma link_delivers_witness:
  "\<exists>r s s' conn fresh hs' farewell.
    process_routing_decision (\<lambda>_. []) (\<lambda>p c. c + 1) demo_env ''b'' None demo_server s = (Ok (RouteHiddenlink r), s') \<and>
    req_name r = ''c #1'' \<and> admit r 4 s' (replicate MTU 0) (new_http_server (\<lambda>_. 0) ''s'') = ((conn, fresh), hs') \<and>
    hl_handle (replicate 200 97) (hs_heap hs' ! conn) = Some ([sample_packet], farewell)"
proof -
  obtain t where t: "new_http_client id (\<lambda>_. Some ''h'') None (\<lambda>_. 0) ''c'' demo_client_config = Ok t"
    using demo_new_client by blast
  have n: "1 \<le> hcc_connections demo_client_config" "hcc_connections demo_client_config \<le> 10"
    by (simp_all add: demo_client_config_def)
  have "''c #1'' \<in> set (map cl_name (ht_clients t))"
    unfolding client_names(1) [OF t n] demo_client_names by simp
  then obtain cl where cl: "''c #1'' = cl_name cl" "cl \<in> set (ht_clients t)" unfolding set_map by (rule imageE)
  let ?w = "demo_sent (cl_name cl) (cl_stat cl) sample_packet"
  obtain request where req: "client_request (cc_secret (cl_config cl)) (cc_flags (cl_config cl)) (cl_name cl)
      (replicate 100 97) = Ok request"
    by (simp add: client_request_def cl(1) [symmetric])
  have "presentable ''c''" by (simp add: presentable_def is_whitespace_def is_ascii_alphanumeric_def)
  moreover have "hiddenlink_secret (sc_upstreams demo_server) = hcc_secret demo_client_config"
    by (simp add: demo_server_def new_server_connection_def demo_config_def demo_client_config_def)
  moreover have "random_payload 100 2000 (replicate 100 97)" "random_payload 200 (MTU - 3) (replicate 200 97)"
    by (simp_all add: random_payload_replicate MTU_def)
  moreover have "\<forall>p \<in> set (((\<lambda>_. [])(0 := [sample_packet])) 0). ip_packet p" by (simp add: ip_packet_sample)
  moreover have "write_result demo_env = None" "socket_fine (socket_setup demo_env)" by (rule demo_env_fine)+
  moreover have "arriving [Recv request, Recv (written (wc_socket (pw_handles ?w ! 0)))]
      = request @ written (wc_socket (pw_handles ?w ! 0))" by simp
  moreover have "0 < length (pw_handles ?w)" using demo_sent_run(2) by simp
  moreover note link_delivers [OF t cl(2) demo_client_valid _ demo_configured _ _ req _ _ demo_sent_run(1) [where packet = sample_packet] _ demo_sent_run(3),
        where negotiated = None and payload = "replicate 200 97" and env = demo_env and junk = "replicate MTU 0"
          and s = "[Recv request, Recv (written (wc_socket (pw_handles ?w ! 0)))]" and show_addr = "\<lambda>_. []"
          and push_alpn = "\<lambda>p c. c + 1" and domain = "''b''" and fd = 4 and hs = "new_http_server (\<lambda>_. 0) ''s''"]
  moreover have "hcc_egress demo_client_config" by (simp add: demo_client_config_def)
  ultimately show ?thesis unfolding cl(1) by simp blast
qed

end
